(* ===== verification/Hcurl_Base.thy ===== *)
theory Hcurl_Base
  imports Main "HOL-Library.Word" "HOL-Library.Monad_Syntax"
begin

text \<open>
  Shared vocabulary of the development: the C integer types the sources use, blocks of heap
  memory with bounds and initialisation tracked, the log of calls that leave the C code, the
  doubling loop that both growable buffers run, ring indices, the interface of a bounded FIFO and
  of a transition system, and the lemma collections the component theories extend.

  A \<open>size_t\<close> is a natural number with the wrap-around of the 64-bit type written out in
  \<open>sz_add\<close>, \<open>sz_sub\<close> and \<open>sz_mul\<close>; types on which the sources work bitwise
  (\<open>transfer_id_t\<close>, the state word of the message sender) are \<open>64 word\<close>.
  Undefined behaviour (a write outside a block, a read of an indeterminate byte, a failed
  \<open>assert\<close>) is the value \<open>None\<close> of an option, so that its absence is a theorem.
\<close>

named_theorems size_simps \<open>arithmetic of size_t inside its range\<close>
named_theorems block_simps \<open>reads and writes of memory blocks\<close>
named_theorems ring_simps \<open>ring indices and the list they enumerate\<close>
named_theorems inv_intros \<open>preservation of component invariants\<close>

section \<open>Integers of the C sources\<close>

type_synonym byte = char
type_synonym size_t = nat
type_synonym addr = nat

abbreviation (input) NULL :: addr where "NULL \<equiv> 0"

definition SIZE_MAX :: size_t where "SIZE_MAX = 18446744073709551615"

definition sz_add :: "size_t \<Rightarrow> size_t \<Rightarrow> size_t" where
  "sz_add a b = (a + b) mod 2 ^ 64"

definition sz_sub :: "size_t \<Rightarrow> size_t \<Rightarrow> size_t" where
  "sz_sub a b = (a + (2 ^ 64 - b mod 2 ^ 64)) mod 2 ^ 64"

definition sz_mul :: "size_t \<Rightarrow> size_t \<Rightarrow> size_t" where
  "sz_mul a b = (a * b) mod 2 ^ 64"

lemma SIZE_MAX_Suc: "Suc SIZE_MAX = 2 ^ 64"
  by (simp add: SIZE_MAX_def)

lemma sz_add_exact [size_simps]: "a + b \<le> SIZE_MAX \<Longrightarrow> sz_add a b = a + b"
  by (simp add: sz_add_def SIZE_MAX_def)

lemma sz_sub_exact [size_simps]: "b \<le> a \<Longrightarrow> a \<le> SIZE_MAX \<Longrightarrow> sz_sub a b = a - b"
  by (simp add: sz_sub_def SIZE_MAX_def mod_if)

lemma sz_mul_exact [size_simps]: "a * b \<le> SIZE_MAX \<Longrightarrow> sz_mul a b = a * b"
  by (simp add: sz_mul_def SIZE_MAX_def)

lemma sz_add_le [simp]: "sz_add a b \<le> SIZE_MAX"
proof -
  have "(a + b) mod 2 ^ 64 < Suc SIZE_MAX" by (simp add: SIZE_MAX_Suc)
  then show ?thesis by (simp add: sz_add_def)
qed

text \<open>
  The guard \<open>size != 0 && count > SIZE_MAX / size\<close> occurs in three callbacks; it is exactly the
  test that the product does not fit in a \<open>size_t\<close>.
\<close>

lemma overflow_guard:
  "(sz \<noteq> 0 \<and> count > SIZE_MAX div sz) \<longleftrightarrow> sz * count > SIZE_MAX"
proof (cases "sz = 0")
  case False
  then have "count \<le> SIZE_MAX div sz \<longleftrightarrow> count * sz \<le> SIZE_MAX"
    by (simp add: less_eq_div_iff_mult_less_eq)
  then have "count > SIZE_MAX div sz \<longleftrightarrow> sz * count > SIZE_MAX"
    by (simp only: not_le [symmetric] mult.commute)
  with False show ?thesis by simp
qed simp

lemma guarded_mul [size_simps]:
  "\<not> (sz \<noteq> 0 \<and> count > SIZE_MAX div sz) \<Longrightarrow> sz_mul sz count = sz * count"
  unfolding overflow_guard by (simp add: sz_mul_exact)

section \<open>Calls that leave the C code\<close>

text \<open>
  The calls into the Haskell run-time system, libuv and libcurl whose occurrence matters are
  recorded, in order, in a log. Addresses stand for the handles the C code passes along.
\<close>

type_synonym HsStablePtr = addr
type_synonym CURL = addr
type_synonym CURLcode = int

datatype event =
    HsTryPutMVar int HsStablePtr
  | HsFreeStablePtr HsStablePtr
  | UvAsyncSend addr
  | UvStop
  | CurlMultiAddHandle CURL
  | CurlMultiRemoveHandle CURL
  | CurlEasySetPrivate CURL addr
  | CurlEasyPause CURL int
  | CurlEasyCleanup CURL

text \<open>
  The result codes the sources name, with the numbers of libcurl's stable ABI
  (\<open>src/src/HCurl/Internal/Raw/Curl.chs\<close> lists the same table).
\<close>

definition CURLE_OK :: CURLcode where "CURLE_OK = 0"
definition CURLE_FAILED_INIT :: CURLcode where "CURLE_FAILED_INIT = 2"
definition CURLE_OUT_OF_MEMORY :: CURLcode where "CURLE_OUT_OF_MEMORY = 27"
definition CURLE_OPERATION_TIMEDOUT :: CURLcode where "CURLE_OPERATION_TIMEDOUT = 28"
definition CURLE_ABORTED_BY_CALLBACK :: CURLcode where "CURLE_ABORTED_BY_CALLBACK = 42"
definition CURLE_BAD_FUNCTION_ARGUMENT :: CURLcode where "CURLE_BAD_FUNCTION_ARGUMENT = 43"
definition CURLE_RECV_ERROR :: CURLcode where "CURLE_RECV_ERROR = 56"

lemmas curl_codes = CURLE_OK_def CURLE_FAILED_INIT_def CURLE_OUT_OF_MEMORY_def
  CURLE_OPERATION_TIMEDOUT_def CURLE_ABORTED_BY_CALLBACK_def CURLE_BAD_FUNCTION_ARGUMENT_def
  CURLE_RECV_ERROR_def

text \<open>
  \<open>curl_easy_setopt\<close> calls one after another, until one fails: the code of the last call made and the
  calls made. What each call answers is the argument \<open>setopt\<close>.
\<close>

fun setopt_seq :: "('o \<Rightarrow> CURLcode) \<Rightarrow> 'o list \<Rightarrow> CURLcode \<times> 'o list" where
  "setopt_seq setopt [] = (CURLE_OK, [])"
| "setopt_seq setopt (x # xs) =
     (if setopt x \<noteq> CURLE_OK then (setopt x, [x])
      else (case setopt_seq setopt xs of (code, made) \<Rightarrow> (code, x # made)))"

lemma setopt_seq_ok:
  "setopt_seq setopt xs = (code, made) \<Longrightarrow>
   (code = CURLE_OK \<longleftrightarrow> (\<forall>x \<in> set xs. setopt x = CURLE_OK)) \<and> (code = CURLE_OK \<longrightarrow> made = xs)"
  by (induction xs arbitrary: made) (auto split: prod.splits if_splits)

section \<open>Memory blocks\<close>

text \<open>
  A heap block is the list of its bytes, \<open>None\<close> for a byte that has not been written since the
  block was allocated.
\<close>

type_synonym block = "byte option list"

definition block_alloc :: "size_t \<Rightarrow> block" where
  "block_alloc n = replicate n None"

definition block_realloc :: "block \<Rightarrow> size_t \<Rightarrow> block" where
  "block_realloc b n = take n b @ replicate (n - length b) None"

definition block_write :: "block \<Rightarrow> size_t \<Rightarrow> byte list \<Rightarrow> block option" where
  "block_write b off bs =
     (if off + length bs \<le> length b
      then Some (take off b @ map Some bs @ drop (off + length bs) b) else None)"

definition block_read :: "block \<Rightarrow> size_t \<Rightarrow> size_t \<Rightarrow> byte list option" where
  "block_read b off n =
     (if off + n \<le> length b \<and> None \<notin> set (take n (drop off b))
      then Some (map the (take n (drop off b))) else None)"

text \<open>The block starts with the given initialised bytes.\<close>

definition block_holds :: "block \<Rightarrow> byte list \<Rightarrow> bool" where
  "block_holds b bs \<longleftrightarrow> length bs \<le> length b \<and> take (length bs) b = map Some bs"

lemma length_block_alloc [simp]: "length (block_alloc n) = n"
  by (simp add: block_alloc_def)

lemma length_block_realloc [simp]: "length (block_realloc b n) = n"
  by (simp add: block_realloc_def)

lemma block_holds_Nil [simp]: "block_holds b []"
  by (simp add: block_holds_def)

lemma block_write_length: "block_write b off bs = Some b' \<Longrightarrow> length b' = length b"
  by (auto simp: block_write_def split: if_splits)

lemma block_write_defined [block_simps]:
  "off + length bs \<le> length b \<Longrightarrow>
   block_write b off bs = Some (take off b @ map Some bs @ drop (off + length bs) b)"
  by (simp add: block_write_def)

lemma block_holds_realloc:
  "block_holds b bs \<Longrightarrow> length bs \<le> n \<Longrightarrow> block_holds (block_realloc b n) bs"
  by (auto simp: block_holds_def block_realloc_def min_def)

lemma block_holds_append:
  assumes "block_holds b bs" and "length bs + length cs \<le> length b"
  shows "\<exists>b'. block_write b (length bs) cs = Some b' \<and> block_holds b' (bs @ cs)
    \<and> length b' = length b"
  using assms by (auto simp: block_write_def block_holds_def)

lemma block_holds_prefix: "block_holds b (bs @ cs) \<Longrightarrow> block_holds b bs"
proof -
  assume h: "block_holds b (bs @ cs)"
  then have "take (length bs) (take (length (bs @ cs)) b) = take (length bs) (map Some (bs @ cs))"
    by (simp add: block_holds_def)
  then have "take (length bs) b = map Some bs" by (simp add: take_map)
  with h show ?thesis by (simp add: block_holds_def)
qed

lemma block_read_holds:
  assumes "block_holds b bs" shows "block_read b 0 (length bs) = Some bs"
proof -
  have "take (length bs) b = map Some bs" and "length bs \<le> length b"
    using assms by (auto simp: block_holds_def)
  then show ?thesis by (auto simp: block_read_def o_def)
qed

text \<open>Text appended after \<open>t\<close> and terminated by a NUL, as both growing buffers do.\<close>

lemma block_append_terminated:
  assumes "block_holds b t" and "length t + length d + 1 \<le> length b"
  shows "\<exists>b1 b2. block_write b (length t) d = Some b1
    \<and> block_write b1 (length t + length d) [CHR 0x00] = Some b2
    \<and> block_holds b2 ((t @ d) @ [CHR 0x00]) \<and> length b2 = length b"
proof -
  obtain b1 where b1: "block_write b (length t) d = Some b1" "block_holds b1 (t @ d)"
    "length b1 = length b"
    using block_holds_append [OF assms(1), of d] assms(2) by auto
  moreover obtain b2 where "block_write b1 (length (t @ d)) [CHR 0x00] = Some b2"
    "block_holds b2 ((t @ d) @ [CHR 0x00])" "length b2 = length b1"
    using block_holds_append [OF b1(2), of "[CHR 0x00]"] assms(2) b1(3) by auto
  ultimately show ?thesis by auto
qed

section \<open>The doubling loop\<close>

text \<open>
  \<open>while (grown < required) { if (grown > SIZE_MAX / 2) { grown = required; break; } grown *= 2; }\<close>
  from a positive start; \<open>reserve\<close> in \<open>headers.c\<close> and \<open>simple_string_writefunc\<close> both
  run it. A start of zero would not terminate; the measure excludes it and both callers do.
\<close>

function grow_until :: "size_t \<Rightarrow> size_t \<Rightarrow> size_t" where
  "grow_until grown required =
     (if grown = 0 then required
      else if grown < required then
        (if grown > SIZE_MAX div 2 then required
         else grow_until (sz_mul grown 2) required)
      else grown)"
  by pat_completeness auto
termination
proof (relation "measure (\<lambda>(grown, required). required - grown)", goal_cases)
  case (2 grown required)
  then have "sz_mul grown 2 = grown * 2"
    by (intro sz_mul_exact) (simp add: SIZE_MAX_def)
  with 2 show ?case by simp
qed simp

declare grow_until.simps [simp del]

lemma grow_until_ge: "required \<le> grow_until grown required"
proof (induction grown required rule: grow_until.induct)
  case (1 grown required)
  show ?case
    by (subst grow_until.simps) (use "1.IH" in auto)
qed

lemma grow_until_le_SIZE_MAX:
  "grown \<le> SIZE_MAX \<Longrightarrow> required \<le> SIZE_MAX \<Longrightarrow> grow_until grown required \<le> SIZE_MAX"
proof (induction grown required rule: grow_until.induct)
  case (1 grown required)
  have "sz_mul grown 2 \<le> SIZE_MAX" if "\<not> grown > SIZE_MAX div 2"
    using that by (simp add: sz_mul_exact SIZE_MAX_def)
  then show ?case
    by (subst grow_until.simps) (use 1 in auto)
qed

lemma grow_until_bound:
  "0 < grown \<Longrightarrow> grown < required \<Longrightarrow> grow_until grown required < 2 * required"
proof (induction grown required rule: grow_until.induct)
  case (1 grown required)
  show ?case
  proof (cases "grown > SIZE_MAX div 2")
    case True
    with 1 show ?thesis by (subst grow_until.simps) simp
  next
    case False
    then have d: "sz_mul grown 2 = grown * 2"
      by (intro sz_mul_exact) (simp add: SIZE_MAX_def)
    have e: "grow_until grown required = grow_until (grown * 2) required"
      using 1 False d by (subst grow_until.simps) simp
    show ?thesis
    proof (cases "grown * 2 < required")
      case True
      with "1.IH" "1.prems" False d e show ?thesis by simp
    next
      case g: False
      with "1.prems" have "grow_until (grown * 2) required = grown * 2"
        by (subst grow_until.simps) simp
      with e "1.prems" show ?thesis by simp
    qed
  qed
qed

section \<open>Compare-and-swap loops\<close>

text \<open>
  A loop \<open>do { ... } while (!atomic_compare_exchange_weak(...))\<close>: \<open>f\<close> computes the new value or
  gives up, \<open>us\<close> are the values reloaded by the exchanges that failed (another thread was faster, or
  a spurious failure). The result is the value last read and what replaced it.
\<close>

fun cas_loop :: "('v \<Rightarrow> 'v option) \<Rightarrow> 'v \<Rightarrow> 'v list \<Rightarrow> 'v \<times> 'v option" where
  "cas_loop f v [] = (v, f v)"
| "cas_loop f v (u # us) = (case f v of None \<Rightarrow> (v, None) | Some _ \<Rightarrow> cas_loop f u us)"

lemma cas_loop_result: "snd (cas_loop f v us) = f (fst (cas_loop f v us))"
  by (induction f v us rule: cas_loop.induct) (auto split: option.splits)

lemma cas_loop_spurious: "\<forall>u \<in> set us. u = v \<Longrightarrow> cas_loop f v us = (v, f v)"
  by (induction us) (auto split: option.splits)

section \<open>Ring indices\<close>

text \<open>
  The occupied slots of a ring of \<open>n\<close> slots, from \<open>hd\<close> on, in order.
\<close>

definition ring_slots :: "nat \<Rightarrow> nat \<Rightarrow> nat \<Rightarrow> nat list" where
  "ring_slots n h c = map (\<lambda>i. (h + i) mod n) [0..<c]"

lemma length_ring_slots [simp]: "length (ring_slots n h c) = c"
  by (simp add: ring_slots_def)

lemma ring_slots_0 [simp]: "ring_slots n h 0 = []"
  by (simp add: ring_slots_def)

lemma ring_slots_snoc [ring_simps]: "ring_slots n h (Suc c) = ring_slots n h c @ [(h + c) mod n]"
  by (simp add: ring_slots_def)

lemma ring_slots_Cons [ring_simps]:
  "h < n \<Longrightarrow> ring_slots n h (Suc c) = h # ring_slots n ((h + 1) mod n) c"
proof -
  assume h: "h < n"
  have "[0..<Suc c] = 0 # map Suc [0..<c]"
    by (metis map_Suc_upt upt_conv_Cons zero_less_Suc)
  then have "ring_slots n h (Suc c) = h # map (\<lambda>i. (h + Suc i) mod n) [0..<c]"
    using h by (simp add: ring_slots_def o_def del: upt_Suc)
  also have "map (\<lambda>i. (h + Suc i) mod n) [0..<c] = ring_slots n ((h + 1) mod n) c"
    by (simp add: ring_slots_def mod_add_left_eq)
  finally show ?thesis .
qed

lemma add_mod_inj:
  fixes h i j n :: nat
  assumes "(h + i) mod n = (h + j) mod n" and "i < n" and "j < n"
  shows "i = j"
proof -
  have "i = j" if le: "j \<le> i" and eq: "(h + i) mod n = (h + j) mod n"
    and lt: "i < n" for i j :: nat
  proof -
    have "n dvd (h + i) - (h + j)"
      using le eq by (intro mod_eq_dvd_iff_nat [THEN iffD1]) auto
    with le lt show ?thesis by (auto dest: dvd_imp_le)
  qed
  from this [of j i] this [of i j] assms show ?thesis by (cases "j \<le> i") auto
qed

lemma ring_slots_distinct: "c \<le> n \<Longrightarrow> distinct (ring_slots n h c)"
  by (auto simp: ring_slots_def distinct_map inj_on_def dest: add_mod_inj)

lemma ring_slots_less: "0 < n \<Longrightarrow> i \<in> set (ring_slots n h c) \<Longrightarrow> i < n"
  by (auto simp: ring_slots_def)

lemma ring_slot_fresh: "c < n \<Longrightarrow> (h + c) mod n \<notin> set (ring_slots n h c)"
  by (auto simp: ring_slots_def dest: add_mod_inj)

lemma ring_slot_complement:
  assumes "h < n" and "c \<le> n" and "i < n" and "i \<notin> set (ring_slots n h c)"
  shows "\<exists>k. c \<le> k \<and> k < n \<and> i = (h + k) mod n"
proof -
  define k where "k = (i + n - h) mod n"
  have "(h + k) mod n = i"
    using assms by (simp add: k_def mod_add_right_eq)
  moreover have "k < n" using assms by (simp add: k_def)
  moreover have "\<not> k < c"
    using assms(4) \<open>(h + k) mod n = i\<close> by (auto simp: ring_slots_def)
  ultimately show ?thesis by (intro exI [of _ k]) auto
qed

section \<open>Counting threads\<close>

text \<open>How many of the threads \<open>0, \<dots>, n - 1\<close> are at a program point.\<close>

definition threads_at :: "nat \<Rightarrow> ('p \<Rightarrow> bool) \<Rightarrow> (nat \<Rightarrow> 'p) \<Rightarrow> nat" where
  "threads_at n P pc = card {j. j < n \<and> P (pc j)}"

lemma threads_at_le: "threads_at n P pc \<le> n"
proof -
  have "card {j. j < n \<and> P (pc j)} \<le> card {..<n}" by (rule card_mono) auto
  then show ?thesis by (simp add: threads_at_def)
qed

lemma threads_at_upd:
  assumes "i < n"
  shows "threads_at n P (pc(i := v)) + (if P (pc i) then 1 else 0)
       = threads_at n P pc + (if P v then 1 else 0)"
proof -
  let ?rest = "{j. j < n \<and> j \<noteq> i \<and> P (pc j)}"
  have split: "threads_at n P f = card ?rest + (if P (f i) then 1 else 0)"
    if "\<forall>j. j \<noteq> i \<longrightarrow> f j = pc j" for f
  proof -
    have "{j. j < n \<and> P (f j)} = (if P (f i) then insert i ?rest else ?rest)"
      using that assms by auto
    then show ?thesis by (simp add: threads_at_def)
  qed
  show ?thesis using split [of pc] split [of "pc(i := v)"] by simp
qed

lemma threads_at_pos: "i < n \<Longrightarrow> P (pc i) \<Longrightarrow> 0 < threads_at n P pc"
  by (auto simp: threads_at_def card_gt_0_iff)

lemma threads_at_0: "threads_at n P pc = 0 \<longleftrightarrow> (\<forall>i < n. \<not> P (pc i))"
  by (auto simp: threads_at_def)

section \<open>Interfaces\<close>

text \<open>
  A bounded FIFO: what the reactor relies on of its message queue, and the transfer callbacks of
  the chunk ring.
\<close>

locale bounded_fifo =
  fixes contents :: "'q \<Rightarrow> 'a list"
    and bound :: "'q \<Rightarrow> nat"
    and invar :: "'q \<Rightarrow> bool"
    and put :: "'a \<Rightarrow> 'q \<Rightarrow> 'q option"
    and get :: "'q \<Rightarrow> ('a \<times> 'q) option"
  assumes contents_bound: "invar q \<Longrightarrow> length (contents q) \<le> bound q"
    and put_full: "invar q \<Longrightarrow> put x q = None \<longleftrightarrow> length (contents q) = bound q"
    and put_contents: "invar q \<Longrightarrow> put x q = Some q' \<Longrightarrow> contents q' = contents q @ [x]"
    and put_invar: "invar q \<Longrightarrow> put x q = Some q' \<Longrightarrow> invar q' \<and> bound q' = bound q"
    and get_empty: "invar q \<Longrightarrow> get q = None \<longleftrightarrow> contents q = []"
    and get_contents: "invar q \<Longrightarrow> get q = Some (x, q') \<Longrightarrow> contents q = x # contents q'"
    and get_invar: "invar q \<Longrightarrow> get q = Some (x, q') \<Longrightarrow> invar q' \<and> bound q' = bound q"
begin

text \<open>A schedule of puts (\<open>Some x\<close>) and gets (\<open>None\<close>), with what was accepted and delivered.\<close>

fun run_fifo :: "'a option list \<Rightarrow> 'q \<Rightarrow> 'a list \<times> 'a list \<times> 'q" where
  "run_fifo [] q = ([], [], q)"
| "run_fifo (Some x # ops) q =
     (case put x q of
        None \<Rightarrow> run_fifo ops q
      | Some q' \<Rightarrow> (case run_fifo ops q' of (acc, del, r) \<Rightarrow> (x # acc, del, r)))"
| "run_fifo (None # ops) q =
     (case get q of
        None \<Rightarrow> run_fifo ops q
      | Some (x, q') \<Rightarrow> (case run_fifo ops q' of (acc, del, r) \<Rightarrow> (acc, x # del, r)))"

lemma run_fifo_order:
  "invar q \<Longrightarrow> run_fifo ops q = (acc, del, r) \<Longrightarrow>
   invar r \<and> bound r = bound q \<and> contents q @ acc = del @ contents r"
proof (induction ops q arbitrary: acc del r rule: run_fifo.induct)
  case (1 q)
  then show ?case by simp
next
  case (2 x ops q)
  show ?case
  proof (cases "put x q")
    case None
    with 2 show ?thesis by simp
  next
    case (Some q')
    obtain acc' where r: "run_fifo ops q' = (acc', del, r)" "acc = x # acc'"
      using 2(4) Some by (auto split: prod.splits)
    have "invar q'" "bound q' = bound q" "contents q' = contents q @ [x]"
      using 2(3) Some put_invar put_contents by auto
    with 2(2) [OF Some _ r(1)] r(2) show ?thesis by simp
  qed
next
  case (3 ops q)
  show ?case
  proof (cases "get q")
    case None
    with 3 show ?thesis by simp
  next
    case (Some p)
    obtain x q' where p: "p = (x, q')" by (cases p)
    obtain del' where r: "run_fifo ops q' = (acc, del', r)" "del = x # del'"
      using 3(4) Some p by (auto split: prod.splits)
    have "invar q'" "bound q' = bound q" "contents q = x # contents q'"
      using 3(3) Some p get_invar get_contents by auto
    with 3(2) [OF Some _ _ r(1)] p r(2) show ?thesis by auto
  qed
qed

end

text \<open>
  A growable text buffer: \<open>rep b t\<close> says that \<open>b\<close> stores the bytes \<open>t\<close>; an append takes the outcome
  of its allocation, if it needs one, and is \<open>None\<close> where the code would touch memory outside its
  block. A refused append leaves the text as it was.
\<close>

fun append_run :: "(bool \<Rightarrow> byte list \<Rightarrow> 'b \<Rightarrow> (bool \<times> 'b) option) \<Rightarrow> (bool \<times> byte list) list
    \<Rightarrow> 'b \<Rightarrow> (bool \<times> 'b) option" where
  "append_run app [] b = Some (True, b)"
| "append_run app ((m, d) # ds) b =
     (case app m d b of
        None \<Rightarrow> None
      | Some (True, b') \<Rightarrow> append_run app ds b'
      | Some (False, b') \<Rightarrow> Some (False, b'))"

locale text_buffer =
  fixes rep :: "'b \<Rightarrow> byte list \<Rightarrow> bool"
    and app :: "bool \<Rightarrow> byte list \<Rightarrow> 'b \<Rightarrow> (bool \<times> 'b) option"
    and fits :: "byte list \<Rightarrow> byte list \<Rightarrow> bool"
  assumes append_law: "rep b t \<Longrightarrow> length d \<le> SIZE_MAX \<Longrightarrow>
      \<exists>ok b'. app m d b = Some (ok, b') \<and> rep b' (if ok then t @ d else t)
        \<and> (m \<and> fits t d \<longrightarrow> ok) \<and> (\<not> fits t d \<longrightarrow> \<not> ok)"
begin

text \<open>
  A sequence of appends that stops at the first refusal, as libcurl stops a transfer: never
  undefined, and the buffer holds exactly the chunks accepted.
\<close>

lemma append_run_law:
  "rep b t \<Longrightarrow> \<forall>d \<in> snd ` set ds. length d \<le> SIZE_MAX \<Longrightarrow>
   \<exists>ok b' k. append_run app ds b = Some (ok, b')
     \<and> rep b' (t @ concat (map snd (take k ds))) \<and> (ok \<longrightarrow> k = length ds)"
proof (induction ds arbitrary: b t)
  case (Cons e ds)
  obtain m d where e: "e = (m, d)" by (cases e)
  then have "length d \<le> SIZE_MAX" using Cons.prems(2) by simp
  with append_law [OF Cons.prems(1), of d m] obtain ok b' where
    a: "app m d b = Some (ok, b')" "rep b' (if ok then t @ d else t)" by blast
  show ?case
  proof (cases ok)
    case True
    with a Cons.IH [of b' "t @ d"] Cons.prems(2) obtain ok2 b2 k where
      "append_run app ds b' = Some (ok2, b2)" "rep b2 ((t @ d) @ concat (map snd (take k ds)))"
      "ok2 \<longrightarrow> k = length ds" by auto
    with a True e show ?thesis by (intro exI [of _ ok2] exI [of _ b2] exI [of _ "Suc k"]) simp
  next
    case False
    with a e show ?thesis by (intro exI [of _ False] exI [of _ b'] exI [of _ 0]) simp
  qed
qed auto

end

text \<open>A transition system with an inductive invariant.\<close>

locale step_system =
  fixes init :: "'s \<Rightarrow> bool"
    and step :: "'s \<Rightarrow> 's \<Rightarrow> bool"
    and invar :: "'s \<Rightarrow> bool"
  assumes init_invar: "init s \<Longrightarrow> invar s"
    and step_invar: "invar s \<Longrightarrow> step s t \<Longrightarrow> invar t"
begin

lemma reach_invar: "init s \<Longrightarrow> step\<^sup>*\<^sup>* s t \<Longrightarrow> invar t"
proof -
  assume "init s" and "step\<^sup>*\<^sup>* s t"
  from this(2) show "invar t"
    by (induction rule: rtranclp_induct) (auto intro: init_invar \<open>init s\<close> step_invar)
qed

end

end
