(* ===== verification/Mpscq.thy ===== *)
theory Mpscq
  imports Hcurl_Base
begin

text \<open>
  The multi-producer, single-consumer queue of \<open>third-party/include/waitfree-mpsc-queue/mpsc.c\<close>.

  The first part is the queue as its functions leave it when they run to completion: creation,
  enqueue, dequeue and the two observers, with a failed \<open>assert\<close> as \<open>None\<close>. Each function is
  composed of the atomic accesses it makes, which are definitions of their own.

  The second part is the queue under concurrency: any number of producer threads and the one
  consumer, each between two of its atomic accesses, with an interleaving chosen by the scheduler.
  The accesses are sequentially consistent in the model. The third part shows that no interleaving
  fails an assertion or reorders messages, and that the queue accepts no more than its capacity.
\<close>

section \<open>The structure and its atomic accesses\<close>

record 'a mpscq =
  q_count :: size_t
  q_head :: size_t
  q_tail :: size_t
  q_max :: size_t
  q_buffer :: "'a option list"
  q_flags :: int

definition MPSCQ_MALLOC :: int where "MPSCQ_MALLOC = 1"

text \<open>The size of a slot, \<open>sizeof(*n->buffer)\<close>, a pointer on the 64-bit targets.\<close>

definition slot_size :: size_t where "slot_size = 8"

definition is_pow2_test :: "size_t \<Rightarrow> bool" where
  "is_pow2_test c \<longleftrightarrow> and c (c - 1) = 0"

text \<open>
  \<open>mpscq_create\<close>: \<open>n\<close> is the caller's structure or \<open>None\<close>; the two Booleans are the
  outcomes of the allocations. The result is the initialised queue.
\<close>

definition mpscq_create :: "bool \<Rightarrow> bool \<Rightarrow> 'a mpscq option \<Rightarrow> size_t \<Rightarrow> 'a mpscq option" where
  "mpscq_create calloc_ok malloc_ok n capacity =
     (if capacity < 2 \<or> \<not> is_pow2_test capacity \<or> capacity > SIZE_MAX div slot_size then None
      else if n = None \<and> \<not> calloc_ok then None
      else if \<not> malloc_ok then None
      else Some \<lparr>q_count = 0, q_head = 0, q_tail = 0, q_max = capacity,
                 q_buffer = replicate capacity None,
                 q_flags = (if n = None then MPSCQ_MALLOC else 0)\<rparr>)"

text \<open>What \<open>mpscq_destroy\<close> gives back to the allocator: the buffer, and the structure if it was allocated here.\<close>

definition mpscq_destroy :: "'a mpscq option \<Rightarrow> bool \<times> bool" where
  "mpscq_destroy q =
     (case q of None \<Rightarrow> (False, False) | Some q \<Rightarrow> (True, and (q_flags q) MPSCQ_MALLOC \<noteq> 0))"

definition enq_count :: "'a mpscq \<Rightarrow> size_t \<times> 'a mpscq" where
  "enq_count q = (q_count q, q\<lparr>q_count := sz_add (q_count q) 1\<rparr>)"

definition enq_backoff :: "'a mpscq \<Rightarrow> 'a mpscq" where
  "enq_backoff q = q\<lparr>q_count := sz_sub (q_count q) 1\<rparr>"

definition enq_reserve :: "'a mpscq \<Rightarrow> size_t \<times> 'a mpscq" where
  "enq_reserve q = (q_head q, q\<lparr>q_head := sz_add (q_head q) 1\<rparr>)"

text \<open>The exchange into the reserved slot; both assertions of the source are about its old value.\<close>

definition enq_publish :: "size_t \<Rightarrow> 'a \<Rightarrow> 'a mpscq \<Rightarrow> 'a option \<times> 'a mpscq" where
  "enq_publish head obj q =
     (q_buffer q ! (head mod q_max q),
      q\<lparr>q_buffer := (q_buffer q)[head mod q_max q := Some obj]\<rparr>)"

definition mpscq_enqueue ::
    "'a mpscq option \<Rightarrow> 'a option \<Rightarrow> (bool \<times> 'a mpscq option) option" where
  "mpscq_enqueue qp objp =
     (case (qp, objp) of
        (Some q, Some obj) \<Rightarrow>
          (let (count, q1) = enq_count q
           in if count \<ge> q_max q1 then Some (False, Some (enq_backoff q1))
              else let (head, q2) = enq_reserve q1;
                       (rv, q3) = enq_publish head obj q2
                   in if rv \<noteq> None then None else Some (True, Some q3))
      | _ \<Rightarrow> Some (False, qp))"

definition deq_take :: "'a mpscq \<Rightarrow> 'a option \<times> 'a mpscq" where
  "deq_take q = (q_buffer q ! q_tail q, q\<lparr>q_buffer := (q_buffer q)[q_tail q := None]\<rparr>)"

definition deq_advance :: "'a mpscq \<Rightarrow> 'a mpscq" where
  "deq_advance q =
     (let t = sz_add (q_tail q) 1 in q\<lparr>q_tail := (if t \<ge> q_max q then 0 else t)\<rparr>)"

definition deq_uncount :: "'a mpscq \<Rightarrow> size_t \<times> 'a mpscq" where
  "deq_uncount q = (q_count q, q\<lparr>q_count := sz_sub (q_count q) 1\<rparr>)"

definition mpscq_dequeue :: "'a mpscq option \<Rightarrow> ('a option \<times> 'a mpscq option) option" where
  "mpscq_dequeue qp =
     (case qp of
        None \<Rightarrow> Some (None, None)
      | Some q \<Rightarrow>
          (case deq_take q of
             (None, q1) \<Rightarrow> Some (None, Some q1)
           | (Some ret, q1) \<Rightarrow>
               (let (r, q2) = deq_uncount (deq_advance q1)
                in if \<not> r > 0 then None else Some (Some ret, Some q2))))"

definition mpscq_count :: "'a mpscq option \<Rightarrow> size_t" where
  "mpscq_count qp = (case qp of None \<Rightarrow> 0 | Some q \<Rightarrow> q_count q)"

definition mpscq_capacity :: "'a mpscq option \<Rightarrow> size_t" where
  "mpscq_capacity qp = (case qp of None \<Rightarrow> 0 | Some q \<Rightarrow> q_max q)"

lemmas queue_accesses = enq_count_def enq_backoff_def enq_reserve_def enq_publish_def
  deq_take_def deq_advance_def deq_uncount_def

section \<open>Sequential behaviour: a bounded FIFO\<close>

text \<open>
  A quiescent queue: the capacity is a power of two (so that the free-running head may wrap), the
  count is the number of messages, and the occupied slots run from the tail to the head.
\<close>

definition quiescent :: "'a mpscq \<Rightarrow> bool" where
  "quiescent q \<longleftrightarrow>
     (\<exists>k \<ge> 1. k \<le> 60 \<and> q_max q = 2 ^ k) \<and> length (q_buffer q) = q_max q
     \<and> q_tail q < q_max q \<and> q_count q \<le> q_max q \<and> q_head q \<le> SIZE_MAX
     \<and> q_head q mod q_max q = (q_tail q + q_count q) mod q_max q
     \<and> (\<forall>i < q_max q. q_buffer q ! i \<noteq> None
          \<longleftrightarrow> i \<in> set (ring_slots (q_max q) (q_tail q) (q_count q)))"

definition messages :: "'a mpscq \<Rightarrow> 'a list" where
  "messages q = map (\<lambda>i. the (q_buffer q ! i)) (ring_slots (q_max q) (q_tail q) (q_count q))"

lemma pow2_dvd_word: "k \<le> 60 \<Longrightarrow> (2::nat) ^ k dvd 2 ^ 64"
  by (intro le_imp_power_dvd) simp

lemma sz_add_mod_pow2:
  assumes "k \<le> 60" shows "sz_add a b mod 2 ^ k = (a + b) mod 2 ^ k"
  unfolding sz_add_def using pow2_dvd_word [OF assms] by (rule mod_mod_cancel)

lemma pow2_le_SIZE_MAX: "k \<le> 60 \<Longrightarrow> (2::nat) ^ k * 8 \<le> SIZE_MAX"
proof -
  assume "k \<le> 60"
  then have "(2::nat) ^ k \<le> 2 ^ 60" by (intro power_increasing) auto
  then show ?thesis by (simp add: SIZE_MAX_def)
qed

lemma quiescent_max:
  assumes "quiescent q"
  shows "2 \<le> q_max q" and "q_max q * 8 \<le> SIZE_MAX" and "q_max q dvd 2 ^ 64"
proof -
  from assms obtain k where k: "1 \<le> k" "k \<le> 60" "q_max q = 2 ^ k"
    by (auto simp: quiescent_def)
  have "(2::nat) ^ 1 \<le> 2 ^ k" using k(1) by (intro power_increasing) auto
  with k show "2 \<le> q_max q" by simp
  from k show "q_max q * 8 \<le> SIZE_MAX" and "q_max q dvd 2 ^ 64"
    using pow2_le_SIZE_MAX pow2_dvd_word by auto
qed

lemma length_messages [simp]: "length (messages q) = q_count q"
  by (simp add: messages_def)


lemma pow2_testD: "is_pow2_test c \<Longrightarrow> 0 < c \<Longrightarrow> \<exists>k. c = 2 ^ k"
proof (induction c rule: less_induct)
  case (less c)
  show ?case
  proof (cases "even c")
    case True
    then obtain m where m: "c = 2 * m" by blast
    with less.prems have "0 < m" by simp
    then have "c - 1 = 1 + 2 * (m - 1)" using m by simp
    then have "and c (c - 1) = 2 * and m (m - 1)"
      by (simp add: m and_rec [of "2 * m"])
    with less.prems(1) have "is_pow2_test m" by (simp add: is_pow2_test_def)
    with less.IH [of m] \<open>0 < m\<close> m obtain k where "m = 2 ^ k" by auto
    then show ?thesis using m by (intro exI [of _ "Suc k"]) simp
  next
    case False
    then obtain m where m: "c = 1 + 2 * m" by (metis oddE add.commute)
    then have "and c (c - 1) = 2 * and m m"
      by (simp add: and_rec [of "Suc (2 * m)"])
    with less.prems(1) have "m = 0" by (simp add: is_pow2_test_def)
    with m show ?thesis by (intro exI [of _ 0]) simp
  qed
qed

lemma created:
  assumes "mpscq_create a b n capacity = Some q"
  shows "2 \<le> capacity" "is_pow2_test capacity" "capacity \<le> SIZE_MAX div slot_size"
    and "q = \<lparr>q_count = 0, q_head = 0, q_tail = 0, q_max = capacity,
       q_buffer = replicate capacity None, q_flags = (if n = None then MPSCQ_MALLOC else 0)\<rparr>"
  using assms by (auto simp: mpscq_create_def split: if_splits)

text \<open>The structure is freed exactly if \<open>mpscq_create\<close> allocated it.\<close>

lemma destroy_created: "mpscq_create a b n c = Some q \<Longrightarrow> mpscq_destroy (Some q) = (True, n = None)"
  by (auto simp: mpscq_create_def mpscq_destroy_def MPSCQ_MALLOC_def split: if_splits)

lemma create_quiescent:
  assumes "mpscq_create a b n capacity = Some q"
  shows "quiescent q \<and> messages q = [] \<and> q_max q = capacity"
proof -
  note g = created(1-3) [OF assms] and q = created(4) [OF assms]
  obtain k where k: "capacity = 2 ^ k" using pow2_testD [OF g(2)] g(1) by auto
  have "1 \<le> k" using g(1) k by (cases k) auto
  moreover have "k \<le> 60"
  proof (rule ccontr)
    assume "\<not> k \<le> 60"
    then have "(2::nat) ^ 61 \<le> 2 ^ k" by (intro power_increasing) auto
    with g(3) k show False by (simp add: SIZE_MAX_def slot_size_def)
  qed
  ultimately show ?thesis
    using k g(1) by (auto simp: q quiescent_def messages_def intro!: exI [of _ k])
qed

text \<open>One enqueue and one dequeue of a quiescent queue, as functions on it.\<close>

definition q_put :: "'a \<Rightarrow> 'a mpscq \<Rightarrow> 'a mpscq option" where
  "q_put obj q =
     (if q_count q \<ge> q_max q then None
      else Some (q\<lparr>q_count := q_count q + 1, q_head := sz_add (q_head q) 1,
        q_buffer := (q_buffer q)[q_head q mod q_max q := Some obj]\<rparr>))"

definition q_get :: "'a mpscq \<Rightarrow> ('a \<times> 'a mpscq) option" where
  "q_get q =
     (case q_buffer q ! q_tail q of None \<Rightarrow> None
      | Some x \<Rightarrow> Some (x, q\<lparr>q_count := q_count q - 1, q_tail := (q_tail q + 1) mod q_max q,
          q_buffer := (q_buffer q)[q_tail q := None]\<rparr>))"

lemma head_slot_free:
  assumes "quiescent q" and "q_count q < q_max q"
  shows "q_buffer q ! (q_head q mod q_max q) = None"
    and "q_head q mod q_max q \<notin> set (ring_slots (q_max q) (q_tail q) (q_count q))"
proof -
  have eq: "q_head q mod q_max q = (q_tail q + q_count q) mod q_max q"
    using assms(1) by (simp add: quiescent_def)
  with ring_slot_fresh [OF assms(2)]
  show n: "q_head q mod q_max q \<notin> set (ring_slots (q_max q) (q_tail q) (q_count q))" by simp
  have "q_head q mod q_max q < q_max q" using assms(2) by simp
  with n assms(1) show "q_buffer q ! (q_head q mod q_max q) = None"
    unfolding quiescent_def by blast
qed

lemma tail_slot:
  assumes "quiescent q"
  shows "q_buffer q ! q_tail q = None \<longleftrightarrow> q_count q = 0"
proof (cases "q_count q")
  case 0
  with assms show ?thesis by (auto simp: quiescent_def)
next
  case (Suc c)
  have "q_tail q < q_max q" using assms by (simp add: quiescent_def)
  then have "q_tail q \<in> set (ring_slots (q_max q) (q_tail q) (q_count q))"
    by (simp add: Suc ring_slots_Cons)
  with assms Suc show ?thesis unfolding quiescent_def by auto
qed

text \<open>
  A quiescent enqueue fails no assertion: it reports a full queue and leaves it as it was, or
  appends the message.
\<close>

lemma enqueue_quiescent:
  assumes q: "quiescent q"
  shows "mpscq_enqueue (Some q) (Some x) =
    (case q_put x q of None \<Rightarrow> Some (False, Some q) | Some q' \<Rightarrow> Some (True, Some q'))"
proof -
  have m: "q_max q * 8 \<le> SIZE_MAX" "q_count q \<le> q_max q"
    using q quiescent_max(2) by (auto simp: quiescent_def)
  then have add: "sz_add (q_count q) 1 = q_count q + 1"
    using quiescent_max(1) [OF q] by (intro sz_add_exact) simp
  show ?thesis
  proof (cases "q_count q \<ge> q_max q")
    case True
    have "sz_sub (q_count q + 1) 1 = q_count q"
      using m quiescent_max(1) [OF q] by (subst sz_sub_exact) auto
    with True add show ?thesis by (simp add: mpscq_enqueue_def queue_accesses q_put_def)
  next
    case False
    with head_slot_free(1) [OF q] add show ?thesis
      by (simp add: mpscq_enqueue_def queue_accesses q_put_def)
  qed
qed

lemma dequeue_quiescent:
  assumes q: "quiescent q"
  shows "mpscq_dequeue (Some q) =
    (case q_get q of None \<Rightarrow> Some (None, Some q) | Some (x, q') \<Rightarrow> Some (Some x, Some q'))"
proof (cases "q_buffer q ! q_tail q")
  case None
  then have "(q_buffer q)[q_tail q := None] = q_buffer q"
    by (metis list_update_id)
  with None show ?thesis by (simp add: mpscq_dequeue_def queue_accesses q_get_def)
next
  case (Some x)
  have m: "q_max q * 8 \<le> SIZE_MAX" "q_count q \<le> q_max q" "q_tail q < q_max q"
    using q quiescent_max(2) by (auto simp: quiescent_def)
  have "q_count q > 0" using Some tail_slot [OF q] by auto
  moreover have "sz_add (q_tail q) 1 = q_tail q + 1" using m by (intro sz_add_exact) simp
  moreover have "sz_sub (q_count q) 1 = q_count q - 1"
    using m \<open>q_count q > 0\<close> by (intro sz_sub_exact) auto
  moreover have "Suc (q_tail q) mod q_max q = (if q_max q \<le> Suc (q_tail q) then 0 else Suc (q_tail q))"
    using m(3) by (auto simp: mod_if)
  ultimately show ?thesis
    using Some by (simp add: mpscq_dequeue_def queue_accesses q_get_def Let_def)
qed

lemma q_put_quiescent:
  assumes q: "quiescent q" and p: "q_put x q = Some q'"
  shows "quiescent q'" and "messages q' = messages q @ [x]" and "q_max q' = q_max q"
proof -
  have c: "q_count q < q_max q" using p by (auto simp: q_put_def split: if_splits)
  let ?h = "q_head q mod q_max q"
  have q': "q' = q\<lparr>q_count := q_count q + 1, q_head := sz_add (q_head q) 1,
      q_buffer := (q_buffer q)[?h := Some x]\<rparr>"
    using p c by (simp add: q_put_def)
  have eq: "?h = (q_tail q + q_count q) mod q_max q" and len: "length (q_buffer q) = q_max q"
    using q by (auto simp: quiescent_def)
  have hl: "?h < length (q_buffer q)" using c len by simp
  obtain k where k: "1 \<le> k" "k \<le> 60" "q_max q = 2 ^ k" using q by (auto simp: quiescent_def)
  have hd: "sz_add (q_head q) 1 mod q_max q = Suc (q_tail q + q_count q) mod q_max q"
    using eq sz_add_mod_pow2 [OF k(2)] k(3) by (metis Suc_eq_plus1 mod_Suc_eq)
  have slots: "ring_slots (q_max q) (q_tail q) (Suc (q_count q))
      = ring_slots (q_max q) (q_tail q) (q_count q) @ [?h]"
    by (simp add: ring_slots_snoc eq)
  show "quiescent q'"
    using q c hd hl len unfolding quiescent_def q'
    by (simp add: slots nth_list_update)
  have "map (\<lambda>i. the ((q_buffer q)[?h := Some x] ! i)) (ring_slots (q_max q) (q_tail q) (q_count q))
      = messages q"
    using head_slot_free(2) [OF q c]
    by (auto simp: messages_def intro!: arg_cong [where f = the] nth_list_update_neq)
  then show "messages q' = messages q @ [x]"
    using hl by (simp add: q' messages_def slots)
  show "q_max q' = q_max q" by (simp add: q')
qed

lemma q_get_quiescent:
  assumes q: "quiescent q" and g: "q_get q = Some (x, q')"
  shows "quiescent q'" and "messages q = x # messages q'" and "q_max q' = q_max q"
proof -
  have t: "q_buffer q ! q_tail q = Some x"
    and q': "q' = q\<lparr>q_count := q_count q - 1, q_tail := (q_tail q + 1) mod q_max q,
      q_buffer := (q_buffer q)[q_tail q := None]\<rparr>"
    using g by (auto simp: q_get_def split: option.splits)
  obtain c where c: "q_count q = Suc c"
    using t tail_slot [OF q] by (cases "q_count q") auto
  have b: "q_tail q < q_max q" "length (q_buffer q) = q_max q" "Suc c \<le> q_max q"
    using q c by (auto simp: quiescent_def)
  let ?rest = "ring_slots (q_max q) ((q_tail q + 1) mod q_max q) c"
  have slots: "ring_slots (q_max q) (q_tail q) (Suc c) = q_tail q # ?rest"
    using b(1) by (rule ring_slots_Cons)
  then have fresh: "q_tail q \<notin> set ?rest"
    using ring_slots_distinct [OF b(3), of "q_tail q"] by simp
  have occ: "\<forall>i < q_max q. q_buffer q ! i \<noteq> None \<longleftrightarrow> i = q_tail q \<or> i \<in> set ?rest"
    using q unfolding quiescent_def c slots by simp
  have hd: "q_head q mod q_max q = ((q_tail q + 1) mod q_max q + c) mod q_max q"
    using q unfolding quiescent_def c by (simp add: mod_add_left_eq)
  have "\<forall>i < q_max q. (q_buffer q)[q_tail q := None] ! i \<noteq> None \<longleftrightarrow> i \<in> set ?rest"
    using occ fresh b by (auto simp: nth_list_update)
  with q b hd show "quiescent q'" by (auto simp: quiescent_def q' c)
  have "map (\<lambda>i. the ((q_buffer q)[q_tail q := None] ! i)) ?rest
      = map (\<lambda>i. the (q_buffer q ! i)) ?rest"
    using fresh by (auto intro!: arg_cong [where f = the] nth_list_update_neq)
  then show "messages q = x # messages q'"
    using t by (simp add: messages_def c slots q')
  show "q_max q' = q_max q" by (simp add: q')
qed

interpretation mq: bounded_fifo messages q_max quiescent q_put q_get
proof unfold_locales
  fix q :: "'a mpscq"
  show "quiescent q \<Longrightarrow> length (messages q) \<le> q_max q" by (simp add: quiescent_def)
  show "quiescent q \<Longrightarrow> q_put x q = None \<longleftrightarrow> length (messages q) = q_max q" for x
    by (auto simp: q_put_def quiescent_def)
  show "quiescent q \<Longrightarrow> q_get q = None \<longleftrightarrow> messages q = []"
    using tail_slot [of q] length_messages [of q]
    by (auto simp: q_get_def simp del: length_messages split: option.splits)
qed (auto intro: q_put_quiescent q_get_quiescent)

section \<open>The queue under concurrency\<close>

text \<open>
  Where a producer thread stands inside \<open>mpscq_enqueue\<close>: past the increment of \<open>count\<close> with room
  or without, or past the increment of \<open>head\<close>, which returned the given value and reserved the
  given position of the history. The consumer is idle or between the exchange that took a message
  (with the advance of \<open>tail\<close>, which no other thread reads) and the decrement of \<open>count\<close>.
\<close>

datatype 'a producer_pc =
    PIdle | PCounted 'a | PBackoff | PReserved 'a size_t nat

datatype consumer_pc = CIdle | CTook

text \<open>
  \<open>reserved\<close> and \<open>taken\<close> are histories: the messages in the order of their reservations and in
  the order of their removal. \<open>failed\<close> records a failed assertion.
\<close>

record 'a mpsc_sys =
  sq :: "'a mpscq"
  producers :: "nat \<Rightarrow> 'a producer_pc"
  consumer :: consumer_pc
  reserved :: "'a list"
  taken :: "'a list"
  failed :: bool

inductive mpsc_step :: "nat \<Rightarrow> 'a mpsc_sys \<Rightarrow> 'a mpsc_sys \<Rightarrow> bool" for nt where
  count_ok: "i < nt \<Longrightarrow> producers s i = PIdle \<Longrightarrow> enq_count (sq s) = (c, q) \<Longrightarrow> c < q_max q \<Longrightarrow>
     mpsc_step nt s (s\<lparr>sq := q, producers := (producers s)(i := PCounted x)\<rparr>)"
| count_full: "i < nt \<Longrightarrow> producers s i = PIdle \<Longrightarrow> enq_count (sq s) = (c, q) \<Longrightarrow> c \<ge> q_max q \<Longrightarrow>
     mpsc_step nt s (s\<lparr>sq := q, producers := (producers s)(i := PBackoff)\<rparr>)"
| backoff: "i < nt \<Longrightarrow> producers s i = PBackoff \<Longrightarrow>
     mpsc_step nt s (s\<lparr>sq := enq_backoff (sq s), producers := (producers s)(i := PIdle)\<rparr>)"
| reserve: "i < nt \<Longrightarrow> producers s i = PCounted x \<Longrightarrow> enq_reserve (sq s) = (h, q) \<Longrightarrow>
     mpsc_step nt s (s\<lparr>sq := q,
       producers := (producers s)(i := PReserved x h (length (reserved s))),
       reserved := reserved s @ [x]\<rparr>)"
| publish: "i < nt \<Longrightarrow> producers s i = PReserved x h p \<Longrightarrow> enq_publish h x (sq s) = (rv, q) \<Longrightarrow>
     mpsc_step nt s (s\<lparr>sq := q, producers := (producers s)(i := PIdle),
       failed := (failed s \<or> rv \<noteq> None)\<rparr>)"
| take_none: "consumer s = CIdle \<Longrightarrow> deq_take (sq s) = (None, q) \<Longrightarrow> mpsc_step nt s (s\<lparr>sq := q\<rparr>)"
| take_some: "consumer s = CIdle \<Longrightarrow> deq_take (sq s) = (Some x, q) \<Longrightarrow>
     mpsc_step nt s (s\<lparr>sq := deq_advance q, consumer := CTook, taken := taken s @ [x]\<rparr>)"
| uncount: "consumer s = CTook \<Longrightarrow> deq_uncount (sq s) = (r, q) \<Longrightarrow>
     mpsc_step nt s (s\<lparr>sq := q, consumer := CIdle, failed := (failed s \<or> \<not> r > 0)\<rparr>)"

text \<open>
  A freshly created queue with \<open>nt\<close> producer threads outside \<open>mpscq_enqueue\<close>. The number of threads
  and the capacity together stay below the range of the counter.
\<close>

definition mpsc_init :: "nat \<Rightarrow> 'a mpsc_sys \<Rightarrow> bool" where
  "mpsc_init nt s \<longleftrightarrow>
     mpscq_create True True None (q_max (sq s)) = Some (sq s) \<and> q_max (sq s) + nt \<le> SIZE_MAX
     \<and> (\<forall>i. producers s i = PIdle) \<and> consumer s = CIdle
     \<and> reserved s = [] \<and> taken s = [] \<and> \<not> failed s"

definition is_counted :: "'a producer_pc \<Rightarrow> bool" where
  "is_counted pc \<longleftrightarrow> (case pc of PCounted _ \<Rightarrow> True | _ \<Rightarrow> False)"

definition holds_position :: "'a mpsc_sys \<Rightarrow> nat \<Rightarrow> bool" where
  "holds_position s p \<longleftrightarrow> (\<exists>i x h. producers s i = PReserved x h p)"

definition in_flight :: "'a mpsc_sys \<Rightarrow> nat" where
  "in_flight s = length (reserved s) - length (taken s)"

text \<open>
  The counters: \<open>count\<close> is the number of reserved and not yet removed messages plus the threads
  that have counted themselves in; the part that was let in never exceeds the capacity.
\<close>

definition counters_inv :: "nat \<Rightarrow> 'a mpsc_sys \<Rightarrow> bool" where
  "counters_inv nt s \<longleftrightarrow>
     (let q = sq s; ct = (if consumer s = CTook then 1 else 0);
          cnt = threads_at nt is_counted (producers s);
          back = threads_at nt (\<lambda>pc. pc = PBackoff) (producers s)
      in (\<exists>k \<ge> 1. k \<le> 60 \<and> q_max q = 2 ^ k) \<and> length (q_buffer q) = q_max q
         \<and> q_max q + nt \<le> SIZE_MAX
         \<and> length (taken s) \<le> length (reserved s)
         \<and> in_flight s + cnt + ct \<le> q_max q
         \<and> q_count q = in_flight s + cnt + back + ct
         \<and> q_head q = length (reserved s) mod 2 ^ 64
         \<and> q_tail q = length (taken s) mod q_max q)"

text \<open>
  The slots: a position of the history that has been reserved and not removed holds its message, or
  nothing while its producer is about to publish it; every other slot is empty.
\<close>

definition slots_inv :: "nat \<Rightarrow> 'a mpsc_sys \<Rightarrow> bool" where
  "slots_inv nt s \<longleftrightarrow>
     (\<forall>i \<ge> nt. producers s i = PIdle)
     \<and> (\<forall>i x h p. producers s i = PReserved x h p \<longrightarrow>
          length (taken s) \<le> p \<and> p < length (reserved s) \<and> reserved s ! p = x \<and> h = p mod 2 ^ 64)
     \<and> (\<forall>i j x y h g p. producers s i = PReserved x h p \<and> producers s j = PReserved y g p \<longrightarrow> i = j)
     \<and> (\<forall>p. length (taken s) \<le> p \<and> p < length (reserved s) \<longrightarrow>
          q_buffer (sq s) ! (p mod q_max (sq s))
            = (if holds_position s p then None else Some (reserved s ! p)))
     \<and> (\<forall>p. length (reserved s) \<le> p \<and> p < length (taken s) + q_max (sq s) \<longrightarrow>
          q_buffer (sq s) ! (p mod q_max (sq s)) = None)
     \<and> taken s = take (length (taken s)) (reserved s)"

definition mpsc_inv :: "nat \<Rightarrow> 'a mpsc_sys \<Rightarrow> bool" where
  "mpsc_inv nt s \<longleftrightarrow> counters_inv nt s \<and> slots_inv nt s \<and> \<not> failed s"

section \<open>No interleaving breaks the queue\<close>

lemma is_counted_simps [simp]:
  "is_counted (PCounted x)" "\<not> is_counted PIdle" "\<not> is_counted PBackoff"
  "\<not> is_counted (PReserved x h p)"
  by (simp_all add: is_counted_def)

lemma counters_invD:
  assumes "counters_inv nt s"
  shows "length (taken s) \<le> length (reserved s)"
    and "in_flight s + threads_at nt is_counted (producers s)
           + (if consumer s = CTook then 1 else 0) \<le> q_max (sq s)"
    and "q_count (sq s) = in_flight s + threads_at nt is_counted (producers s)
           + threads_at nt (\<lambda>pc. pc = PBackoff) (producers s)
           + (if consumer s = CTook then 1 else 0)"
    and "q_max (sq s) + nt \<le> SIZE_MAX"
    and "length (q_buffer (sq s)) = q_max (sq s)"
    and "0 < q_max (sq s)"
    and "q_max (sq s) dvd 2 ^ 64"
    and "q_tail (sq s) = length (taken s) mod q_max (sq s)"
    and "q_head (sq s) = length (reserved s) mod 2 ^ 64"
    and "\<exists>k \<ge> 1. k \<le> 60 \<and> q_max (sq s) = 2 ^ k"
  using assms pow2_dvd_word by (auto simp: counters_inv_def Let_def simp del: power_numeral)

lemma count_in_range: "counters_inv nt s \<Longrightarrow> q_count (sq s) \<le> SIZE_MAX"
  using threads_at_le [of nt "\<lambda>pc. pc = PBackoff" "producers s"]
    counters_invD(2-4) [of nt s] by linarith

text \<open>What a producer finds in its slot, and the consumer at the tail.\<close>

lemma reserved_slot_empty:
  assumes c: "counters_inv nt s" and sl: "slots_inv nt s" and r: "producers s i = PReserved x h p"
  shows "h mod q_max (sq s) = p mod q_max (sq s)" and "q_buffer (sq s) ! (h mod q_max (sq s)) = None"
proof -
  have p: "length (taken s) \<le> p" "p < length (reserved s)" "h = p mod 2 ^ 64" "holds_position s p"
    using sl r unfolding slots_inv_def holds_position_def by blast+
  show eq: "h mod q_max (sq s) = p mod q_max (sq s)"
    using p(3) counters_invD(7) [OF c] by (simp add: mod_mod_cancel)
  show "q_buffer (sq s) ! (h mod q_max (sq s)) = None"
    using sl p eq unfolding slots_inv_def by simp
qed

lemma taken_message:
  assumes c: "counters_inv nt s" and sl: "slots_inv nt s"
    and b: "q_buffer (sq s) ! q_tail (sq s) = Some x"
  shows "length (taken s) < length (reserved s)" and "x = reserved s ! length (taken s)"
    and "\<not> holds_position s (length (taken s))"
proof -
  let ?t = "length (taken s)"
  have t: "q_tail (sq s) = ?t mod q_max (sq s)" "?t \<le> length (reserved s)" "0 < q_max (sq s)"
    using counters_invD [OF c] by auto
  have e: "q_buffer (sq s) ! (p mod q_max (sq s)) = None"
    if "length (reserved s) \<le> p" "p < ?t + q_max (sq s)" for p
    using sl that unfolding slots_inv_def by blast
  show lt: "?t < length (reserved s)"
    using e [of ?t] t b by (cases "?t < length (reserved s)") auto
  have "q_buffer (sq s) ! (?t mod q_max (sq s))
      = (if holds_position s ?t then None else Some (reserved s ! ?t))"
    using sl lt unfolding slots_inv_def by blast
  then show "x = reserved s ! ?t" and "\<not> holds_position s ?t"
    using b t(1) by (auto split: if_splits)
qed

lemma counters_step:
  assumes c: "counters_inv nt s" and sl: "slots_inv nt s" and st: "mpsc_step nt s t"
  shows "counters_inv nt t"
  using st
proof cases
  case (count_ok i c' q x)
  have q: "q = (sq s)\<lparr>q_count := q_count (sq s) + 1\<rparr>" and lt: "q_count (sq s) < q_max (sq s)"
    using count_ok counters_invD(4) [OF c] by (auto simp: enq_count_def sz_add_exact)
  have u: "threads_at nt is_counted ((producers s)(i := PCounted x))
        = threads_at nt is_counted (producers s) + 1"
      "threads_at nt (\<lambda>pc. pc = PBackoff) ((producers s)(i := PCounted x))
        = threads_at nt (\<lambda>pc. pc = PBackoff) (producers s)"
    using threads_at_upd [OF count_ok(2), of is_counted "producers s" "PCounted x"]
      threads_at_upd [OF count_ok(2), of "\<lambda>pc. pc = PBackoff" "producers s" "PCounted x"] count_ok(3)
    by simp_all
  show ?thesis
    using c lt u unfolding counters_inv_def Let_def
    by (simp add: count_ok(1) q in_flight_def)
next
  case (count_full i c' q)
  have u: "threads_at nt is_counted ((producers s)(i := PBackoff))
        = threads_at nt is_counted (producers s)"
      "threads_at nt (\<lambda>pc. pc = PBackoff) ((producers s)(i := PBackoff))
        = threads_at nt (\<lambda>pc. pc = PBackoff) (producers s) + 1"
    using threads_at_upd [OF count_full(2), of is_counted "producers s" PBackoff]
      threads_at_upd [OF count_full(2), of "\<lambda>pc. pc = PBackoff" "producers s" PBackoff] count_full(3)
    by simp_all
  have "q_count (sq s) + 1 \<le> SIZE_MAX"
    using u(2) threads_at_le [of nt "\<lambda>pc. pc = PBackoff" "(producers s)(i := PBackoff)"]
      counters_invD(2-4) [OF c] by linarith
  then have q: "q = (sq s)\<lparr>q_count := q_count (sq s) + 1\<rparr>"
    using count_full(4) by (auto simp: enq_count_def sz_add_exact)
  show ?thesis
    using c u unfolding counters_inv_def Let_def by (auto simp: count_full(1) q in_flight_def)
next
  case (backoff i)
  have u: "threads_at nt is_counted ((producers s)(i := PIdle))
        = threads_at nt is_counted (producers s)"
      "threads_at nt (\<lambda>pc. pc = PBackoff) ((producers s)(i := PIdle)) + 1
        = threads_at nt (\<lambda>pc. pc = PBackoff) (producers s)"
    using threads_at_upd [OF backoff(2), of is_counted "producers s" PIdle]
      threads_at_upd [OF backoff(2), of "\<lambda>pc. pc = PBackoff" "producers s" PIdle] backoff(3)
    by simp_all
  have "1 \<le> q_count (sq s)" using u(2) counters_invD(3) [OF c] by linarith
  then have q: "enq_backoff (sq s) = (sq s)\<lparr>q_count := q_count (sq s) - 1\<rparr>"
    using count_in_range [OF c] by (simp add: enq_backoff_def sz_sub_exact)
  show ?thesis
    using c u unfolding counters_inv_def Let_def by (auto simp: backoff(1) q in_flight_def)
next
  case (reserve i x h q)
  let ?pc = "PReserved x h (length (reserved s))"
  have u: "threads_at nt is_counted ((producers s)(i := ?pc)) + 1
        = threads_at nt is_counted (producers s)"
      "threads_at nt (\<lambda>pc. pc = PBackoff) ((producers s)(i := ?pc))
        = threads_at nt (\<lambda>pc. pc = PBackoff) (producers s)"
    using threads_at_upd [OF reserve(2), of is_counted "producers s" ?pc]
      threads_at_upd [OF reserve(2), of "\<lambda>pc. pc = PBackoff" "producers s" ?pc] reserve(3)
    by simp_all
  have "sz_add (q_head (sq s)) 1 = Suc (length (reserved s)) mod 2 ^ 64"
    using counters_invD(9) [OF c] by (simp add: sz_add_def mod_Suc_eq)
  then have q: "q = (sq s)\<lparr>q_head := Suc (length (reserved s)) mod 2 ^ 64\<rparr>"
    using reserve(4) by (simp add: enq_reserve_def)
  show ?thesis
    using c u unfolding counters_inv_def Let_def by (auto simp: reserve(1) q in_flight_def)
next
  case (publish i x h p rv q)
  have u: "threads_at nt is_counted ((producers s)(i := PIdle))
        = threads_at nt is_counted (producers s)"
      "threads_at nt (\<lambda>pc. pc = PBackoff) ((producers s)(i := PIdle))
        = threads_at nt (\<lambda>pc. pc = PBackoff) (producers s)"
    using threads_at_upd [OF publish(2), of is_counted "producers s" PIdle]
      threads_at_upd [OF publish(2), of "\<lambda>pc. pc = PBackoff" "producers s" PIdle] publish(3)
    by simp_all
  show ?thesis
    using c u publish(4) unfolding counters_inv_def Let_def
    by (auto simp: publish(1) enq_publish_def in_flight_def)
next
  case (take_none q)
  then show ?thesis
    using c unfolding counters_inv_def Let_def by (auto simp: deq_take_def in_flight_def)
next
  case (take_some x q)
  have b: "q_buffer (sq s) ! q_tail (sq s) = Some x"
    and q: "q = (sq s)\<lparr>q_buffer := (q_buffer (sq s))[q_tail (sq s) := None]\<rparr>"
    using take_some(3) by (auto simp: deq_take_def)
  let ?t = "length (taken s)"
  have m: "0 < q_max (sq s)" "q_tail (sq s) = ?t mod q_max (sq s)" "q_max (sq s) \<le> SIZE_MAX"
    using counters_invD(4,6,8) [OF c] by auto
  have "?t mod q_max (sq s) < q_max (sq s)" using m(1) by simp
  then have "sz_add (q_tail (sq s)) 1 = Suc (?t mod q_max (sq s))"
    using m(2,3) by (subst sz_add_exact) auto
  then have "deq_advance q = q\<lparr>q_tail := Suc ?t mod q_max (sq s)\<rparr>"
    using \<open>?t mod q_max (sq s) < q_max (sq s)\<close> by (auto simp: deq_advance_def q mod_Suc)
  then show ?thesis
    using c take_some(2) taken_message(1) [OF c sl b] unfolding counters_inv_def Let_def
    by (auto simp: take_some(1) q in_flight_def)
next
  case (uncount r q)
  have "1 \<le> q_count (sq s)" using counters_invD(3) [OF c] uncount(2) by simp
  then have "q = (sq s)\<lparr>q_count := q_count (sq s) - 1\<rparr>"
    using uncount(3) count_in_range [OF c] by (auto simp: deq_uncount_def sz_sub_exact)
  then show ?thesis
    using c uncount(2) unfolding counters_inv_def Let_def by (auto simp: uncount(1) in_flight_def)
qed


lemma slots_invD:
  assumes "slots_inv nt s"
  shows "i \<ge> nt \<Longrightarrow> producers s i = PIdle"
    and "producers s i = PReserved x h p \<Longrightarrow>
      length (taken s) \<le> p \<and> p < length (reserved s) \<and> reserved s ! p = x \<and> h = p mod 2 ^ 64"
    and "producers s i = PReserved x h p \<Longrightarrow> producers s j = PReserved y g p \<Longrightarrow> i = j"
    and "length (taken s) \<le> p \<Longrightarrow> p < length (reserved s) \<Longrightarrow> \<not> holds_position s p \<Longrightarrow>
      q_buffer (sq s) ! (p mod q_max (sq s)) = Some (reserved s ! p)"
    and "length (taken s) \<le> p \<Longrightarrow> p < length (reserved s) \<Longrightarrow> holds_position s p \<Longrightarrow>
      q_buffer (sq s) ! (p mod q_max (sq s)) = None"
    and "length (reserved s) \<le> p \<Longrightarrow> p < length (taken s) + q_max (sq s) \<Longrightarrow>
      q_buffer (sq s) ! (p mod q_max (sq s)) = None"
    and "taken s = take (length (taken s)) (reserved s)"
  using assms unfolding slots_inv_def by (blast, blast, blast, simp, simp, blast, blast)

text \<open>Two positions less than the capacity apart use different slots.\<close>

lemma window_slots:
  fixes a m p r :: nat
  assumes "a \<le> p" "p < a + m" "a \<le> r" "r < a + m" "p mod m = r mod m"
  shows "p = r"
proof -
  have "p - a = r - a"
    using assms by (intro add_mod_inj [of a "p - a" m "r - a"]) auto
  with assms show ?thesis by simp
qed

text \<open>Steps that touch neither the slots nor a reservation keep the slot invariant.\<close>

lemma slots_frame:
  assumes "slots_inv nt s"
    and "q_buffer (sq t) = q_buffer (sq s)" "q_max (sq t) = q_max (sq s)"
    and "reserved t = reserved s" "taken t = taken s"
    and "\<And>i x h p. producers t i = PReserved x h p \<longleftrightarrow> producers s i = PReserved x h p"
    and "\<And>i. i \<ge> nt \<Longrightarrow> producers t i = PIdle"
  shows "slots_inv nt t"
proof -
  have "holds_position t p = holds_position s p" for p
    using assms(6) by (simp add: holds_position_def)
  with assms show ?thesis unfolding slots_inv_def by simp
qed

lemma slots_reserve:
  assumes c: "counters_inv nt s" and sl: "slots_inv nt s" and i: "i < nt"
    and pc: "producers s i = PCounted x" and q: "enq_reserve (sq s) = (h, q)"
  shows "slots_inv nt (s\<lparr>sq := q, producers := (producers s)(i := PReserved x h (length (reserved s))),
       reserved := reserved s @ [x]\<rparr>)" (is "slots_inv nt ?t")
proof -
  let ?R = "length (reserved s)"
  have "0 < threads_at nt is_counted (producers s)" using i pc by (intro threads_at_pos) auto
  then have room: "?R < length (taken s) + q_max (sq s)" and le: "length (taken s) \<le> ?R"
    using counters_invD(1,2) [OF c] by (auto simp: in_flight_def)
  have h: "h = ?R mod 2 ^ 64" and q': "q_buffer q = q_buffer (sq s)" "q_max q = q_max (sq s)"
    using q counters_invD(9) [OF c] by (auto simp: enq_reserve_def)
  have hp: "holds_position ?t p \<longleftrightarrow> p = ?R \<or> holds_position s p" for p
    using pc by (auto simp: holds_position_def) (metis producer_pc.distinct)
  have res: "producers ?t j = PReserved y g p \<longleftrightarrow>
      (if j = i then y = x \<and> g = h \<and> p = ?R else producers s j = PReserved y g p)" for j y g p
    by auto
  note D = slots_invD [OF sl]
  show ?thesis
    unfolding slots_inv_def
  proof (intro conjI allI impI)
    fix p assume p: "length (taken ?t) \<le> p \<and> p < length (reserved ?t)"
    then show "q_buffer (sq ?t) ! (p mod q_max (sq ?t))
        = (if holds_position ?t p then None else Some (reserved ?t ! p))"
      using hp [of p] D(4,5) [of p] D(6) [of ?R] room q'
      by (cases "p = ?R") (auto simp: nth_append)
  next
    fix p assume "length (reserved ?t) \<le> p \<and> p < length (taken ?t) + q_max (sq ?t)"
    then show "q_buffer (sq ?t) ! (p mod q_max (sq ?t)) = None"
      using D(6) [of p] q' by simp
  next
    fix k j y z g f p
    assume "producers ?t k = PReserved y g p \<and> producers ?t j = PReserved z f p"
    then show "k = j" using D(2,3) unfolding res by (auto split: if_splits)
  next
    fix j y g p assume a: "producers ?t j = PReserved y g p"
    have "length (taken s) \<le> p \<and> p < Suc ?R \<and> (reserved s @ [x]) ! p = y \<and> g = p mod 2 ^ 64"
      using a D(2) h le unfolding res by (auto simp: nth_append less_Suc_eq split: if_splits)
    then show "length (taken ?t) \<le> p" and "p < length (reserved ?t)" and "reserved ?t ! p = y"
      and "g = p mod 2 ^ 64" by auto
  next
    show "taken ?t = take (length (taken ?t)) (reserved ?t)" using D(7) le by simp
  qed (use i D(1) in auto)
qed

lemma slots_publish:
  assumes c: "counters_inv nt s" and sl: "slots_inv nt s" and i: "i < nt"
    and pc: "producers s i = PReserved x h p" and q: "enq_publish h x (sq s) = (rv, q)"
  shows "slots_inv nt (s\<lparr>sq := q, producers := (producers s)(i := PIdle), failed := f\<rparr>)"
    (is "slots_inv nt ?t")
proof -
  let ?m = "q_max (sq s)"
  note D = slots_invD [OF sl]
  have p: "length (taken s) \<le> p" "p < length (reserved s)" "reserved s ! p = x"
    using D(2) [OF pc] by auto
  have win: "length (reserved s) \<le> length (taken s) + ?m"
    using counters_invD(1,2) [OF c] by (auto simp: in_flight_def)
  have q': "q_buffer q = (q_buffer (sq s))[p mod ?m := Some x]" "q_max q = ?m"
    using q reserved_slot_empty(1) [OF c sl pc] by (auto simp: enq_publish_def)
  have len: "p mod ?m < length (q_buffer (sq s))"
    using counters_invD(5,6) [OF c] by simp
  have get: "q_buffer q ! (r mod ?m) = (if r = p then Some x else q_buffer (sq s) ! (r mod ?m))"
    if "length (taken s) \<le> r" "r < length (taken s) + ?m" for r
    using window_slots [of "length (taken s)" r ?m p] that p win len
    by (auto simp: q' nth_list_update)
  have hp: "holds_position ?t r \<longleftrightarrow> r \<noteq> p \<and> holds_position s r" for r
    using pc D(3) by (auto simp: holds_position_def) (metis producer_pc.inject(2))
  show ?thesis
    unfolding slots_inv_def
  proof (intro conjI allI impI)
    fix r assume r: "length (taken ?t) \<le> r \<and> r < length (reserved ?t)"
    then show "q_buffer (sq ?t) ! (r mod q_max (sq ?t))
        = (if holds_position ?t r then None else Some (reserved ?t ! r))"
      using get [of r] win p(3) D(4,5) [of r] unfolding hp by (auto simp: q')
  next
    fix r assume r: "length (reserved ?t) \<le> r \<and> r < length (taken ?t) + q_max (sq ?t)"
    then show "q_buffer (sq ?t) ! (r mod q_max (sq ?t)) = None"
      using get [of r] p D(6) [of r] counters_invD(1) [OF c] by (auto simp: q')
  qed (use i D(1,2,3,7) in \<open>auto split: if_splits\<close>)
qed

lemma slots_take:
  assumes c: "counters_inv nt s" and sl: "slots_inv nt s" and q: "deq_take (sq s) = (Some x, q)"
  shows "slots_inv nt (s\<lparr>sq := deq_advance q, consumer := CTook, taken := taken s @ [x]\<rparr>)"
    (is "slots_inv nt ?t")
proof -
  let ?m = "q_max (sq s)" and ?T = "length (taken s)"
  note D = slots_invD [OF sl]
  have b: "q_buffer (sq s) ! q_tail (sq s) = Some x"
    and q': "q_buffer (deq_advance q) = (q_buffer (sq s))[?T mod ?m := None]"
      "q_max (deq_advance q) = ?m"
    using q counters_invD(8) [OF c] by (auto simp: deq_take_def deq_advance_def Let_def)
  note tm = taken_message [OF c sl b]
  have win: "length (reserved s) \<le> ?T + ?m"
    using counters_invD(1,2) [OF c] by (auto simp: in_flight_def)
  have len: "?T mod ?m < length (q_buffer (sq s))" using counters_invD(5,6) [OF c] by simp
  have get: "q_buffer (deq_advance q) ! (r mod ?m) = q_buffer (sq s) ! (r mod ?m)"
    if "?T < r" "r < ?T + ?m" for r
  proof -
    have "r mod ?m \<noteq> ?T mod ?m" using window_slots [of ?T r ?m ?T] that by auto
    then show ?thesis by (simp add: q')
  qed
  have hp: "holds_position ?t r = holds_position s r" for r by (simp add: holds_position_def)
  show ?thesis
    unfolding slots_inv_def
  proof (intro conjI allI impI)
    fix r assume r: "length (taken ?t) \<le> r \<and> r < length (reserved ?t)"
    then show "q_buffer (sq ?t) ! (r mod q_max (sq ?t))
        = (if holds_position ?t r then None else Some (reserved ?t ! r))"
      using get [of r] win D(4,5) [of r] unfolding hp by (auto simp: q')
  next
    fix r assume r: "length (reserved ?t) \<le> r \<and> r < length (taken ?t) + q_max (sq ?t)"
    show "q_buffer (sq ?t) ! (r mod q_max (sq ?t)) = None"
    proof (cases "r = ?T + ?m")
      case True
      then show ?thesis using len by (simp add: q')
    next
      case False
      with r get [of r] tm(1) D(6) [of r] show ?thesis by (simp add: q')
    qed
  next
    fix j y g r assume "producers ?t j = PReserved y g r"
    then have pj: "producers s j = PReserved y g r" by simp
    then have "r \<noteq> ?T" using tm(3) by (auto simp: holds_position_def)
    with D(2) [OF pj] show "length (taken ?t) \<le> r" by simp
  next
    have "taken s @ [x] = take (Suc ?T) (reserved s)"
      using tm(1,2) D(7) by (simp add: take_Suc_conv_app_nth)
    then show "taken ?t = take (length (taken ?t)) (reserved ?t)" using tm(1) by (simp add: min_def)
  qed (use D(1,2,3) in auto)
qed


lemma slots_step:
  assumes c: "counters_inv nt s" and sl: "slots_inv nt s" and st: "mpsc_step nt s t"
  shows "slots_inv nt t"
  using st
proof cases
  case (reserve i x h q)
  with slots_reserve [OF c sl] show ?thesis by simp
next
  case (publish i x h p rv q)
  with slots_publish [OF c sl] show ?thesis by simp
next
  case (take_some x q)
  with slots_take [OF c sl] show ?thesis by simp
next
  case (take_none q)
  then have "q = sq s" by (auto simp: deq_take_def) (metis list_update_id mpscq.surjective mpscq.update_convs(5))
  with take_none sl show ?thesis by (intro slots_frame [OF sl]) (auto dest: slots_invD(1) [OF sl])
qed (rule slots_frame [OF sl];
    auto simp: enq_count_def enq_backoff_def deq_uncount_def dest: slots_invD(1) [OF sl]
      split: if_splits)+

text \<open>The assertions: a producer finds its slot empty, the consumer a positive count.\<close>

lemma asserts_step:
  assumes c: "counters_inv nt s" and sl: "slots_inv nt s" and st: "mpsc_step nt s t" and "\<not> failed s"
  shows "\<not> failed t"
  using st
proof cases
  case (publish i x h p rv q)
  with reserved_slot_empty(2) [OF c sl publish(3)] \<open>\<not> failed s\<close> show ?thesis
    by (auto simp: enq_publish_def)
next
  case (uncount r q)
  with counters_invD(3) [OF c] \<open>\<not> failed s\<close> show ?thesis by (auto simp: deq_uncount_def)
qed (use \<open>\<not> failed s\<close> in simp_all)

lemma mpsc_init_inv: "mpsc_init nt s \<Longrightarrow> mpsc_inv nt s"
proof -
  assume i: "mpsc_init nt s"
  then have c: "mpscq_create True True None (q_max (sq s)) = Some (sq s)"
    by (simp add: mpsc_init_def)
  then have q: "quiescent (sq s)" and "q_count (sq s) = 0"
    using create_quiescent [OF c] length_messages [of "sq s"] by auto
  have "\<exists>m. sq s = \<lparr>q_count = 0, q_head = 0, q_tail = 0, q_max = m, q_buffer = replicate m None,
      q_flags = MPSCQ_MALLOC\<rparr>"
    using created(4) [OF c] by auto
  then have z: "q_head (sq s) = 0" "q_tail (sq s) = 0"
    "q_buffer (sq s) = replicate (q_max (sq s)) None"
    by auto
  have "threads_at nt is_counted (producers s) = 0"
    "threads_at nt (\<lambda>pc. pc = PBackoff) (producers s) = 0"
    using i by (auto simp: mpsc_init_def threads_at_0)
  moreover have "\<exists>k \<ge> 1. k \<le> 60 \<and> q_max (sq s) = 2 ^ k" using q by (simp add: quiescent_def)
  moreover have "0 < q_max (sq s)" using quiescent_max(1) [OF q] by simp
  ultimately show ?thesis
    using i z \<open>q_count (sq s) = 0\<close>
    by (auto simp: mpsc_inv_def counters_inv_def slots_inv_def mpsc_init_def in_flight_def Let_def)
qed

interpretation mpsc: step_system "mpsc_init nt" "mpsc_step nt" "mpsc_inv nt" for nt
proof unfold_locales
  show "mpsc_init nt s \<Longrightarrow> mpsc_inv nt s" for s by (rule mpsc_init_inv)
  show "mpsc_inv nt s \<Longrightarrow> mpsc_step nt s t \<Longrightarrow> mpsc_inv nt t" for s t
    using counters_step slots_step asserts_step unfolding mpsc_inv_def by blast
qed

text \<open>When every thread is outside the queue, the queue is quiescent and holds the history's rest.\<close>

lemma idle_quiescent:
  assumes inv: "mpsc_inv nt s" and idle: "\<forall>i. producers s i = PIdle" "consumer s = CIdle"
  shows "quiescent (sq s)" and "messages (sq s) = drop (length (taken s)) (reserved s)"
proof -
  let ?q = "sq s" and ?m = "q_max (sq s)" and ?T = "length (taken s)" and ?R = "length (reserved s)"
  have c: "counters_inv nt s" and sl: "slots_inv nt s" using inv by (auto simp: mpsc_inv_def)
  note D = slots_invD [OF sl] and C = counters_invD [OF c]
  have n: "threads_at nt is_counted (producers s) = 0"
    "threads_at nt (\<lambda>pc. pc = PBackoff) (producers s) = 0"
    using idle by (auto simp: threads_at_0)
  have cnt: "q_count ?q = ?R - ?T" using C(3) n idle(2) by (simp add: in_flight_def)
  have win: "?R - ?T \<le> ?m" using C(2) n idle(2) by (simp add: in_flight_def)
  have free: "\<not> holds_position s p" for p using idle(1) by (simp add: holds_position_def)
  have slot: "(q_tail ?q + i) mod ?m = (?T + i) mod ?m" for i
    using C(8) by (simp add: mod_add_left_eq)
  have full: "q_buffer ?q ! ((?T + i) mod ?m) = Some (reserved s ! (?T + i))" if "i < ?R - ?T" for i
    using D(4) [of "?T + i"] free that by simp
  have "q_buffer ?q ! j \<noteq> None \<longleftrightarrow> j \<in> set (ring_slots ?m (q_tail ?q) (q_count ?q))"
    if j: "j < ?m" for j
  proof
    assume "j \<in> set (ring_slots ?m (q_tail ?q) (q_count ?q))"
    then show "q_buffer ?q ! j \<noteq> None" using full by (auto simp: ring_slots_def cnt slot)
  next
    assume some: "q_buffer ?q ! j \<noteq> None"
    show "j \<in> set (ring_slots ?m (q_tail ?q) (q_count ?q))"
    proof (rule ccontr)
      assume "j \<notin> set (ring_slots ?m (q_tail ?q) (q_count ?q))"
      then obtain k where "q_count ?q \<le> k" "k < ?m" "j = (q_tail ?q + k) mod ?m"
        using ring_slot_complement [of "q_tail ?q" ?m "q_count ?q" j] j C(6,8) win cnt by auto
      then show False using D(6) [of "?T + k"] some cnt C(1) by (simp add: slot)
    qed
  qed
  moreover have "q_head ?q mod ?m = (q_tail ?q + q_count ?q) mod ?m"
    using slot [of "?R - ?T"] C(1,7,9) by (simp add: cnt mod_mod_cancel)
  moreover have "q_head ?q \<le> SIZE_MAX"
    using C(9) mod_less_divisor [of "2 ^ 64" ?R] by (simp add: SIZE_MAX_def)
  ultimately show "quiescent ?q"
    using C(5,6,8,10) cnt win by (simp add: quiescent_def)
  show "messages ?q = drop ?T (reserved s)"
    by (rule nth_equalityI) (auto simp: cnt messages_def ring_slots_def slot full)
qed

section \<open>Properties\<close>

text \<open>A caller's sequence of enqueues (\<open>Some x\<close>) and dequeues (\<open>None\<close>), with the messages it saw accepted and delivered; \<open>None\<close> if an assertion fails on the way.\<close>

fun mpscq_run :: "'a option list \<Rightarrow> 'a mpscq \<Rightarrow> ('a list \<times> 'a list \<times> 'a mpscq) option" where
  "mpscq_run [] q = Some ([], [], q)"
| "mpscq_run (Some x # ops) q =
     (case mpscq_enqueue (Some q) (Some x) of
        Some (ok, Some q') \<Rightarrow>
          map_option (\<lambda>(acc, del, r). (if ok then x # acc else acc, del, r)) (mpscq_run ops q')
      | _ \<Rightarrow> None)"
| "mpscq_run (None # ops) q =
     (case mpscq_dequeue (Some q) of
        Some (got, Some q') \<Rightarrow>
          map_option (\<lambda>(acc, del, r). (acc, case got of None \<Rightarrow> del | Some x \<Rightarrow> x # del, r))
            (mpscq_run ops q')
      | _ \<Rightarrow> None)"

lemma mpscq_run_fifo: "quiescent q \<Longrightarrow> mpscq_run ops q = Some (mq.run_fifo ops q)"
proof (induction ops arbitrary: q)
  case (Cons op ops)
  show ?case
  proof (cases op)
    case None
    with Cons show ?thesis
      by (auto simp: dequeue_quiescent split: option.splits prod.splits dest: q_get_quiescent(1))
  next
    case (Some x)
    with Cons show ?thesis
      by (auto simp: enqueue_quiescent split: option.splits prod.splits dest: q_put_quiescent(1))
  qed
qed simp



text \<open>
  C1. Under any interleaving of \<open>nt\<close> producers and the consumer, no assertion of \<open>mpsc.c\<close> fails (a
  producer always finds its slot empty, the consumer a positive count), messages leave in the
  order in which producers advanced the head, none is lost or duplicated, and no more than the
  capacity are in flight.
\<close>
theorem mpsc_concurrent_fifo:
  assumes "mpsc_init nt s0" and "(mpsc_step nt)\<^sup>*\<^sup>* s0 s"
  shows "\<not> failed s \<and> taken s = take (length (taken s)) (reserved s)
    \<and> length (taken s) \<le> length (reserved s)
    \<and> length (reserved s) - length (taken s) \<le> q_max (sq s)"
proof -
  have inv: "mpsc_inv nt s" using assms by (rule mpsc.reach_invar)
  then have "counters_inv nt s" and "slots_inv nt s" and "\<not> failed s"
    by (simp_all add: mpsc_inv_def)
  then show ?thesis
    using counters_invD(1,2) slots_invD(7) unfolding in_flight_def by fastforce
qed

definition mpsc_start :: "nat mpsc_sys" where
  "mpsc_start =
     \<lparr>sq = \<lparr>q_count = 0, q_head = 0, q_tail = 0, q_max = 2, q_buffer = [None, None], q_flags = 1\<rparr>,
      producers = (\<lambda>_. PIdle), consumer = CIdle, reserved = [], taken = [], failed = False\<rparr>"

lemma mpsc_start_init: "mpsc_init 1 mpsc_start"
  by (simp add: mpsc_init_def mpsc_start_def mpscq_create_def is_pow2_test_def SIZE_MAX_def
      slot_size_def MPSCQ_MALLOC_def numeral_2_eq_2)

lemma mpsc_start_step:
  "mpsc_step 1 mpsc_start (mpsc_start\<lparr>sq := (sq mpsc_start)\<lparr>q_count := 1\<rparr>,
     producers := (producers mpsc_start)(0 := PCounted 7)\<rparr>)"
  by (rule mpsc_step.count_ok [where i = 0 and c = 0])
    (simp_all add: mpsc_start_def enq_count_def sz_add_def)

theorem mpsc_concurrent_fifo_witness:
  "mpsc_init 1 mpsc_start
   \<and> (\<exists>s. mpsc_step 1 mpsc_start s \<and> s \<noteq> mpsc_start \<and> \<not> failed s
        \<and> taken s = take (length (taken s)) (reserved s)
        \<and> length (reserved s) - length (taken s) \<le> q_max (sq s))"
proof (intro conjI exI)
  let ?s = "mpsc_start\<lparr>sq := (sq mpsc_start)\<lparr>q_count := 1\<rparr>,
     producers := (producers mpsc_start)(0 := PCounted 7)\<rparr>"
  have r: "(mpsc_step 1)\<^sup>*\<^sup>* mpsc_start ?s" using mpsc_start_step by blast
  note m = mpsc_concurrent_fifo [OF mpsc_start_init r]
  show "\<not> failed ?s" and "taken ?s = take (length (taken ?s)) (reserved ?s)"
    and "length (reserved ?s) - length (taken ?s) \<le> q_max (sq ?s)" using m by blast+
  show "mpsc_step 1 mpsc_start ?s" by (rule mpsc_start_step)
  show "?s \<noteq> mpsc_start" by (simp add: mpsc_start_def)
qed (rule mpsc_start_init)

text \<open>
  C28. Refinement of the interleaved queue to the sequential one: whenever no thread is inside a queue
  operation, the queue is in a quiescent state of the sequential model and holds exactly the
  reserved messages that have not been removed, oldest first.
\<close>
theorem mpsc_quiescent_refinement:
  assumes "mpsc_init nt s0" and "(mpsc_step nt)\<^sup>*\<^sup>* s0 s"
    and "\<forall>i. producers s i = PIdle" and "consumer s = CIdle"
  shows "quiescent (sq s) \<and> reserved s = taken s @ messages (sq s)"
proof -
  have inv: "mpsc_inv nt s" using assms(1,2) by (rule mpsc.reach_invar)
  then have "taken s = take (length (taken s)) (reserved s)"
    using slots_invD(7) by (auto simp: mpsc_inv_def)
  then have "reserved s = taken s @ drop (length (taken s)) (reserved s)"
    by (metis append_take_drop_id)
  with idle_quiescent [OF inv assms(3,4)] show ?thesis by simp
qed

theorem mpsc_quiescent_refinement_witness:
  "(\<forall>i. producers mpsc_start i = PIdle) \<and> quiescent (sq mpsc_start)
   \<and> reserved mpsc_start = taken mpsc_start @ messages (sq mpsc_start)"
proof -
  have i: "\<forall>i. producers mpsc_start i = PIdle" "consumer mpsc_start = CIdle"
    by (simp_all add: mpsc_start_def)
  show ?thesis
    using i(1) mpsc_quiescent_refinement [OF mpsc_start_init rtranclp.rtrancl_refl i] by blast
qed

end
