(* ===== verification/Message_Sender.thy ===== *)
theory Message_Sender
  imports Hcurl_Base
begin

text \<open>
  The message sender of \<open>cbits/message_chan.c\<close> (lines 12 to 116): a reference-counted object that
  outlives the libuv handle, whose \<open>state\<close> word holds a closed bit and the number of producers
  that are between \<open>message_sender_enter\<close> and \<open>message_sender_leave\<close>. The first part gives each
  function as it runs without interference; the second part is the protocol of any number of
  producers and the closing reactor at the level of its atomic accesses, its mutex and its condition
  variable. The properties: once \<open>message_sender_close\<close> has returned no producer is inside or
  can get in, so the async handle it clears is never used afterwards; the closer never sleeps
  without somebody left to wake it; the producer count never carries into the closed bit.
\<close>

unbundle bit_operations_syntax

definition SENDER_CLOSED_BIT :: "64 word" where "SENDER_CLOSED_BIT = push_bit 63 1"

definition SENDER_PRODUCER_MASK :: "64 word" where
  "SENDER_PRODUCER_MASK = SENDER_CLOSED_BIT - 1"

record message_sender =
  references :: "64 word"
  sender_state :: "64 word"
  async_handle :: addr

section \<open>The functions\<close>

definition message_sender_create :: "bool \<Rightarrow> bool \<Rightarrow> bool \<Rightarrow> message_sender option" where
  "message_sender_create calloc_ok mutex_ok cond_ok =
     (if \<not> calloc_ok then None
      else if \<not> mutex_ok then None
      else if \<not> cond_ok then None
      else Some \<lparr>references = 1, sender_state = 0, async_handle = NULL\<rparr>)"

definition retain_value :: "64 word \<Rightarrow> 64 word option" where
  "retain_value r = (if r = 0 \<or> r = of_nat SIZE_MAX then None else Some (r + 1))"

definition message_sender_retain :: "message_sender \<Rightarrow> bool \<times> message_sender" where
  "message_sender_retain s =
     (case snd (cas_loop retain_value (references s) []) of
        None \<Rightarrow> (False, s)
      | Some r \<Rightarrow> (True, s\<lparr>references := r\<rparr>))"

text \<open>\<open>message_sender_release\<close>: the Boolean tells whether the object was destroyed and freed.\<close>

definition message_sender_release :: "message_sender \<Rightarrow> bool \<times> message_sender" where
  "message_sender_release s = (references s = 1, s\<lparr>references := references s - 1\<rparr>)"

definition enter_value :: "64 word \<Rightarrow> 64 word option" where
  "enter_value st =
     (if st AND SENDER_CLOSED_BIT \<noteq> 0 \<or> st AND SENDER_PRODUCER_MASK = SENDER_PRODUCER_MASK
      then None else Some (st + 1))"

definition message_sender_enter :: "message_sender \<Rightarrow> bool \<times> message_sender" where
  "message_sender_enter s =
     (case snd (cas_loop enter_value (sender_state s) []) of
        None \<Rightarrow> (False, s)
      | Some st \<Rightarrow> (True, s\<lparr>sender_state := st\<rparr>))"

text \<open>\<open>message_sender_leave\<close>: the Boolean tells whether the condition variable is signalled.\<close>

definition leave_signals :: "64 word \<Rightarrow> bool" where
  "leave_signals previous \<longleftrightarrow>
     previous AND SENDER_CLOSED_BIT \<noteq> 0 \<and> previous AND SENDER_PRODUCER_MASK = 1"

definition message_sender_leave :: "message_sender \<Rightarrow> bool \<times> message_sender" where
  "message_sender_leave s =
     (leave_signals (sender_state s), s\<lparr>sender_state := sender_state s - 1\<rparr>)"

definition mark_closed :: "message_sender \<Rightarrow> message_sender" where
  "mark_closed s = s\<lparr>sender_state := sender_state s OR SENDER_CLOSED_BIT\<rparr>"

definition producers_inside :: "message_sender \<Rightarrow> bool" where
  "producers_inside s \<longleftrightarrow> sender_state s AND SENDER_PRODUCER_MASK \<noteq> 0"

text \<open>
  \<open>message_sender_close\<close> by the only running thread: \<open>None\<close> if it would wait for a producer that
  never leaves.
\<close>

definition message_sender_close :: "message_sender \<Rightarrow> message_sender option" where
  "message_sender_close s =
     (let s1 = mark_closed s
      in if producers_inside s1 then None else Some (s1\<lparr>async_handle := NULL\<rparr>))"

definition sender_closed :: "message_sender \<Rightarrow> bool" where
  "sender_closed s \<longleftrightarrow> sender_state s AND SENDER_CLOSED_BIT \<noteq> 0"

section \<open>The state word as two fields\<close>

lemma producer_mask: "SENDER_PRODUCER_MASK = mask 63"
  by (simp add: SENDER_PRODUCER_MASK_def SENDER_CLOSED_BIT_def mask_eq_exp_minus_1)

lemma closed_bit_test: "w AND SENDER_CLOSED_BIT \<noteq> 0 \<longleftrightarrow> bit w 63"
  using bit_iff_and_push_bit_not_eq_0 [of w 63] by (simp only: SENDER_CLOSED_BIT_def)

lemma closed_bit_unat: "w AND SENDER_CLOSED_BIT \<noteq> 0 \<longleftrightarrow> unat w \<ge> 2 ^ 63"
proof -
  have "bit w 63 \<longleftrightarrow> odd (unat w div 2 ^ 63)"
    by (metis bit_iff_odd bit_unsigned_iff bit_imp_le_length possible_bit_nat)
  also have "\<dots> \<longleftrightarrow> unat w \<ge> 2 ^ 63"
  proof -
    have "unat w < 2 ^ 64" using unsigned_less [of w] by simp
    then have "unat w div 2 ^ 63 < 2" by (simp add: less_mult_imp_div_less)
    then show ?thesis
      by (cases "unat w \<ge> 2 ^ 63") (auto simp: div_less less_2_cases_iff div_eq_0_iff)
  qed
  finally show ?thesis by (simp only: closed_bit_test)
qed

lemma producers_unat: "unat (w AND SENDER_PRODUCER_MASK) = unat w mod 2 ^ 63"
  by (simp only: producer_mask take_bit_eq_mask [symmetric] unsigned_take_bit_eq)
    (simp add: take_bit_eq_mod)

lemma close_unat: "unat (w OR SENDER_CLOSED_BIT) = 2 ^ 63 + unat w mod 2 ^ 63"
proof (cases "w AND SENDER_CLOSED_BIT = 0")
  case True
  then have "w OR SENDER_CLOSED_BIT = w + SENDER_CLOSED_BIT"
    by (simp add: disjunctive_add_eq_or)
  moreover have "unat w < 2 ^ 63" using True closed_bit_unat by (meson not_le)
  ultimately show ?thesis by (simp add: SENDER_CLOSED_BIT_def unat_word_ariths)
next
  case False
  have "w OR SENDER_CLOSED_BIT = w"
  proof (rule bit_word_eqI)
    fix n assume "n < LENGTH(64)"
    then show "bit (w OR SENDER_CLOSED_BIT) n = bit w n"
      using False closed_bit_test by (cases "n = 63")
        (auto simp: SENDER_CLOSED_BIT_def bit_or_iff bit_push_bit_iff bit_1_iff
          simp del: push_bit_of_1)
  qed
  moreover have "2 ^ 63 \<le> unat w" "unat w < 2 ^ 64"
    using False closed_bit_unat unsigned_less [of w] by auto
  ultimately show ?thesis by (simp add: le_mod_geq)
qed

lemma word_eq_unat: "(v :: 64 word) = w \<longleftrightarrow> unat v = unat w"
  by (simp add: word_unat_eq_iff)

lemma unat_closed_bit: "unat SENDER_CLOSED_BIT = 2 ^ 63"
  by (simp add: SENDER_CLOSED_BIT_def)

lemma unat_producer_mask: "unat SENDER_PRODUCER_MASK = 2 ^ 63 - 1"
  by (simp add: producer_mask mask_eq_exp_minus_1)

text \<open>A state word with the closed bit \<open>c\<close> and \<open>n\<close> producers.\<close>

definition word_of :: "bool \<Rightarrow> nat \<Rightarrow> 64 word \<Rightarrow> bool" where
  "word_of c n w \<longleftrightarrow> n < 2 ^ 63 \<and> unat w = (if c then 2 ^ 63 else 0) + n"

lemma word_of_inj: "word_of c n w \<Longrightarrow> word_of c n v \<Longrightarrow> v = w"
  by (simp add: word_of_def word_unat_eq_iff)

lemma word_of_unique: "word_of c n w \<Longrightarrow> word_of d m w \<Longrightarrow> c = d \<and> n = m"
  by (auto simp: word_of_def split: if_splits)

lemma word_of_closed: "word_of c n w \<Longrightarrow> (w AND SENDER_CLOSED_BIT \<noteq> 0) = c"
  unfolding closed_bit_unat by (auto simp: word_of_def)

lemma word_of_producers: "word_of c n w \<Longrightarrow> unat (w AND SENDER_PRODUCER_MASK) = n"
  by (auto simp: producers_unat word_of_def)

lemma word_of_enter:
  assumes "word_of c n w"
  shows "enter_value w = (if c \<or> n = 2 ^ 63 - 1 then None else Some (w + 1))"
    and "enter_value w = Some v \<Longrightarrow> word_of False (Suc n) v"
proof -
  have m: "w AND SENDER_PRODUCER_MASK = SENDER_PRODUCER_MASK \<longleftrightarrow> n = 2 ^ 63 - 1"
    using word_of_producers [OF assms] unat_producer_mask
    by (metis word_unat_eq_iff)
  show e: "enter_value w = (if c \<or> n = 2 ^ 63 - 1 then None else Some (w + 1))"
    using m word_of_closed [OF assms] by (simp add: enter_value_def)
  assume "enter_value w = Some v"
  then have "\<not> c" "n \<noteq> 2 ^ 63 - 1" "v = w + 1" using e by (auto split: if_splits)
  with assms show "word_of False (Suc n) v"
    by (auto simp: word_of_def unat_word_ariths)
qed

lemma word_of_leave:
  assumes "word_of c (Suc n) w"
  shows "word_of c n (w - 1)" and "leave_signals w \<longleftrightarrow> c \<and> n = 0"
proof -
  have "unat (w - 1) = unat w - 1"
    using assms by (intro unat_minus_one) (auto simp: word_of_def)
  with assms show "word_of c n (w - 1)" by (auto simp: word_of_def)
  show "leave_signals w \<longleftrightarrow> c \<and> n = 0"
    using word_of_closed [OF assms] word_of_producers [OF assms]
    by (simp add: leave_signals_def word_unat_eq_iff)
qed

lemma word_of_mark: "word_of c n w \<Longrightarrow> word_of True n (w OR SENDER_CLOSED_BIT)"
  by (auto simp: word_of_def close_unat)

lemma word_of_inside: "word_of c n (sender_state s) \<Longrightarrow> producers_inside s \<longleftrightarrow> n \<noteq> 0"
  using word_of_producers [of c n "sender_state s"]
  by (simp add: producers_inside_def word_unat_eq_iff)

lemma word_of_exists: "\<exists>c n. word_of c n w"
proof (cases "unat w < 2 ^ 63")
  case True
  then show ?thesis by (intro exI [of _ False] exI [of _ "unat w"]) (simp add: word_of_def)
next
  case False
  moreover have "unat w < 2 ^ 64" using unsigned_less [of w] by simp
  ultimately show ?thesis
    by (intro exI [of _ True] exI [of _ "unat w - 2 ^ 63"]) (auto simp: word_of_def)
qed

section \<open>Producers and the closing reactor\<close>

text \<open>
  A producer is outside, has loaded the state word in \<open>message_sender_enter\<close>, is inside (where
  \<open>enqueue_outer_message\<close> publishes the message and calls \<open>uv_async_send\<close> on the handle), or has left
  as the last producer of a closed sender and must signal, first without and then with the mutex.
\<close>

datatype sender_pc = Outside | Loaded "64 word" | Inside | MustSignal | Signalling

text \<open>
  The reactor in \<open>message_sender_close\<close>: the closed bit set, the mutex held, asleep in
  \<open>uv_cond_wait\<close>, woken and about to take the mutex again, returned. It may close again: both
  \<open>STOP_AGENT\<close> and \<open>agent_shutdown\<close> do.
\<close>

datatype closer_pc = NotClosing | Marked | Holding | Waiting | Woken | ReturnedClosed

datatype mutex = Unlocked | ByProducer nat | ByCloser

record sender_sys =
  sys_sender :: message_sender
  sender_pcs :: "nat \<Rightarrow> sender_pc"
  closer :: closer_pc
  close_mutex :: mutex
  null_send :: bool

inductive sender_step :: "nat \<Rightarrow> sender_sys \<Rightarrow> sender_sys \<Rightarrow> bool" for nt where
  load: "i < nt \<Longrightarrow> sender_pcs s i = Outside \<Longrightarrow>
     sender_step nt s (s\<lparr>sender_pcs := (sender_pcs s)(i := Loaded (sender_state (sys_sender s)))\<rparr>)"
| refuse: "i < nt \<Longrightarrow> sender_pcs s i = Loaded st \<Longrightarrow> enter_value st = None \<Longrightarrow>
     sender_step nt s (s\<lparr>sender_pcs := (sender_pcs s)(i := Outside)\<rparr>)"
| cas_success: "i < nt \<Longrightarrow> sender_pcs s i = Loaded st \<Longrightarrow> enter_value st = Some st' \<Longrightarrow>
     sender_state (sys_sender s) = st \<Longrightarrow>
     sender_step nt s (s\<lparr>sys_sender := (sys_sender s)\<lparr>sender_state := st'\<rparr>,
       sender_pcs := (sender_pcs s)(i := Inside)\<rparr>)"
| cas_failure: "i < nt \<Longrightarrow> sender_pcs s i = Loaded st \<Longrightarrow> enter_value st = Some st' \<Longrightarrow>
     sender_step nt s (s\<lparr>sender_pcs := (sender_pcs s)(i := Loaded (sender_state (sys_sender s)))\<rparr>)"
| async_send: "i < nt \<Longrightarrow> sender_pcs s i = Inside \<Longrightarrow>
     sender_step nt s (s\<lparr>null_send := (null_send s \<or> async_handle (sys_sender s) = NULL)\<rparr>)"
| leave: "i < nt \<Longrightarrow> sender_pcs s i = Inside \<Longrightarrow> message_sender_leave (sys_sender s) = (sig, sd) \<Longrightarrow>
     sender_step nt s (s\<lparr>sys_sender := sd,
       sender_pcs := (sender_pcs s)(i := (if sig then MustSignal else Outside))\<rparr>)"
| signal_lock: "i < nt \<Longrightarrow> sender_pcs s i = MustSignal \<Longrightarrow> close_mutex s = Unlocked \<Longrightarrow>
     sender_step nt s (s\<lparr>sender_pcs := (sender_pcs s)(i := Signalling), close_mutex := ByProducer i\<rparr>)"
| signal: "i < nt \<Longrightarrow> sender_pcs s i = Signalling \<Longrightarrow>
     sender_step nt s (s\<lparr>sender_pcs := (sender_pcs s)(i := Outside), close_mutex := Unlocked,
       closer := (if closer s = Waiting then Woken else closer s)\<rparr>)"
| close_mark: "closer s \<in> {NotClosing, ReturnedClosed} \<Longrightarrow>
     sender_step nt s (s\<lparr>sys_sender := mark_closed (sys_sender s), closer := Marked\<rparr>)"
| close_lock: "closer s \<in> {Marked, Woken} \<Longrightarrow> close_mutex s = Unlocked \<Longrightarrow>
     sender_step nt s (s\<lparr>closer := Holding, close_mutex := ByCloser\<rparr>)"
| close_wait: "closer s = Holding \<Longrightarrow> producers_inside (sys_sender s) \<Longrightarrow>
     sender_step nt s (s\<lparr>closer := Waiting, close_mutex := Unlocked\<rparr>)"
| spurious_wake: "closer s = Waiting \<Longrightarrow> sender_step nt s (s\<lparr>closer := Woken\<rparr>)"
| close_return: "closer s = Holding \<Longrightarrow> \<not> producers_inside (sys_sender s) \<Longrightarrow>
     sender_step nt s (s\<lparr>sys_sender := (sys_sender s)\<lparr>async_handle := NULL\<rparr>,
       closer := ReturnedClosed, close_mutex := Unlocked\<rparr>)"

text \<open>A sender with its handle installed (\<open>init_async_check_messages\<close>) and nobody using it.\<close>

definition sender_init :: "nat \<Rightarrow> sender_sys \<Rightarrow> bool" where
  "sender_init nt s \<longleftrightarrow>
     sender_state (sys_sender s) = 0 \<and> async_handle (sys_sender s) \<noteq> NULL
     \<and> (\<forall>i. sender_pcs s i = Outside) \<and> closer s = NotClosing \<and> close_mutex s = Unlocked
     \<and> \<not> null_send s"

definition inside_count :: "nat \<Rightarrow> sender_sys \<Rightarrow> nat" where
  "inside_count nt s = threads_at nt (\<lambda>pc. pc = Inside) (sender_pcs s)"

definition wakers_left :: "nat \<Rightarrow> sender_sys \<Rightarrow> bool" where
  "wakers_left nt s \<longleftrightarrow> (\<exists>i < nt. sender_pcs s i \<in> {Inside, MustSignal, Signalling})"

definition sender_inv :: "nat \<Rightarrow> sender_sys \<Rightarrow> bool" where
  "sender_inv nt s \<longleftrightarrow>
     word_of (closer s \<noteq> NotClosing) (inside_count nt s) (sender_state (sys_sender s))
     \<and> (\<forall>i. close_mutex s = ByProducer i \<longleftrightarrow> sender_pcs s i = Signalling)
     \<and> (close_mutex s = ByCloser \<longleftrightarrow> closer s = Holding)
     \<and> (closer s = Waiting \<longrightarrow> wakers_left nt s)
     \<and> (async_handle (sys_sender s) = NULL \<longrightarrow> closer s \<noteq> NotClosing \<and> inside_count nt s = 0)
     \<and> (closer s = ReturnedClosed \<longrightarrow> async_handle (sys_sender s) = NULL)
     \<and> \<not> null_send s"

text \<open>How a move of one producer changes the count.\<close>

lemma inside_upd:
  assumes "i < nt"
  shows "inside_count nt (s\<lparr>sender_pcs := (sender_pcs s)(i := pc)\<rparr>)
       + (if sender_pcs s i = Inside then 1 else 0)
       = inside_count nt s + (if pc = Inside then 1 else 0)"
  using threads_at_upd [OF assms, of "\<lambda>pc. pc = Inside" "sender_pcs s" pc]
  by (simp add: inside_count_def)

lemma inside_frame: "sender_pcs t = sender_pcs s \<Longrightarrow> inside_count nt t = inside_count nt s"
  by (simp add: inside_count_def)

lemma inside_pos: "i < nt \<Longrightarrow> sender_pcs s i = Inside \<Longrightarrow> 0 < inside_count nt s"
  by (simp add: inside_count_def threads_at_pos)

lemma inside_waker: "0 < inside_count nt s \<Longrightarrow> wakers_left nt s"
  using threads_at_0 [of nt "\<lambda>pc. pc = Inside" "sender_pcs s"]
  by (auto simp: inside_count_def wakers_left_def)

lemma sender_invD:
  assumes "sender_inv nt s"
  shows "word_of (closer s \<noteq> NotClosing) (inside_count nt s) (sender_state (sys_sender s))"
    and "close_mutex s = ByProducer i \<longleftrightarrow> sender_pcs s i = Signalling"
    and "close_mutex s = ByCloser \<longleftrightarrow> closer s = Holding"
    and "closer s = Waiting \<Longrightarrow> wakers_left nt s"
    and "async_handle (sys_sender s) = NULL \<Longrightarrow> closer s \<noteq> NotClosing \<and> inside_count nt s = 0"
    and "closer s = ReturnedClosed \<Longrightarrow> async_handle (sys_sender s) = NULL"
    and "\<not> null_send s"
  using assms unfolding sender_inv_def by blast+

text \<open>A move of a producer that neither enters nor leaves and holds no part of the mutex.\<close>

lemma idle_move_inv:
  assumes inv: "sender_inv nt s" and i: "i < nt"
    and old: "sender_pcs s i = Outside \<or> (\<exists>st. sender_pcs s i = Loaded st)"
    and new: "pc = Outside \<or> (\<exists>st. pc = Loaded st)"
  shows "sender_inv nt (s\<lparr>sender_pcs := (sender_pcs s)(i := pc)\<rparr>)" (is "sender_inv nt ?t")
proof -
  note D = sender_invD [OF inv]
  have n: "inside_count nt ?t = inside_count nt s"
    using inside_upd [OF i, of s pc] old new by auto
  have w: "wakers_left nt ?t = wakers_left nt s"
    using old new by (auto simp: wakers_left_def)
  have m: "close_mutex s = ByProducer j \<longleftrightarrow> sender_pcs ?t j = Signalling" for j
    using D(2) [of j] old new by auto
  show ?thesis
    unfolding sender_inv_def n w using D(1,3-7) m by simp
qed

lemma enter_inv:
  assumes inv: "sender_inv nt s" and i: "i < nt" and pc: "sender_pcs s i = Loaded st"
    and e: "enter_value st = Some st'" and st: "sender_state (sys_sender s) = st"
  shows "sender_inv nt (s\<lparr>sys_sender := (sys_sender s)\<lparr>sender_state := st'\<rparr>,
       sender_pcs := (sender_pcs s)(i := Inside)\<rparr>)" (is "sender_inv nt ?t")
proof -
  note D = sender_invD [OF inv]
  have nc: "closer s = NotClosing"
    using e st word_of_enter(1) [OF D(1)] by (auto split: if_splits)
  have "inside_count nt ?t = Suc (inside_count nt s)"
    using inside_upd [OF i, of s Inside] pc by (simp add: inside_count_def)
  moreover have "word_of False (Suc (inside_count nt s)) st'"
    using word_of_enter(2) [OF D(1)] e st by simp
  moreover have "close_mutex s = ByProducer j \<longleftrightarrow> sender_pcs ?t j = Signalling" for j
    using D(2) [of j] pc by auto
  ultimately show ?thesis
    using D nc unfolding sender_inv_def by auto
qed

lemma leave_inv:
  assumes inv: "sender_inv nt s" and i: "i < nt" and pc: "sender_pcs s i = Inside"
    and l: "message_sender_leave (sys_sender s) = (sig, sd)"
  shows "sender_inv nt (s\<lparr>sys_sender := sd,
       sender_pcs := (sender_pcs s)(i := (if sig then MustSignal else Outside))\<rparr>)"
    (is "sender_inv nt ?t")
proof -
  note D = sender_invD [OF inv]
  let ?new = "if sig then MustSignal else Outside"
  obtain n where n: "inside_count nt s = Suc n"
    using inside_pos [OF i pc] gr0_implies_Suc by blast
  have nt: "inside_count nt ?t = n"
    using inside_upd [OF i, of s ?new] pc n by (simp add: inside_count_def split: if_splits)
  have sd: "sd = (sys_sender s)\<lparr>sender_state := sender_state (sys_sender s) - 1\<rparr>"
    and sig: "sig \<longleftrightarrow> closer s \<noteq> NotClosing \<and> n = 0"
    using l word_of_leave(2) [OF D(1) [unfolded n]] by (auto simp: message_sender_leave_def)
  have "wakers_left nt ?t" if "closer s = Waiting"
    using that sig nt i inside_waker [of nt ?t] by (cases "n = 0") (auto simp: wakers_left_def)
  moreover have "close_mutex s = ByProducer j \<longleftrightarrow> sender_pcs ?t j = Signalling" for j
    using D(2) [of j] pc by auto
  ultimately show ?thesis
    unfolding sender_inv_def nt using D n word_of_leave(1) [OF D(1) [unfolded n]] by (auto simp: sd)
qed

lemma signal_lock_inv:
  assumes inv: "sender_inv nt s" and i: "i < nt" and pc: "sender_pcs s i = MustSignal"
    and m: "close_mutex s = Unlocked"
  shows "sender_inv nt (s\<lparr>sender_pcs := (sender_pcs s)(i := Signalling), close_mutex := ByProducer i\<rparr>)"
    (is "sender_inv nt ?t")
proof -
  note D = sender_invD [OF inv]
  have n: "inside_count nt ?t = inside_count nt s"
    using inside_upd [OF i, of s Signalling] pc by (simp add: inside_count_def)
  have "wakers_left nt ?t" using i by (auto simp: wakers_left_def)
  moreover have "sender_pcs s j \<noteq> Signalling" for j using D(2) [of j] m by auto
  ultimately show ?thesis
    unfolding sender_inv_def n using D m by auto
qed

lemma signal_inv:
  assumes inv: "sender_inv nt s" and i: "i < nt" and pc: "sender_pcs s i = Signalling"
  shows "sender_inv nt (s\<lparr>sender_pcs := (sender_pcs s)(i := Outside), close_mutex := Unlocked,
       closer := (if closer s = Waiting then Woken else closer s)\<rparr>)" (is "sender_inv nt ?t")
proof -
  note D = sender_invD [OF inv]
  have n: "inside_count nt ?t = inside_count nt s"
    using inside_upd [OF i, of s Outside] pc by (simp add: inside_count_def)
  have own: "close_mutex s = ByProducer i" using D(2) pc by simp
  then have "sender_pcs ?t j \<noteq> Signalling" for j using D(2) [of j] by auto
  moreover have "closer s \<noteq> Holding" using own D(3) by auto
  ultimately show ?thesis
    unfolding sender_inv_def n using D by (auto split: if_splits)
qed

lemma sender_step_inv:
  assumes inv: "sender_inv nt s" and st: "sender_step nt s t"
  shows "sender_inv nt t"
  using st
proof cases
  case (load i)
  then show ?thesis using idle_move_inv [OF inv] by blast
next
  case (refuse i st)
  then show ?thesis using idle_move_inv [OF inv] by blast
next
  case (cas_success i st st')
  then show ?thesis using enter_inv [OF inv] by blast
next
  case (cas_failure i st st')
  then show ?thesis using idle_move_inv [OF inv] by blast
next
  case (async_send i)
  then have "async_handle (sys_sender s) \<noteq> NULL"
    using sender_invD(5) [OF inv] inside_pos [of i nt s] by auto
  with inv async_send show ?thesis by (simp add: sender_inv_def inside_count_def wakers_left_def)
next
  case (leave i sig sd)
  then show ?thesis using leave_inv [OF inv] by blast
next
  case (signal_lock i)
  then show ?thesis using signal_lock_inv [OF inv] by blast
next
  case (signal i)
  then show ?thesis using signal_inv [OF inv] by blast
next
  case close_mark
  then show ?thesis
    using inv word_of_mark by (auto simp: sender_inv_def inside_count_def mark_closed_def)
next
  case close_lock
  then show ?thesis
    using inv by (auto simp: sender_inv_def inside_count_def)
next
  case close_wait
  then have "0 < inside_count nt s"
    using word_of_inside [OF sender_invD(1) [OF inv]] by simp
  then have "wakers_left nt t" using inside_waker [of nt t] close_wait by (simp add: inside_count_def)
  with close_wait inv show ?thesis by (auto simp: sender_inv_def inside_count_def)
next
  case spurious_wake
  then show ?thesis using inv by (auto simp: sender_inv_def inside_count_def)
next
  case close_return
  then have "inside_count nt s = 0"
    using word_of_inside [OF sender_invD(1) [OF inv]] by simp
  with close_return inv show ?thesis by (auto simp: sender_inv_def inside_count_def)
qed

interpretation sender: step_system "sender_init nt" "sender_step nt" "sender_inv nt" for nt
proof unfold_locales
  fix s assume i: "sender_init nt s"
  then have "inside_count nt s = 0" by (simp add: sender_init_def inside_count_def threads_at_0)
  with i show "sender_inv nt s" by (auto simp: sender_init_def sender_inv_def word_of_def)
qed (rule sender_step_inv)

section \<open>Facts for the callers\<close>

text \<open>A sender no producer is inside of, as every caller sees it between two operations.\<close>

definition sender_idle :: "message_sender \<Rightarrow> bool" where
  "sender_idle s \<longleftrightarrow> (\<exists>c. word_of c 0 (sender_state s))"

lemma enter_leave:
  assumes "sender_idle s" and "message_sender_enter s = (True, s1)"
  shows "message_sender_leave s1 = (False, s)" and "\<not> sender_closed s"
    and "async_handle s1 = async_handle s"
proof -
  obtain c where w: "word_of c 0 (sender_state s)" using assms(1) by (auto simp: sender_idle_def)
  have c: "\<not> c" and s1: "s1 = s\<lparr>sender_state := sender_state s + 1\<rparr>"
    using assms(2) word_of_enter(1) [OF w]
    by (auto simp: message_sender_enter_def split: option.splits if_splits)
  have "word_of False (Suc 0) (sender_state s + 1)"
    using word_of_enter [OF w] c by simp
  then have "\<not> leave_signals (sender_state s + 1)" using word_of_leave(2) by blast
  then show "message_sender_leave s1 = (False, s)" and "async_handle s1 = async_handle s"
    by (simp_all add: message_sender_leave_def s1)
  show "\<not> sender_closed s" using c word_of_closed [OF w] by (simp add: sender_closed_def)
qed

lemma enter_iff:
  assumes "sender_idle s"
  shows "fst (message_sender_enter s) \<longleftrightarrow> \<not> sender_closed s"
    and "\<not> fst (message_sender_enter s) \<Longrightarrow> message_sender_enter s = (False, s)"
proof -
  obtain c where w: "word_of c 0 (sender_state s)" using assms by (auto simp: sender_idle_def)
  show "fst (message_sender_enter s) \<longleftrightarrow> \<not> sender_closed s"
    using word_of_enter(1) [OF w] word_of_closed [OF w]
    by (auto simp: message_sender_enter_def sender_closed_def)
  show "\<not> fst (message_sender_enter s) \<Longrightarrow> message_sender_enter s = (False, s)"
    by (auto simp: message_sender_enter_def split: option.splits)
qed

lemma close_idle:
  assumes "sender_idle s"
  shows "message_sender_close s = Some ((mark_closed s)\<lparr>async_handle := NULL\<rparr>)"
    and "sender_idle (mark_closed s)" and "sender_closed (mark_closed s)"
proof -
  obtain c where "word_of c 0 (sender_state s)" using assms by (auto simp: sender_idle_def)
  then have w: "word_of True 0 (sender_state (mark_closed s))"
    by (simp add: mark_closed_def word_of_mark)
  show "message_sender_close s = Some ((mark_closed s)\<lparr>async_handle := NULL\<rparr>)"
    using word_of_inside [OF w] by (simp add: message_sender_close_def)
  show "sender_idle (mark_closed s)" and "sender_closed (mark_closed s)"
    using w word_of_closed [OF w] by (auto simp: sender_idle_def sender_closed_def)
qed

lemma sender_frame [simp]:
  "sender_idle (s\<lparr>async_handle := h\<rparr>) = sender_idle s"
  "sender_closed (s\<lparr>async_handle := h\<rparr>) = sender_closed s"
  "sender_idle (s\<lparr>references := r\<rparr>) = sender_idle s"
  "sender_closed (s\<lparr>references := r\<rparr>) = sender_closed s"
  by (simp_all add: sender_idle_def sender_closed_def)

section \<open>Properties\<close>

text \<open>
  C3. Closing is safe: under any interleaving of producers with the closing reactor,
  \<open>uv_async_send\<close> is never called on a cleared handle, and once \<open>message_sender_close\<close> has returned
  the handle is cleared, no producer is inside, and every later attempt to enter is refused.
\<close>
theorem sender_close_safe:
  assumes "sender_init nt s0" and "(sender_step nt)\<^sup>*\<^sup>* s0 s"
  shows "\<not> null_send s \<and> (closer s = ReturnedClosed \<longrightarrow>
     async_handle (sys_sender s) = NULL \<and> (\<forall>i < nt. sender_pcs s i \<noteq> Inside)
     \<and> enter_value (sender_state (sys_sender s)) = None)"
proof -
  have inv: "sender_inv nt s" using assms by (rule sender.reach_invar)
  note D = sender_invD [OF inv]
  have "enter_value (sender_state (sys_sender s)) = None" if "closer s = ReturnedClosed"
    using word_of_enter(1) [OF D(1)] that by simp
  moreover have "\<forall>i < nt. sender_pcs s i \<noteq> Inside" if "closer s = ReturnedClosed"
    using D(5,6) that inside_pos by fastforce
  ultimately show ?thesis using D(6,7) by blast
qed

text \<open>
  C4. No lost wake-up: whenever the reactor sleeps in \<open>uv_cond_wait\<close>, some producer is still inside,
  or has left as the last one and is on its way to signal the condition variable.
\<close>
theorem sender_close_no_lost_wakeup:
  assumes "sender_init nt s0" and "(sender_step nt)\<^sup>*\<^sup>* s0 s" and "closer s = Waiting"
  shows "\<exists>i < nt. sender_pcs s i = Inside \<or> sender_pcs s i = MustSignal \<or> sender_pcs s i = Signalling"
proof -
  have "sender_inv nt s" using assms(1,2) by (rule sender.reach_invar)
  then have "wakers_left nt s" using assms(3) sender_invD(4) by blast
  then show ?thesis by (auto simp: wakers_left_def)
qed

text \<open>
  C31. The state word is exact: its closed bit is set if and only if closing has begun, its low 63
  bits count the producers inside, and the count never reaches the closed bit.
\<close>
theorem sender_state_word:
  assumes "sender_init nt s0" and "(sender_step nt)\<^sup>*\<^sup>* s0 s"
  shows "(sender_state (sys_sender s) AND SENDER_CLOSED_BIT \<noteq> 0 \<longleftrightarrow> closer s \<noteq> NotClosing)
    \<and> unat (sender_state (sys_sender s) AND SENDER_PRODUCER_MASK) = inside_count nt s
    \<and> inside_count nt s < 2 ^ 63"
proof -
  have "sender_inv nt s" using assms by (rule sender.reach_invar)
  then have w: "word_of (closer s \<noteq> NotClosing) (inside_count nt s) (sender_state (sys_sender s))"
    by (rule sender_invD(1))
  show ?thesis
    using word_of_closed [OF w] word_of_producers [OF w] w unfolding word_of_def by blast
qed

text \<open>A run of one producer and the reactor, for the witnesses.\<close>

definition sender_start :: sender_sys where
  "sender_start = \<lparr>sys_sender = \<lparr>references = 1, sender_state = 0, async_handle = 9\<rparr>,
     sender_pcs = (\<lambda>_. Outside), closer = NotClosing, close_mutex = Unlocked, null_send = False\<rparr>"

definition sender_entered :: sender_sys where
  "sender_entered = sender_start\<lparr>sys_sender := (sys_sender sender_start)\<lparr>sender_state := 1\<rparr>,
     sender_pcs := (\<lambda>_. Outside)(0 := Inside)\<rparr>"

definition sender_asleep :: sender_sys where
  "sender_asleep = sender_entered\<lparr>
     sys_sender := mark_closed (sys_sender sender_entered), closer := Waiting\<rparr>"

lemma sender_start_init: "sender_init 1 sender_start"
  by (simp add: sender_init_def sender_start_def)

lemma sender_start_entered: "(sender_step 1)\<^sup>*\<^sup>* sender_start sender_entered"
proof -
  let ?l = "sender_start\<lparr>sender_pcs := (sender_pcs sender_start)(0 := Loaded 0)\<rparr>"
  have e: "enter_value 0 = Some 1"
    by (simp add: enter_value_def SENDER_PRODUCER_MASK_def SENDER_CLOSED_BIT_def)
  have "sender_step 1 sender_start ?l"
    using sender_step.load [of 0 1 sender_start] by (simp add: sender_start_def)
  moreover have "sender_step 1 ?l sender_entered"
    using sender_step.cas_success [of 0 1 ?l 0 1] e by (simp add: sender_start_def sender_entered_def)
  ultimately show ?thesis by (meson converse_rtranclp_into_rtranclp rtranclp.rtrancl_refl)
qed

lemma sender_entered_asleep: "(sender_step 1)\<^sup>*\<^sup>* sender_entered sender_asleep"
proof -
  let ?m = "sender_entered\<lparr>sys_sender := mark_closed (sys_sender sender_entered), closer := Marked\<rparr>"
  let ?h = "?m\<lparr>closer := Holding, close_mutex := ByCloser\<rparr>"
  have p: "producers_inside (sys_sender ?h)"
    by (simp add: producers_inside_def mark_closed_def sender_entered_def sender_start_def
        SENDER_PRODUCER_MASK_def SENDER_CLOSED_BIT_def)
  have "sender_step 1 sender_entered ?m"
    using sender_step.close_mark [of sender_entered 1] by (simp add: sender_entered_def sender_start_def)
  moreover have "sender_step 1 ?m ?h"
    using sender_step.close_lock [of ?m 1] by (simp add: sender_entered_def sender_start_def)
  moreover have "sender_step 1 ?h (?h\<lparr>closer := Waiting, close_mutex := Unlocked\<rparr>)"
    using sender_step.close_wait [of ?h 1] p by simp
  moreover have "?h\<lparr>closer := Waiting, close_mutex := Unlocked\<rparr> = sender_asleep"
    by (simp add: sender_asleep_def sender_entered_def sender_start_def)
  ultimately show ?thesis by (metis (no_types, lifting) converse_rtranclp_into_rtranclp rtranclp.rtrancl_refl)
qed

lemma sender_start_asleep: "(sender_step 1)\<^sup>*\<^sup>* sender_start sender_asleep"
  using sender_start_entered sender_entered_asleep by (rule rtranclp_trans)

theorem sender_close_safe_witness:
  "sender_init 1 sender_start \<and> (sender_step 1)\<^sup>*\<^sup>* sender_start sender_asleep \<and> \<not> null_send sender_asleep"
  using sender_start_init sender_start_asleep sender_close_safe [OF sender_start_init sender_start_asleep]
  by blast

theorem sender_close_no_lost_wakeup_witness:
  "closer sender_asleep = Waiting
   \<and> (\<exists>i < 1. sender_pcs sender_asleep i = Inside \<or> sender_pcs sender_asleep i = MustSignal
        \<or> sender_pcs sender_asleep i = Signalling)"
proof -
  have w: "closer sender_asleep = Waiting" by (simp add: sender_asleep_def)
  show ?thesis
    using w sender_close_no_lost_wakeup [OF sender_start_init sender_start_asleep w] by blast
qed

theorem sender_state_word_witness:
  "inside_count 1 sender_asleep < 2 ^ 63
   \<and> unat (sender_state (sys_sender sender_asleep) AND SENDER_PRODUCER_MASK)
     = inside_count 1 sender_asleep"
  using sender_state_word [OF sender_start_init sender_start_asleep] by blast

end
