(* ===== verification/Transfer_Registry.thy ===== *)
theory Transfer_Registry
  imports Hcurl_Base "HOL-Library.Multiset"
begin

text \<open>
  The transfer registry of \<open>cbits/message_chan.c\<close> (lines 129 to 228): a hash table from transfer
  ids to transfers with chained buckets, owned by the agent thread. A chain is the list of its
  nodes from the bucket's head on; a node is the address of a transfer with its id, which no
  code changes after insertion. \<open>buckets\<close> is \<open>None\<close> where the C pointer is \<open>NULL\<close>. Allocation
  outcomes are Boolean arguments.

  The contract is the locale \<open>id_map\<close>: the table refines a finite map from ids to addresses, whatever
  the hash, through growth and failed growth.
\<close>

unbundle bit_operations_syntax

type_synonym transfer_id = "64 word"
type_synonym node = "transfer_id \<times> addr"

record transfer_registry =
  buckets :: "node list list option"
  bucket_count :: size_t
  reg_count :: size_t

definition INITIAL_BUCKET_COUNT :: size_t where "INITIAL_BUCKET_COUNT = 64"

definition hash_transfer_id :: "transfer_id \<Rightarrow> 64 word" where
  "hash_transfer_id tid =
     (let v1 = tid XOR drop_bit 30 tid;
          v2 = v1 * 0xbf58476d1ce4e5b9;
          v3 = v2 XOR drop_bit 27 v2;
          v4 = v3 * 0x94d049bb133111eb
      in v4 XOR drop_bit 31 v4)"

definition bucket_of :: "size_t \<Rightarrow> transfer_id \<Rightarrow> nat" where
  "bucket_of n tid = unat (hash_transfer_id tid AND (of_nat n - 1))"

definition registry_init :: "bool \<Rightarrow> bool \<times> transfer_registry" where
  "registry_init calloc_ok =
     (if \<not> calloc_ok then (False, \<lparr>buckets = None, bucket_count = 0, reg_count = 0\<rparr>)
      else (True, \<lparr>buckets = Some (replicate INITIAL_BUCKET_COUNT []),
                   bucket_count = INITIAL_BUCKET_COUNT, reg_count = 0\<rparr>))"

definition registry_destroy :: "transfer_registry \<Rightarrow> transfer_registry" where
  "registry_destroy r = r\<lparr>buckets := None, bucket_count := 0, reg_count := 0\<rparr>"

fun chain_find :: "node list \<Rightarrow> transfer_id \<Rightarrow> addr" where
  "chain_find [] tid = NULL"
| "chain_find ((i, p) # ns) tid = (if i = tid then p else chain_find ns tid)"

definition registry_find :: "transfer_registry \<Rightarrow> transfer_id \<Rightarrow> addr" where
  "registry_find r tid =
     (case buckets r of
        None \<Rightarrow> NULL
      | Some bs \<Rightarrow> if bucket_count r = 0 then NULL
                   else chain_find (bs ! bucket_of (bucket_count r) tid) tid)"

text \<open>The two loops of \<open>registry_resize\<close>: every node is pushed on the front of its new chain.\<close>

definition push_node :: "size_t \<Rightarrow> node \<Rightarrow> node list list \<Rightarrow> node list list" where
  "push_node n nd bs = bs[bucket_of n (fst nd) := nd # bs ! bucket_of n (fst nd)]"

fun rehash_chain :: "size_t \<Rightarrow> node list \<Rightarrow> node list list \<Rightarrow> node list list" where
  "rehash_chain n [] bs = bs"
| "rehash_chain n (nd # ns) bs = rehash_chain n ns (push_node n nd bs)"

fun rehash :: "size_t \<Rightarrow> node list list \<Rightarrow> node list list \<Rightarrow> node list list" where
  "rehash n [] bs = bs"
| "rehash n (c # cs) bs = rehash n cs (rehash_chain n c bs)"

definition registry_resize :: "bool \<Rightarrow> transfer_registry \<Rightarrow> transfer_registry" where
  "registry_resize calloc_ok r =
     (if bucket_count r > SIZE_MAX div 2 then r
      else if \<not> calloc_ok then r
      else let n = sz_mul (bucket_count r) 2
           in r\<lparr>buckets := Some (rehash n (case buckets r of None \<Rightarrow> [] | Some bs \<Rightarrow> bs)
                  (replicate n [])),
                bucket_count := n\<rparr>)"

definition registry_insert ::
    "bool \<Rightarrow> transfer_registry \<Rightarrow> transfer_id \<Rightarrow> addr \<Rightarrow> bool \<times> transfer_registry" where
  "registry_insert calloc_ok r tid p =
     (if buckets r = None \<or> p = NULL \<or> registry_find r tid \<noteq> NULL then (False, r)
      else
        let r1 = (if bucket_count r \<le> SIZE_MAX div 2 \<and> reg_count r \<ge> sz_mul (bucket_count r) 2
                  then registry_resize calloc_ok r else r)
        in (True, r1\<lparr>buckets := Some (push_node (bucket_count r1) (tid, p) (the (buckets r1))),
                     reg_count := sz_add (reg_count r1) 1\<rparr>))"

fun chain_remove :: "node list \<Rightarrow> transfer_id \<Rightarrow> addr \<times> node list" where
  "chain_remove [] tid = (NULL, [])"
| "chain_remove ((i, p) # ns) tid =
     (if i = tid then (p, ns)
      else case chain_remove ns tid of (r, ms) \<Rightarrow> (r, (i, p) # ms))"

definition registry_remove :: "transfer_registry \<Rightarrow> transfer_id \<Rightarrow> addr \<times> transfer_registry" where
  "registry_remove r tid =
     (case buckets r of
        None \<Rightarrow> (NULL, r)
      | Some bs \<Rightarrow>
          if bucket_count r = 0 then (NULL, r)
          else
            let b = bucket_of (bucket_count r) tid;
                (removed, c) = chain_remove (bs ! b) tid
            in if removed = NULL then (NULL, r)
               else (removed, r\<lparr>buckets := Some (bs[b := c]), reg_count := sz_sub (reg_count r) 1\<rparr>))"

section \<open>The map it implements\<close>

text \<open>All nodes, in the order in which \<open>shutdown_message_context\<close> visits them.\<close>

definition nodes :: "transfer_registry \<Rightarrow> node list" where
  "nodes r = (case buckets r of None \<Rightarrow> [] | Some bs \<Rightarrow> concat bs)"

definition reg_map :: "transfer_registry \<Rightarrow> transfer_id \<Rightarrow> addr option" where
  "reg_map r = map_of (nodes r)"

definition well_placed :: "size_t \<Rightarrow> node list list \<Rightarrow> bool" where
  "well_placed n bs \<longleftrightarrow> (\<forall>i < length bs. \<forall>nd \<in> set (bs ! i). bucket_of n (fst nd) = i)"

definition reg_inv :: "transfer_registry \<Rightarrow> bool" where
  "reg_inv r \<longleftrightarrow>
     (case buckets r of
        None \<Rightarrow> bucket_count r = 0 \<and> reg_count r = 0
      | Some bs \<Rightarrow> 0 < bucket_count r \<and> bucket_count r \<le> SIZE_MAX \<and> length bs = bucket_count r
          \<and> well_placed (bucket_count r) bs)
     \<and> distinct (map fst (nodes r)) \<and> (\<forall>nd \<in> set (nodes r). fst nd \<noteq> 0 \<and> snd nd \<noteq> NULL)
     \<and> reg_count r = length (nodes r)"

section \<open>Chains and placement\<close>

lemma bucket_of_less: "0 < n \<Longrightarrow> n \<le> SIZE_MAX \<Longrightarrow> bucket_of n tid < n"
proof -
  assume n: "0 < n" "n \<le> SIZE_MAX"
  have "hash_transfer_id tid AND (of_nat n - 1) \<le> of_nat n - (1 :: 64 word)"
    by (rule word_and_le1)
  then have "bucket_of n tid \<le> unat (of_nat n - (1 :: 64 word))"
    by (simp add: bucket_of_def word_le_nat_alt)
  also have "of_nat n - (1 :: 64 word) = of_nat (n - 1)" using n(1) by (simp add: of_nat_diff)
  also have "unat (of_nat (n - 1) :: 64 word) = n - 1"
    using n by (simp only: unat_of_nat) (simp add: SIZE_MAX_def)
  finally show ?thesis using n(1) by simp
qed

lemma chain_find_map: "chain_find ns tid = (case map_of ns tid of None \<Rightarrow> NULL | Some p \<Rightarrow> p)"
  by (induction ns tid rule: chain_find.induct) auto

lemma chain_remove_spec:
  "chain_remove ns tid = (p, ms) \<Longrightarrow> distinct (map fst ns) \<Longrightarrow>
   p = (case map_of ns tid of None \<Rightarrow> NULL | Some q \<Rightarrow> q) \<and> ms = filter (\<lambda>nd. fst nd \<noteq> tid) ns"
proof (induction ns tid arbitrary: p ms rule: chain_remove.induct)
  case (2 i q ns tid)
  show ?case
  proof (cases "i = tid")
    case True
    with 2(3) have "filter (\<lambda>nd. fst nd \<noteq> tid) ns = ns" by (auto simp: filter_id_conv)
    with True 2(2) show ?thesis by simp
  next
    case False
    with 2 show ?thesis by (auto split: prod.splits)
  qed
qed simp

lemma concat_nth_mem: "i < length bs \<Longrightarrow> nd \<in> set (bs ! i) \<Longrightarrow> nd \<in> set (concat bs)"
  by auto

lemma distinct_chain: "distinct (map fst (concat bs)) \<Longrightarrow> c \<in> set bs \<Longrightarrow> distinct (map fst c)"
  by (induction bs) auto

text \<open>In a well-placed table an id occurs in its own bucket or nowhere.\<close>

lemma map_of_concat:
  assumes "well_placed n bs" and "distinct (map fst (concat bs))" and "bucket_of n tid < length bs"
  shows "map_of (concat bs) tid = map_of (bs ! bucket_of n tid) tid"
proof (cases "tid \<in> fst ` set (concat bs)")
  case True
  then obtain i p where i: "i < length bs" "(tid, p) \<in> set (bs ! i)"
    by (auto simp: in_set_conv_nth) metis
  then have b: "i = bucket_of n tid" using assms(1) by (force simp: well_placed_def)
  have "map_of (concat bs) tid = Some p"
    using assms(2) i concat_nth_mem by (intro map_of_is_SomeI) auto
  moreover have "distinct (map fst (bs ! i))"
    using i(1) by (intro distinct_chain [OF assms(2)]) simp
  then have "map_of (bs ! i) tid = Some p" using i(2) by (intro map_of_is_SomeI) auto
  ultimately show ?thesis using b by simp
next
  case False
  then have "map_of (concat bs) tid = None" by (simp add: map_of_eq_None_iff)
  moreover have "tid \<notin> fst ` set (bs ! bucket_of n tid)"
    using False concat_nth_mem [OF assms(3)] by force
  then have "map_of (bs ! bucket_of n tid) tid = None" by (simp add: map_of_eq_None_iff)
  ultimately show ?thesis by simp
qed


lemma mset_concat_update:
  "i < length bs \<Longrightarrow> mset (concat (bs[i := c])) + mset (bs ! i) = mset (concat bs) + mset c"
proof (induction bs arbitrary: i)
  case (Cons b bs)
  then show ?case by (cases i) (auto simp: algebra_simps)
qed simp

lemma push_node_mset:
  "bucket_of n (fst nd) < length bs \<Longrightarrow> mset (concat (push_node n nd bs)) = add_mset nd (mset (concat bs))"
  using mset_concat_update [of "bucket_of n (fst nd)" bs "nd # bs ! bucket_of n (fst nd)"]
  by (simp add: push_node_def)

lemma push_node_placed:
  "well_placed n bs \<Longrightarrow> well_placed n (push_node n nd bs)"
  by (cases "bucket_of n (fst nd) < length bs")
    (auto simp: well_placed_def push_node_def nth_list_update list_update_beyond split: if_splits)

lemma length_push_node [simp]: "length (push_node n nd bs) = length bs"
  by (simp add: push_node_def)

lemma rehash_chain_spec:
  "0 < n \<Longrightarrow> n \<le> SIZE_MAX \<Longrightarrow> length bs = n \<Longrightarrow> well_placed n bs \<Longrightarrow>
    length (rehash_chain n c bs) = n \<and> well_placed n (rehash_chain n c bs)
    \<and> mset (concat (rehash_chain n c bs)) = mset c + mset (concat bs)"
proof (induction n c bs rule: rehash_chain.induct)
  case (2 n nd ns bs)
  then have "mset (concat (push_node n nd bs)) = add_mset nd (mset (concat bs))"
    using bucket_of_less [of n "fst nd"] by (intro push_node_mset) simp
  with 2 show ?case by (simp add: push_node_placed)
qed simp

lemma rehash_spec:
  "0 < n \<Longrightarrow> n \<le> SIZE_MAX \<Longrightarrow> length bs = n \<Longrightarrow> well_placed n bs \<Longrightarrow>
    length (rehash n cs bs) = n \<and> well_placed n (rehash n cs bs)
    \<and> mset (concat (rehash n cs bs)) = mset (concat cs) + mset (concat bs)"
proof (induction n cs bs rule: rehash.induct)
  case (2 n c cs bs)
  with rehash_chain_spec [of n bs c] show ?case by simp
qed simp

text \<open>Two tables with the same nodes, up to order, represent the same map.\<close>

lemma same_nodes:
  assumes "mset ms = mset ns" and "distinct (map fst ns)"
  shows "distinct (map fst ms)" and "map_of ms = map_of ns" and "set ms = set ns"
    and "length ms = length ns"
proof -
  show d: "distinct (map fst ms)"
    using assms by (metis mset_eq_imp_distinct_iff mset_map)
  show "set ms = set ns" using assms(1) by (metis set_mset_mset)
  with d assms(2) show "map_of ms = map_of ns" by (metis map_of_inject_set)
  show "length ms = length ns" using assms(1) by (metis size_mset)
qed

lemma reg_invD:
  assumes "reg_inv r" and "buckets r = Some bs"
  shows "0 < bucket_count r" "bucket_count r \<le> SIZE_MAX" "length bs = bucket_count r"
    and "well_placed (bucket_count r) bs" "distinct (map fst (concat bs))"
    and "\<And>nd. nd \<in> set (concat bs) \<Longrightarrow> fst nd \<noteq> 0 \<and> snd nd \<noteq> NULL"
    and "reg_count r = length (concat bs)"
  using assms unfolding reg_inv_def nodes_def by auto

lemma reg_invI:
  assumes "0 < bucket_count r" "bucket_count r \<le> SIZE_MAX" "length bs = bucket_count r"
    and "well_placed (bucket_count r) bs" "distinct (map fst (concat bs))"
    and "\<And>nd. nd \<in> set (concat bs) \<Longrightarrow> fst nd \<noteq> 0 \<and> snd nd \<noteq> NULL"
    and "reg_count r = length (concat bs)" and "buckets r = Some bs"
  shows "reg_inv r"
  using assms by (auto simp: reg_inv_def nodes_def)

section \<open>The operations against the map\<close>

lemma init_spec: "reg_inv (snd (registry_init ok)) \<and> reg_map (snd (registry_init ok)) = Map.empty"
  by (auto simp: registry_init_def reg_inv_def reg_map_def nodes_def well_placed_def
      INITIAL_BUCKET_COUNT_def SIZE_MAX_def)

lemma destroy_spec: "reg_inv (registry_destroy r) \<and> reg_map (registry_destroy r) = Map.empty"
  by (simp add: registry_destroy_def reg_inv_def reg_map_def nodes_def)

lemma find_spec:
  assumes "reg_inv r"
  shows "registry_find r tid = (case reg_map r tid of None \<Rightarrow> NULL | Some p \<Rightarrow> p)"
proof (cases "buckets r")
  case None
  then show ?thesis by (simp add: registry_find_def reg_map_def nodes_def)
next
  case (Some bs)
  note D = reg_invD [OF assms Some]
  have "map_of (concat bs) tid = map_of (bs ! bucket_of (bucket_count r) tid) tid"
    using D bucket_of_less by (intro map_of_concat) auto
  then show ?thesis
    using Some D(1) by (simp add: registry_find_def reg_map_def nodes_def chain_find_map)
qed

lemma reg_map_not_null: "reg_inv r \<Longrightarrow> reg_map r tid = Some p \<Longrightarrow> p \<noteq> NULL \<and> tid \<noteq> 0"
  by (drule map_of_SomeD [of "nodes r" tid p, folded reg_map_def])
    (unfold reg_inv_def, drule conjunct2, drule conjunct2, drule conjunct1, drule bspec, auto)

lemma find_NULL: "reg_inv r \<Longrightarrow> registry_find r tid = NULL \<longleftrightarrow> reg_map r tid = None"
  using reg_map_not_null by (auto simp: find_spec split: option.splits)

lemma resize_spec:
  assumes inv: "reg_inv r" and Some: "buckets r = Some bs"
  shows "reg_inv (registry_resize ok r) \<and> reg_map (registry_resize ok r) = reg_map r
    \<and> buckets (registry_resize ok r) \<noteq> None \<and> reg_count (registry_resize ok r) = reg_count r"
proof (cases "bucket_count r > SIZE_MAX div 2 \<or> \<not> ok")
  case True
  then have "registry_resize ok r = r" by (auto simp: registry_resize_def)
  with inv Some show ?thesis by simp
next
  case go: False
  note D = reg_invD [OF inv Some]
  define n where "n = sz_mul (bucket_count r) 2"
  have n: "n = bucket_count r * 2" unfolding n_def
    using go by (intro sz_mul_exact) (simp add: SIZE_MAX_def)
  have n': "0 < n" "n \<le> SIZE_MAX" using n D(1) go by (auto simp: SIZE_MAX_def)
  define cs where "cs = rehash n bs (replicate n [])"
  have cs: "length cs = n" "well_placed n cs" "mset (concat cs) = mset (concat bs)"
    using rehash_spec [OF n', of "replicate n []" bs] by (auto simp: cs_def well_placed_def)
  note same = same_nodes [OF cs(3) D(5)]
  have r: "registry_resize ok r = r\<lparr>buckets := Some cs, bucket_count := n\<rparr>"
    using Some go by (simp add: registry_resize_def cs_def n_def Let_def)
  have "reg_inv (registry_resize ok r)"
    unfolding r using n' cs same D(6,7) by (intro reg_invI [of _ cs]) auto
  moreover have "reg_map (registry_resize ok r) = reg_map r"
    using same(2) Some by (simp add: r reg_map_def nodes_def)
  ultimately show ?thesis by (simp add: r)
qed

text \<open>Distinct nonzero 64-bit ids: the node count fits in the counter.\<close>

lemma node_count_bound:
  assumes "distinct (map fst ns)" and "\<forall>nd \<in> set ns. fst nd \<noteq> (0 :: 64 word)"
  shows "length ns \<le> SIZE_MAX"
proof -
  have "set (map fst ns) \<subseteq> UNIV - {0}" using assms(2) by auto
  then have "card (set (map fst ns)) \<le> card (UNIV - {0 :: 64 word})" by (intro card_mono) auto
  also have "card (UNIV - {0 :: 64 word}) = 2 ^ 64 - 1" by (simp add: card_Diff_singleton card_word)
  finally show ?thesis using distinct_card [OF assms(1)] by (simp add: SIZE_MAX_def)
qed

lemma insert_refused:
  "buckets r = None \<or> p = NULL \<or> registry_find r tid \<noteq> NULL \<Longrightarrow> registry_insert ok r tid p = (False, r)"
  by (simp add: registry_insert_def)

lemma insert_spec:
  assumes inv: "reg_inv r" and b: "buckets r \<noteq> None" and new: "reg_map r tid = None"
    and nz: "p \<noteq> NULL" "tid \<noteq> 0"
  shows "\<exists>r'. registry_insert ok r tid p = (True, r') \<and> reg_inv r'
    \<and> reg_map r' = (reg_map r)(tid \<mapsto> p) \<and> buckets r' \<noteq> None"
proof -
  define r1 where "r1 = (if bucket_count r \<le> SIZE_MAX div 2 \<and> reg_count r \<ge> sz_mul (bucket_count r) 2
    then registry_resize ok r else r)"
  have r1: "reg_inv r1" "reg_map r1 = reg_map r" "buckets r1 \<noteq> None"
    using resize_spec [OF inv] inv b by (auto simp: r1_def)
  then obtain bs where bs: "buckets r1 = Some bs" by blast
  note D = reg_invD [OF r1(1) bs]
  let ?cs = "push_node (bucket_count r1) (tid, p) bs"
  have m: "mset (concat ?cs) = mset ((tid, p) # concat bs)"
    using bucket_of_less [OF D(1,2)] D(3) by (subst push_node_mset) auto
  have "reg_map r1 tid = None" using new r1(2) by simp
  then have "tid \<notin> fst ` set (concat bs)"
    using bs by (simp add: reg_map_def nodes_def map_of_eq_None_iff del: set_concat)
  then have d: "distinct (map fst ((tid, p) # concat bs))" using D(5) by simp
  note same = same_nodes [OF m d]
  have "Suc (length (concat bs)) \<le> SIZE_MAX"
    using node_count_bound [OF d] D(6) nz by auto
  then have cnt: "sz_add (reg_count r1) 1 = Suc (reg_count r1)"
    using D(7) by (subst sz_add_exact) auto
  let ?r = "r1\<lparr>buckets := Some ?cs, reg_count := sz_add (reg_count r1) 1\<rparr>"
  have ins: "registry_insert ok r tid p = (True, ?r)"
    using b nz new find_NULL [OF inv] bs
    by (simp add: registry_insert_def r1_def [symmetric] Let_def del: One_nat_def)
  have "reg_inv ?r"
    using D same cnt nz by (intro reg_invI [of _ ?cs]) (auto simp: push_node_placed)
  moreover have "reg_map ?r = (reg_map r)(tid \<mapsto> p)"
    using same(2) bs r1(2) by (simp add: reg_map_def nodes_def)
  ultimately show ?thesis using ins by simp
qed

text \<open>Removing an id from its chain is filtering it out of all chains.\<close>

lemma concat_filter_bucket:
  assumes "well_placed n bs" and "b = bucket_of n tid"
  shows "concat (bs[b := filter (\<lambda>nd. fst nd \<noteq> tid) (bs ! b)])
       = filter (\<lambda>nd. fst nd \<noteq> tid) (concat bs)"
proof -
  have "bs[b := filter (\<lambda>nd. fst nd \<noteq> tid) (bs ! b)] = map (filter (\<lambda>nd. fst nd \<noteq> tid)) bs"
  proof (rule nth_equalityI)
    fix i assume "i < length (bs[b := filter (\<lambda>nd. fst nd \<noteq> tid) (bs ! b)])"
    then have i: "i < length bs" by simp
    have "filter (\<lambda>nd. fst nd \<noteq> tid) (bs ! i) = bs ! i" if "i \<noteq> b"
      using assms i that by (intro filter_True) (force simp: well_placed_def)
    with i show "bs[b := filter (\<lambda>nd. fst nd \<noteq> tid) (bs ! b)] ! i
        = map (filter (\<lambda>nd. fst nd \<noteq> tid)) bs ! i"
      by (cases "i = b") simp_all
  qed simp
  then show ?thesis by (simp add: filter_concat)
qed

lemma map_of_filter_id:
  "map_of (filter (\<lambda>nd. fst nd \<noteq> tid) ns) = (map_of ns)(tid := None)"
  by (induction ns) (auto simp: fun_eq_iff)

lemma length_filter_id:
  "distinct (map fst ns) \<Longrightarrow> (tid, p) \<in> set ns \<Longrightarrow>
   Suc (length (filter (\<lambda>nd. fst nd \<noteq> tid) ns)) = length ns"
proof (induction ns)
  case (Cons nd ns)
  show ?case
  proof (cases "fst nd = tid")
    case True
    with Cons.prems(1) have "tid \<notin> fst ` set ns" by simp
    then have "filter (\<lambda>nd. fst nd \<noteq> tid) ns = ns" by (intro filter_True) blast
    with True show ?thesis by simp
  qed (use Cons in auto)
qed simp

lemma remove_spec:
  assumes inv: "reg_inv r" and rem: "registry_remove r tid = (p, r')"
  shows "p = (case reg_map r tid of None \<Rightarrow> NULL | Some q \<Rightarrow> q)" and "reg_inv r'"
    and "reg_map r' = (reg_map r)(tid := None)" and "buckets r = None \<longleftrightarrow> buckets r' = None"
    and "nodes r' = filter (\<lambda>nd. fst nd \<noteq> tid) (nodes r)"
proof -
  have "p = (case reg_map r tid of None \<Rightarrow> NULL | Some q \<Rightarrow> q) \<and> reg_inv r'
    \<and> reg_map r' = (reg_map r)(tid := None) \<and> (buckets r = None \<longleftrightarrow> buckets r' = None)
    \<and> nodes r' = filter (\<lambda>nd. fst nd \<noteq> tid) (nodes r)"
  proof (cases "buckets r")
    case None
    then show ?thesis
      using rem inv by (simp add: registry_remove_def reg_map_def nodes_def fun_upd_idem)
  next
    case (Some bs)
    note D = reg_invD [OF inv Some]
    define b where "b = bucket_of (bucket_count r) tid"
    define c where "c = filter (\<lambda>nd. fst nd \<noteq> tid) (bs ! b)"
    have bl: "b < length bs" using bucket_of_less D(1-3) by (simp add: b_def)
    have "distinct (map fst (bs ! b))" using bl by (intro distinct_chain [OF D(5)]) simp
    then have cr: "chain_remove (bs ! b) tid
        = (case map_of (bs ! b) tid of None \<Rightarrow> NULL | Some q \<Rightarrow> q, c)"
      using chain_remove_spec by (metis c_def surj_pair)
    have m: "map_of (bs ! b) tid = reg_map r tid"
      using map_of_concat [OF D(4,5)] bl Some by (simp add: b_def reg_map_def nodes_def)
    show ?thesis
    proof (cases "reg_map r tid")
      case None
      then have "p = NULL" "r' = r"
        using rem Some D(1) cr m by (auto simp: registry_remove_def b_def Let_def split: if_splits)
      moreover have "tid \<notin> fst ` set (nodes r)"
        using None by (simp add: reg_map_def map_of_eq_None_iff)
      then have "filter (\<lambda>nd. fst nd \<noteq> tid) (nodes r) = nodes r"
        by (intro filter_True) force
      ultimately show ?thesis using None inv by (simp add: fun_upd_idem)
    next
      case q: (Some q)
      then have "q \<noteq> NULL" using reg_map_not_null [OF inv] by blast
      then have r': "r' = r\<lparr>buckets := Some (bs[b := c]), reg_count := sz_sub (reg_count r) 1\<rparr>"
        and p: "p = q"
        using rem Some D(1) cr m q by (auto simp: registry_remove_def b_def Let_def)
      have cat: "concat (bs[b := c]) = filter (\<lambda>nd. fst nd \<noteq> tid) (concat bs)"
        using concat_filter_bucket [OF D(4) b_def] by (simp add: c_def)
      have "(tid, q) \<in> set (concat bs)"
        using q Some by (auto simp: reg_map_def nodes_def dest: map_of_SomeD)
      note len = length_filter_id [OF D(5) this]
      then have "1 \<le> reg_count r" "reg_count r \<le> SIZE_MAX"
        using D(7) node_count_bound [OF D(5)] D(6) by auto
      then have cnt: "sz_sub (reg_count r) 1 = reg_count r - 1" by (rule sz_sub_exact)
      have "distinct (map fst (filter (\<lambda>nd. fst nd \<noteq> tid) (concat bs)))"
        using D(5) by (rule distinct_map_filter)
      moreover have "well_placed (bucket_count r) (bs[b := c])"
        using D(4) bl by (auto simp: well_placed_def nth_list_update c_def split: if_splits)
      ultimately have "reg_inv r'"
        unfolding r' using D(1-3,6,7) cnt len
        by (intro reg_invI [of _ "bs[b := c]"]) (auto simp: cat simp del: set_concat length_concat)
      moreover have "nodes r' = filter (\<lambda>nd. fst nd \<noteq> tid) (nodes r)"
        using cat Some by (simp add: r' nodes_def)
      ultimately show ?thesis
        using p q Some r' map_of_filter_id [of tid "nodes r"] by (simp add: reg_map_def)
    qed
  qed
  then show "p = (case reg_map r tid of None \<Rightarrow> NULL | Some q \<Rightarrow> q)" and "reg_inv r'"
    and "reg_map r' = (reg_map r)(tid := None)" and "buckets r = None \<longleftrightarrow> buckets r' = None"
    and "nodes r' = filter (\<lambda>nd. fst nd \<noteq> tid) (nodes r)" by auto
qed

section \<open>The contract the reactor relies on\<close>

text \<open>
  Calls on a table of addresses: the flag of an insertion is the outcome of the allocation that
  growing the table would make. \<open>table_run\<close> runs them on an implementation, \<open>map_run\<close> on a map.
\<close>

datatype table_op = TInsert bool transfer_id addr | TRemove transfer_id | TFind transfer_id

datatype table_result = Inserted bool | Address addr

fun table_run ::
    "('m \<Rightarrow> transfer_id \<Rightarrow> addr) \<Rightarrow> (bool \<Rightarrow> 'm \<Rightarrow> transfer_id \<Rightarrow> addr \<Rightarrow> bool \<times> 'm)
     \<Rightarrow> ('m \<Rightarrow> transfer_id \<Rightarrow> addr \<times> 'm) \<Rightarrow> table_op list \<Rightarrow> 'm \<Rightarrow> table_result list \<times> 'm" where
  "table_run fnd ins rmv [] m = ([], m)"
| "table_run fnd ins rmv (TInsert ok k p # ops) m =
     (case ins ok m k p of (b, m') \<Rightarrow>
        (case table_run fnd ins rmv ops m' of (rs, m'') \<Rightarrow> (Inserted b # rs, m'')))"
| "table_run fnd ins rmv (TRemove k # ops) m =
     (case rmv m k of (p, m') \<Rightarrow>
        (case table_run fnd ins rmv ops m' of (rs, m'') \<Rightarrow> (Address p # rs, m'')))"
| "table_run fnd ins rmv (TFind k # ops) m =
     (case table_run fnd ins rmv ops m of (rs, m'') \<Rightarrow> (Address (fnd m k) # rs, m''))"

fun map_run :: "table_op list \<Rightarrow> (transfer_id \<rightharpoonup> addr) \<Rightarrow> table_result list \<times> (transfer_id \<rightharpoonup> addr)" where
  "map_run [] m = ([], m)"
| "map_run (TInsert ok k p # ops) m =
     (case map_run ops (if m k = None then m(k \<mapsto> p) else m) of
        (rs, m') \<Rightarrow> (Inserted (m k = None) # rs, m'))"
| "map_run (TRemove k # ops) m =
     (case map_run ops (m(k := None)) of
        (rs, m') \<Rightarrow> (Address (case m k of None \<Rightarrow> NULL | Some p \<Rightarrow> p) # rs, m'))"
| "map_run (TFind k # ops) m =
     (case map_run ops m of
        (rs, m') \<Rightarrow> (Address (case m k of None \<Rightarrow> NULL | Some p \<Rightarrow> p) # rs, m'))"

fun valid_op :: "table_op \<Rightarrow> bool" where
  "valid_op (TInsert ok k p) = (k \<noteq> 0 \<and> p \<noteq> NULL)"
| "valid_op _ = True"

locale id_map =
  fixes lookup :: "'m \<Rightarrow> transfer_id \<Rightarrow> addr option"
    and table_inv :: "'m \<Rightarrow> bool"
    and live :: "'m \<Rightarrow> bool"
    and fnd :: "'m \<Rightarrow> transfer_id \<Rightarrow> addr"
    and ins :: "bool \<Rightarrow> 'm \<Rightarrow> transfer_id \<Rightarrow> addr \<Rightarrow> bool \<times> 'm"
    and rmv :: "'m \<Rightarrow> transfer_id \<Rightarrow> addr \<times> 'm"
  assumes lookup_valid: "table_inv m \<Longrightarrow> lookup m k = Some p \<Longrightarrow> p \<noteq> NULL \<and> k \<noteq> 0"
    and fnd_lookup: "table_inv m \<Longrightarrow> fnd m k = (case lookup m k of None \<Rightarrow> NULL | Some p \<Rightarrow> p)"
    and ins_new: "table_inv m \<Longrightarrow> live m \<Longrightarrow> lookup m k = None \<Longrightarrow> k \<noteq> 0 \<Longrightarrow> p \<noteq> NULL \<Longrightarrow>
      \<exists>m'. ins ok m k p = (True, m') \<and> table_inv m' \<and> live m' \<and> lookup m' = (lookup m)(k \<mapsto> p)"
    and ins_known: "table_inv m \<Longrightarrow> \<not> live m \<or> lookup m k \<noteq> None \<Longrightarrow> ins ok m k p = (False, m)"
    and rmv_lookup: "table_inv m \<Longrightarrow> rmv m k = (p, m') \<Longrightarrow>
      p = (case lookup m k of None \<Rightarrow> NULL | Some q \<Rightarrow> q) \<and> table_inv m' \<and> (live m' \<longleftrightarrow> live m)
      \<and> lookup m' = (lookup m)(k := None)"
begin

lemma fnd_null: "table_inv m \<Longrightarrow> fnd m k = NULL \<longleftrightarrow> lookup m k = None"
  using lookup_valid by (auto simp: fnd_lookup split: option.splits)

lemma rmv_again:
  assumes "table_inv m" and "rmv m k = (p, m')"
  shows "fnd m' k = NULL"
  using rmv_lookup [OF assms] fnd_null by simp

lemma table_run_map:
  "table_inv m \<Longrightarrow> live m \<Longrightarrow> list_all valid_op ops \<Longrightarrow> table_run fnd ins rmv ops m = (rs, m') \<Longrightarrow>
   map_run ops (lookup m) = (rs, lookup m') \<and> table_inv m' \<and> live m'"
proof (induction ops arbitrary: m rs)
  case (Cons op ops)
  show ?case
  proof (cases op)
    case (TInsert ok k p)
    show ?thesis
    proof (cases "lookup m k")
      case None
      obtain m1 where m1: "ins ok m k p = (True, m1)" "table_inv m1" "live m1"
        "lookup m1 = (lookup m)(k \<mapsto> p)"
        using ins_new [OF Cons.prems(1,2) None] Cons.prems(3) TInsert by auto
      with Cons.prems TInsert obtain rs1 where
        "table_run fnd ins rmv ops m1 = (rs1, m')" "rs = Inserted True # rs1"
        by (auto split: prod.splits)
      moreover from this(1) have "map_run ops ((lookup m)(k \<mapsto> p)) = (rs1, lookup m') \<and> table_inv m' \<and> live m'"
        using Cons.IH [OF m1(2,3), unfolded m1(4)] Cons.prems(3) by (simp add: fun_upd_def)
      ultimately show ?thesis using TInsert None by simp
    next
      case (Some q)
      with Cons.prems TInsert obtain rs1 where
        "table_run fnd ins rmv ops m = (rs1, m')" "rs = Inserted False # rs1"
        using ins_known [OF Cons.prems(1)] by (auto split: prod.splits)
      with Cons.IH [OF Cons.prems(1,2)] Cons.prems(3) TInsert Some show ?thesis by auto
    qed
  next
    case (TRemove k)
    obtain p m1 where m1: "rmv m k = (p, m1)" by (cases "rmv m k")
    with Cons.prems TRemove obtain rs1 where
      "table_run fnd ins rmv ops m1 = (rs1, m')" "rs = Address p # rs1"
      by (auto split: prod.splits)
    with Cons.IH [of m1 rs1] rmv_lookup [OF Cons.prems(1) m1] Cons.prems TRemove
    show ?thesis by (auto simp: fun_upd_def)
  next
    case (TFind k)
    with Cons show ?thesis by (auto simp: fnd_lookup split: prod.splits)
  qed
qed simp

end

interpretation reg: id_map reg_map reg_inv "\<lambda>r. buckets r \<noteq> None" registry_find registry_insert
  registry_remove
proof unfold_locales
  show "reg_inv m \<Longrightarrow> reg_map m k = Some p \<Longrightarrow> p \<noteq> NULL \<and> k \<noteq> 0" for m k p
    by (rule reg_map_not_null)
  show "reg_inv m \<Longrightarrow> registry_find m k = (case reg_map m k of None \<Rightarrow> NULL | Some p \<Rightarrow> p)" for m k
    by (rule find_spec)
  show "reg_inv m \<Longrightarrow> buckets m \<noteq> None \<Longrightarrow> reg_map m k = None \<Longrightarrow> k \<noteq> 0 \<Longrightarrow> p \<noteq> NULL \<Longrightarrow>
      \<exists>m'. registry_insert ok m k p = (True, m') \<and> reg_inv m' \<and> buckets m' \<noteq> None
        \<and> reg_map m' = (reg_map m)(k \<mapsto> p)" for m k p ok
    using insert_spec by blast
  show "reg_inv m \<Longrightarrow> \<not> buckets m \<noteq> None \<or> reg_map m k \<noteq> None \<Longrightarrow>
      registry_insert ok m k p = (False, m)" for m k p ok
    using find_NULL [of m k] by (intro insert_refused) auto
  fix m k p m' assume a: "reg_inv m" "registry_remove m k = (p, m')"
  show "p = (case reg_map m k of None \<Rightarrow> NULL | Some q \<Rightarrow> q) \<and> reg_inv m'
      \<and> (buckets m' \<noteq> None \<longleftrightarrow> buckets m \<noteq> None) \<and> reg_map m' = (reg_map m)(k := None)"
    using remove_spec(1-4) [OF a] by (intro conjI) simp_all
qed

section \<open>Properties\<close>

text \<open>
  C17. The registry refines a map: from a freshly initialised table, any sequence of insertions,
  removals and lookups returns what the map from ids to transfers would return (a duplicate id is
  refused and changes nothing), whether the allocations that growing needs succeed or fail, and the
  table that results represents the resulting map.
\<close>
theorem registry_refines_map:
  assumes "registry_init True = (True, r)" and "list_all valid_op ops"
    and "table_run registry_find registry_insert registry_remove ops r = (rs, r')"
  shows "map_run ops Map.empty = (rs, reg_map r') \<and> reg_inv r'"
proof -
  have "reg_inv r" "reg_map r = Map.empty" using init_spec [of True] assms(1) by auto
  moreover have "buckets r \<noteq> None" using assms(1) by (auto simp: registry_init_def)
  ultimately show ?thesis using reg.table_run_map [OF _ _ assms(2,3)] by simp
qed

theorem registry_refines_map_witness:
  "\<exists>r rs r'. registry_init True = (True, r)
     \<and> table_run registry_find registry_insert registry_remove
         [TInsert True 1 10, TInsert True 1 20, TFind 1, TRemove 1, TFind 1] r = (rs, r')
     \<and> rs = [Inserted True, Inserted False, Address 10, Address 10, Address NULL] \<and> reg_inv r'"
proof -
  let ?ops = "[TInsert True 1 10, TInsert True 1 20, TFind 1, TRemove 1, TFind 1]"
  obtain r where r: "registry_init True = (True, r)" by (simp add: registry_init_def)
  obtain rs r' where t: "table_run registry_find registry_insert registry_remove ?ops r = (rs, r')"
    by fastforce
  have v: "list_all valid_op ?ops" by simp
  show ?thesis using r t registry_refines_map [OF r v t] by auto
qed

text \<open>
  C33. The node count and the load: in every reachable table the counter is the number of
  transfers, no transfer is listed twice, and every id lies in the bucket its hash selects, which is
  inside the table.
\<close>
theorem registry_wellformed:
  assumes "registry_init True = (True, r)" and "list_all valid_op ops"
    and "table_run registry_find registry_insert registry_remove ops r = (rs, r')"
  shows "\<exists>bs. buckets r' = Some bs \<and> length bs = bucket_count r' \<and> reg_count r' = length (concat bs)
    \<and> distinct (map fst (concat bs))
    \<and> (\<forall>i < length bs. \<forall>nd \<in> set (bs ! i). bucket_of (bucket_count r') (fst nd) = i)
    \<and> (\<forall>k. bucket_of (bucket_count r') k < length bs)"
proof -
  have "reg_inv r" "buckets r \<noteq> None"
    using init_spec [of True] assms(1) by (auto simp: registry_init_def)
  then have inv: "reg_inv r'" and "buckets r' \<noteq> None"
    using reg.table_run_map [OF _ _ assms(2,3)] by auto
  then obtain bs where bs: "buckets r' = Some bs" by blast
  note D = reg_invD [OF inv bs]
  show ?thesis
    using bs D(3,4,5,7) bucket_of_less [OF D(1,2)] by (auto simp: well_placed_def)
qed

theorem registry_wellformed_witness:
  "\<exists>r rs r' bs. registry_init True = (True, r)
     \<and> table_run registry_find registry_insert registry_remove [TInsert True 7 10] r = (rs, r')
     \<and> buckets r' = Some bs \<and> reg_count r' = length (concat bs)"
proof -
  obtain r where r: "registry_init True = (True, r)" by (simp add: registry_init_def)
  obtain rs r' where
    t: "table_run registry_find registry_insert registry_remove [TInsert True 7 10] r = (rs, r')"
    by fastforce
  have v: "list_all valid_op [TInsert True 7 10]" by simp
  show ?thesis using r t registry_wellformed [OF r v t] by blast
qed

end
