(* ===== verification/Hs_Extras.thy ===== *)
theory Hs_Extras
  imports Hcurl_Base "HOL-Library.Multiset"
begin

text \<open>
  \<open>cbits/extras.c\<close>: one-shot wake-ups of Haskell threads, the completion record of a transfer, the
  header-list overlay and the one-time initialisation of libcurl.

  \<open>hs_try_putmvar\<close> consumes the \<open>StablePtr\<close> it is given, so the properties are about ownership:
  a registered pointer is consumed, handed back or still registered, exactly once. The locale
  \<open>one_shot_waiter\<close> states this contract for a component with slots for such pointers; the header
  data and both directions of a stream provide it.
\<close>

section \<open>Wakers\<close>

record hs_waker =
  mvar :: HsStablePtr
  capability :: int
  waked :: bool

definition wake_up_waker :: "hs_waker \<Rightarrow> event list \<times> hs_waker" where
  "wake_up_waker w =
     (if mvar w \<noteq> NULL \<and> \<not> waked w
      then ([HsTryPutMVar (capability w) (mvar w)], w\<lparr>waked := True\<rparr>)
      else ([], w))"

lemma wake_once: "fst (wake_up_waker (snd (wake_up_waker w))) = []"
  by (simp add: wake_up_waker_def)

section \<open>The contract of one-shot waiters\<close>

text \<open>
  A component holds registered pointers, each with the capability to wake it on. Clients register
  and cancel at one of its slots (\<open>'k\<close>); every other operation leaves the pointers alone or fires
  some of them.
\<close>

datatype ('k, 'o) waiter_op = Register 'k HsStablePtr int | Cancel 'k HsStablePtr | Act 'o

text \<open>What a history of operations registered, handed back and fired.\<close>

record waiter_log =
  registered :: "HsStablePtr list"
  returned :: "HsStablePtr list"
  fired :: "HsStablePtr list"

fun put_calls :: "event list \<Rightarrow> (HsStablePtr \<times> int) list" where
  "put_calls [] = []"
| "put_calls (HsTryPutMVar c m # evs) = (m, c) # put_calls evs"
| "put_calls (_ # evs) = put_calls evs"

lemma put_calls_append [simp]: "put_calls (xs @ ys) = put_calls xs @ put_calls ys"
  by (induction xs rule: put_calls.induct) auto

fun waiter_run ::
    "('k \<Rightarrow> HsStablePtr \<Rightarrow> int \<Rightarrow> 's \<Rightarrow> bool \<times> 's) \<Rightarrow> ('k \<Rightarrow> HsStablePtr \<Rightarrow> 's \<Rightarrow> bool \<times> 's)
     \<Rightarrow> ('o \<Rightarrow> 's \<Rightarrow> event list \<times> 's) \<Rightarrow> ('k, 'o) waiter_op list \<Rightarrow> 's \<Rightarrow> waiter_log
     \<Rightarrow> waiter_log \<times> 's" where
  "waiter_run reg can act [] s l = (l, s)"
| "waiter_run reg can act (Register k m c # ops) s l =
     (case reg k m c s of (ok, s') \<Rightarrow>
        waiter_run reg can act ops s' (if ok then l\<lparr>registered := m # registered l\<rparr> else l))"
| "waiter_run reg can act (Cancel k m # ops) s l =
     (case can k m s of (ok, s') \<Rightarrow>
        waiter_run reg can act ops s' (if ok then l\<lparr>returned := m # returned l\<rparr> else l))"
| "waiter_run reg can act (Act x # ops) s l =
     (case act x s of (evs, s') \<Rightarrow>
        waiter_run reg can act ops s' (l\<lparr>fired := map fst (put_calls evs) @ fired l\<rparr>))"

definition no_log :: waiter_log where
  "no_log = \<lparr>registered = [], returned = [], fired = []\<rparr>"

text \<open>Every pointer registered was handed back, fired or is waiting, and none of this twice.\<close>

definition balanced :: "waiter_log \<Rightarrow> (HsStablePtr \<times> int) list \<Rightarrow> bool" where
  "balanced l ws \<longleftrightarrow>
     mset (registered l) = mset (returned l) + mset (fired l) + image_mset fst (mset ws)"

locale one_shot_waiter =
  fixes waiting :: "'s \<Rightarrow> (HsStablePtr \<times> int) list"
    and reg :: "'k \<Rightarrow> HsStablePtr \<Rightarrow> int \<Rightarrow> 's \<Rightarrow> bool \<times> 's"
    and can :: "'k \<Rightarrow> HsStablePtr \<Rightarrow> 's \<Rightarrow> bool \<times> 's"
    and act :: "'o \<Rightarrow> 's \<Rightarrow> event list \<times> 's"
    and ok :: "'s \<Rightarrow> bool"
  assumes reg_law: "ok s \<Longrightarrow> reg k m c s = (b, s') \<Longrightarrow>
      ok s' \<and> mset (waiting s') = (if b then {#(m, c)#} else {#}) + mset (waiting s)"
    and can_law: "ok s \<Longrightarrow> can k m s = (b, s') \<Longrightarrow>
      ok s' \<and> (\<exists>c. mset (waiting s) = (if b then {#(m, c)#} else {#}) + mset (waiting s'))"
    and act_law: "ok s \<Longrightarrow> act x s = (evs, s') \<Longrightarrow>
      ok s' \<and> mset (waiting s) = mset (put_calls evs) + mset (waiting s')"
begin

lemma waiter_conserved:
  "ok s \<Longrightarrow> balanced l (waiting s) \<Longrightarrow> waiter_run reg can act ops s l = (l', s') \<Longrightarrow>
   ok s' \<and> balanced l' (waiting s')"
proof (induction ops arbitrary: s l)
  case (Cons op ops)
  show ?case
  proof (cases op)
    case (Register k m c)
    obtain b s1 where r: "reg k m c s = (b, s1)" by (cases "reg k m c s")
    show ?thesis
      using Cons.IH [of s1 "if b then l\<lparr>registered := m # registered l\<rparr> else l"]
        Cons.prems reg_law [OF Cons.prems(1) r] r Register
      by (auto simp: balanced_def split: if_splits)
  next
    case (Cancel k m)
    obtain b s1 where r: "can k m s = (b, s1)" by (cases "can k m s")
    show ?thesis
      using Cons.IH [of s1 "if b then l\<lparr>returned := m # returned l\<rparr> else l"]
        Cons.prems can_law [OF Cons.prems(1) r] r Cancel
      by (auto simp: balanced_def split: if_splits)
  next
    case (Act x)
    obtain evs s1 where r: "act x s = (evs, s1)" by (cases "act x s")
    show ?thesis
      using Cons.IH [of s1 "l\<lparr>fired := map fst (put_calls evs) @ fired l\<rparr>"]
        Cons.prems act_law [OF Cons.prems(1) r] r Act
      by (auto simp: balanced_def)
  qed
qed simp

end

section \<open>The completion record of a transfer\<close>

record hs_easy_data =
  curl_code :: int
  response_code :: int
  ed_waker :: hs_waker
  waker_fired :: bool
  completed :: bool

definition hs_easy_data_create :: "bool \<Rightarrow> HsStablePtr \<Rightarrow> int \<Rightarrow> hs_easy_data option" where
  "hs_easy_data_create calloc_ok m cap =
     (if \<not> calloc_ok then None
      else Some \<lparr>curl_code = CURLE_OK, response_code = 0,
                 ed_waker = \<lparr>mvar = m, capability = cap, waked = False\<rparr>,
                 waker_fired = False, completed = False\<rparr>)"

definition hs_easy_data_destroy :: "hs_easy_data \<Rightarrow> event list" where
  "hs_easy_data_destroy d =
     (if mvar (ed_waker d) \<noteq> NULL \<and> \<not> waker_fired d then [HsFreeStablePtr (mvar (ed_waker d))] else [])"

text \<open>
  \<open>info\<close> is what \<open>curl_easy_getinfo(easy, CURLINFO_RESPONSE_CODE, ...)\<close> answers: a code and a status.
\<close>

definition hs_easy_data_set_result ::
    "(CURLcode \<times> int) \<Rightarrow> hs_easy_data \<Rightarrow> CURL \<Rightarrow> CURLcode \<Rightarrow> hs_easy_data" where
  "hs_easy_data_set_result info d easy code =
     (if completed d then d
      else let d1 = d\<lparr>curl_code := code\<rparr>;
               d2 = (if easy \<noteq> NULL \<and> fst info = CURLE_OK then d1\<lparr>response_code := snd info\<rparr> else d1)
           in d2\<lparr>completed := True\<rparr>)"

definition hs_easy_data_wake :: "hs_easy_data \<Rightarrow> event list \<times> hs_easy_data" where
  "hs_easy_data_wake d =
     (if \<not> completed d then ([], d)
      else if waker_fired d then ([], d)
      else case wake_up_waker (ed_waker d) of
             (evs, w) \<Rightarrow> (evs, d\<lparr>waker_fired := True, ed_waker := w\<rparr>))"

definition hs_easy_data_code :: "hs_easy_data option \<Rightarrow> CURLcode" where
  "hs_easy_data_code dp = (case dp of None \<Rightarrow> CURLE_FAILED_INIT | Some d \<Rightarrow> curl_code d)"

definition hs_easy_data_response_code :: "hs_easy_data option \<Rightarrow> int" where
  "hs_easy_data_response_code dp = (case dp of None \<Rightarrow> 0 | Some d \<Rightarrow> response_code d)"

text \<open>The calls made on a completion record between its creation and its destruction.\<close>

datatype easy_call = SetResult "CURLcode \<times> int" CURL CURLcode | Wake

fun easy_run :: "easy_call list \<Rightarrow> hs_easy_data \<Rightarrow> event list \<times> hs_easy_data" where
  "easy_run [] d = ([], d)"
| "easy_run (SetResult info easy code # cs) d =
     easy_run cs (hs_easy_data_set_result info d easy code)"
| "easy_run (Wake # cs) d =
     (case hs_easy_data_wake d of (evs, d') \<Rightarrow>
        (case easy_run cs d' of (evs', d'') \<Rightarrow> (evs @ evs', d'')))"

section \<open>Header names and the overlay\<close>

definition ascii_lower :: "byte \<Rightarrow> byte" where
  "ascii_lower c =
     (let v = of_char c :: nat
      in if v \<ge> 65 \<and> v \<le> 90 then char_of (v + 32) else c)"

text \<open>
  C strings are the bytes before the terminating NUL; \<open>None\<close> is a null pointer. The comparison stops
  at the end of the candidate, as the code stops at its NUL.
\<close>

fun name_equal_from :: "byte list \<Rightarrow> byte list \<Rightarrow> nat \<Rightarrow> bool" where
  "name_equal_from cand header 0 = True"
| "name_equal_from [] header (Suc n) = False"
| "name_equal_from (c # cand) [] (Suc n) = False"
| "name_equal_from (c # cand) (h # header) (Suc n) =
     (ascii_lower c = ascii_lower h \<and> name_equal_from cand header n)"

definition header_name_equal :: "string option \<Rightarrow> string option \<Rightarrow> size_t \<Rightarrow> bool" where
  "header_name_equal cand header name_length =
     (case (cand, header) of
        (Some c, Some h) \<Rightarrow> name_equal_from c h name_length
      | _ \<Rightarrow> False)"

text \<open>\<open>strchr(header, ':') - header\<close>, if there is a colon.\<close>

fun colon_index :: "string \<Rightarrow> nat option" where
  "colon_index [] = None"
| "colon_index (c # cs) = (if c = CHR '':'' then Some 0 else map_option Suc (colon_index cs))"

text \<open>A \<open>curl_slist\<close> is the list of its nodes, each with its address and its string; \<open>[]\<close> is \<open>NULL\<close>.\<close>

type_synonym curl_slist = "(addr \<times> string option) list"

fun slist_mentions :: "curl_slist \<Rightarrow> string \<Rightarrow> size_t \<Rightarrow> bool" where
  "slist_mentions [] header n = False"
| "slist_mentions ((a, d) # ns) header n =
     (if header_name_equal d (Some header) n then True else slist_mentions ns header n)"

text \<open>\<open>fresh\<close> is the node \<open>curl_slist_append(NULL, header)\<close> allocates, \<open>NULL\<close> if it fails.\<close>

definition hcurl_slist_overlay_header ::
    "addr \<Rightarrow> curl_slist \<Rightarrow> string option \<Rightarrow> curl_slist" where
  "hcurl_slist_overlay_header fresh borrowed header =
     (case header of
        None \<Rightarrow> []
      | Some h \<Rightarrow>
          (case colon_index h of
             None \<Rightarrow> []
           | Some i \<Rightarrow>
               if slist_mentions borrowed h (i + 1) then borrowed
               else if fresh = NULL then []
               else (fresh, Some h) # borrowed))"

definition slist_head :: "curl_slist \<Rightarrow> addr" where
  "slist_head ns = (case ns of [] \<Rightarrow> NULL | (a, d) # _ \<Rightarrow> a)"

text \<open>The addresses that \<open>hcurl_slist_free_overlay\<close> frees.\<close>

definition hcurl_slist_free_overlay :: "curl_slist \<Rightarrow> curl_slist \<Rightarrow> addr list" where
  "hcurl_slist_free_overlay head borrowed =
     (if slist_head head \<noteq> NULL \<and> slist_head head \<noteq> slist_head borrowed
      then [slist_head head] else [])"

section \<open>One-time initialisation\<close>

record global_init =
  once_done :: bool
  global_init_result :: CURLcode

definition global_initial :: global_init where
  "global_initial = \<lparr>once_done = False, global_init_result = CURLE_FAILED_INIT\<rparr>"

text \<open>\<open>outcome\<close> is what \<open>curl_global_init\<close> would return if this call ran it.\<close>

definition hcurl_global_init_once :: "CURLcode \<Rightarrow> global_init \<Rightarrow> CURLcode \<times> global_init" where
  "hcurl_global_init_once outcome g =
     (let g' = (if once_done g then g
                else g\<lparr>once_done := True, global_init_result := outcome\<rparr>)
      in (global_init_result g', g'))"

section \<open>Properties\<close>

lemma easy_run_spec:
  "\<not> waker_fired d \<longrightarrow> \<not> waked (ed_waker d) \<Longrightarrow> waker_fired d \<longrightarrow> completed d \<Longrightarrow>
   easy_run cs d = (evs, d') \<Longrightarrow>
   mvar (ed_waker d') = mvar (ed_waker d) \<and> (waker_fired d' \<longrightarrow> completed d')
   \<and> (waker_fired d \<longrightarrow> waker_fired d')
   \<and> evs = (if waker_fired d' \<and> \<not> waker_fired d \<and> mvar (ed_waker d) \<noteq> NULL
        then [HsTryPutMVar (capability (ed_waker d)) (mvar (ed_waker d))] else [])"
proof (induction cs d arbitrary: evs d' rule: easy_run.induct)
  case (2 info easy code cs d)
  let ?d = "hs_easy_data_set_result info d easy code"
  have "ed_waker ?d = ed_waker d" "waker_fired ?d = waker_fired d" "completed ?d"
    by (auto simp: hs_easy_data_set_result_def Let_def)
  with 2 show ?case by simp
next
  case (3 cs d)
  obtain e1 d1 where w: "hs_easy_data_wake d = (e1, d1)" by (cases "hs_easy_data_wake d")
  obtain e2 where r: "easy_run cs d1 = (e2, d')" "evs = e1 @ e2"
    using 3(4) w by (auto split: prod.splits)
  show ?case
  proof (cases "completed d \<and> \<not> waker_fired d")
    case True
    then have d1: "mvar (ed_waker d1) = mvar (ed_waker d)" "waker_fired d1" "completed d1"
      and e1: "e1 = (if mvar (ed_waker d) \<noteq> NULL
        then [HsTryPutMVar (capability (ed_waker d)) (mvar (ed_waker d))] else [])"
      using w 3(2) by (auto simp: hs_easy_data_wake_def wake_up_waker_def split: if_splits)
    with "3.IH" [OF w [symmetric] _ _ r(1)] r(2) True show ?thesis by auto
  next
    case False
    then have "e1 = []" "d1 = d" using w by (auto simp: hs_easy_data_wake_def split: if_splits)
    with "3.IH" [OF w [symmetric] _ _ r(1)] r(2) 3(2,3) show ?thesis by auto
  qed
qed simp

text \<open>
  C18. The \<open>StablePtr\<close> of a completion record is consumed exactly once: whatever calls are made
  on the record before it is destroyed, the Haskell thread is woken at most once, only after a
  result was stored, and the destructor frees the pointer exactly when it was never fired.
\<close>
theorem easy_pointer_consumed_once:
  assumes "hs_easy_data_create True m cap = Some d" and "m \<noteq> NULL" and "easy_run cs d = (evs, d')"
  shows "evs @ hs_easy_data_destroy d'
      = (if waker_fired d' then [HsTryPutMVar cap m] else [HsFreeStablePtr m])
    \<and> (waker_fired d' \<longrightarrow> completed d')"
proof -
  have d: "\<not> waker_fired d" "\<not> waked (ed_waker d)" "mvar (ed_waker d) = m" "capability (ed_waker d) = cap"
    using assms(1) by (auto simp: hs_easy_data_create_def)
  with easy_run_spec [OF _ _ assms(3)] assms(2) show ?thesis
    by (auto simp: hs_easy_data_destroy_def)
qed

theorem easy_pointer_consumed_once_witness:
  "\<exists>d evs d'. hs_easy_data_create True 5 0 = Some d
     \<and> easy_run [Wake, SetResult (0, 200) 9 0, Wake, Wake] d = (evs, d') \<and> waker_fired d'
     \<and> evs @ hs_easy_data_destroy d' = [HsTryPutMVar 0 5]"
proof -
  obtain d where d: "hs_easy_data_create True 5 0 = Some d" by (simp add: hs_easy_data_create_def)
  obtain evs d' where r: "easy_run [Wake, SetResult (0, 200) 9 0, Wake, Wake] d = (evs, d')"
    by fastforce
  have "waker_fired d'"
    using d r by (auto simp: hs_easy_data_create_def hs_easy_data_wake_def wake_up_waker_def
        hs_easy_data_set_result_def Let_def curl_codes)
  with d r easy_pointer_consumed_once [OF d _ r] show ?thesis by auto
qed

text \<open>The first result stored in a history of calls.\<close>

fun first_result :: "easy_call list \<Rightarrow> CURLcode option" where
  "first_result [] = None"
| "first_result (SetResult info easy code # cs) = Some code"
| "first_result (Wake # cs) = first_result cs"

lemma wake_keeps_result:
  "completed (snd (hs_easy_data_wake d)) = completed d"
  "curl_code (snd (hs_easy_data_wake d)) = curl_code d"
  by (simp_all add: hs_easy_data_wake_def split: prod.split)

lemma easy_run_completed:
  "completed d \<Longrightarrow> completed (snd (easy_run cs d)) \<and> curl_code (snd (easy_run cs d)) = curl_code d"
proof (induction cs arbitrary: d)
  case (Cons c cs)
  show ?case
  proof (cases c)
    case (SetResult info easy code)
    with Cons show ?thesis by (simp add: hs_easy_data_set_result_def)
  next
    case Wake
    with Cons.IH [of "snd (hs_easy_data_wake d)"] Cons.prems show ?thesis
      by (simp add: wake_keeps_result split: prod.split) (metis snd_conv wake_keeps_result)
  qed
qed simp

text \<open>
  C32. A transfer has one result: the code read after any history of calls is the first one that
  was stored (later completions of the same transfer change nothing), and until one is stored the
  record is neither completed nor woken.
\<close>
theorem easy_first_result_wins:
  assumes "hs_easy_data_create True m cap = Some d" and "easy_run cs d = (evs, d')"
  shows "(case first_result cs of
      None \<Rightarrow> \<not> completed d' \<and> evs = []
    | Some code \<Rightarrow> completed d' \<and> hs_easy_data_code (Some d') = code)"
proof -
  have "\<not> completed d" using assms(1) by (auto simp: hs_easy_data_create_def)
  then show ?thesis using assms(2)
  proof (induction cs d arbitrary: evs d' rule: easy_run.induct)
    case (2 info easy code cs d)
    then have "completed (hs_easy_data_set_result info d easy code)"
      "curl_code (hs_easy_data_set_result info d easy code) = code"
      by (auto simp: hs_easy_data_set_result_def Let_def)
    with easy_run_completed [of "hs_easy_data_set_result info d easy code" cs] 2(3)
    show ?case by (simp add: hs_easy_data_code_def)
  next
    case (3 cs d)
    then have "hs_easy_data_wake d = ([], d)" by (simp add: hs_easy_data_wake_def)
    with 3 show ?case by (auto split: prod.splits)
  qed simp
qed

theorem easy_first_result_wins_witness:
  "\<exists>d evs d'. hs_easy_data_create True 5 0 = Some d
     \<and> easy_run [SetResult (0, 200) 9 42, SetResult (0, 200) 9 0, Wake] d = (evs, d')
     \<and> hs_easy_data_code (Some d') = 42"
proof -
  obtain d where d: "hs_easy_data_create True 5 0 = Some d" by (simp add: hs_easy_data_create_def)
  obtain evs d' where
    r: "easy_run [SetResult (0, 200) 9 42, SetResult (0, 200) 9 0, Wake] d = (evs, d')"
    by fastforce
  show ?thesis using d r easy_first_result_wins [OF d r] by auto
qed

text \<open>Header names are compared without case up to and including the colon.\<close>

lemma name_equal_from_iff:
  "n \<le> length h \<Longrightarrow> name_equal_from c h n
     \<longleftrightarrow> n \<le> length c \<and> map ascii_lower (take n c) = map ascii_lower (take n h)"
  by (induction c h n rule: name_equal_from.induct) auto

lemma colon_index_less: "colon_index h = Some i \<Longrightarrow> i < length h \<and> h ! i = CHR '':''"
  by (induction h arbitrary: i) (auto split: if_splits)

lemma slist_mentions_iff:
  "slist_mentions ns h n \<longleftrightarrow> (\<exists>a d. (a, d) \<in> set ns \<and> header_name_equal d (Some h) n)"
  by (induction ns h n rule: slist_mentions.induct) auto



end
