(* ===== verification/Curl_Metrics.thy ===== *)
theory Curl_Metrics
  imports Hcurl_Base "HOL-Library.Log_Nat"
begin

text \<open>
  \<open>cbits/curl_metrics.c\<close>: the counters and timings of one transfer. Stored values are \<open>int64_t\<close>,
  modelled as \<open>int\<close> with the range an invariant. What \<open>curl_easy_getinfo\<close> answers is an argument
  of the functions that ask; so are the version the code was compiled against (the conditional
  compilation) and the version of the library it runs with.

  Older libraries answer in \<open>double\<close>. A finite double is \<open>m * 2 ^ e\<close> with \<open>\<bar>m\<bar> < 2 ^ 53\<close>;
  multiplication and division round to nearest, ties to even. The exponent is unbounded here: an
  underflow of the real format would only affect products below one, which convert to zero either
  way. The conversion \<open>(int64_t)x\<close> is \<open>None\<close> where C leaves it undefined.
\<close>

section \<open>Doubles\<close>

datatype double = NaN | Infinite bool | Finite int int

definition round_half_even :: "int \<Rightarrow> int \<Rightarrow> int" where
  "round_half_even a b =
     (let d = a div b; r = a mod b
      in if 2 * r < b then d else if 2 * r > b then d + 1 else if even d then d else d + 1)"

text \<open>\<open>a / (b * 2 ^ e)\<close> as a fraction.\<close>

definition scaled :: "int \<Rightarrow> int \<Rightarrow> int \<Rightarrow> int \<times> int" where
  "scaled p q e = (if e \<ge> 0 then (p, q * 2 ^ nat e) else (p * 2 ^ nat (- e), q))"

text \<open>The double nearest to the positive fraction \<open>p / q\<close>.\<close>

definition round_exponent :: "int \<Rightarrow> int \<Rightarrow> int" where
  "round_exponent p q =
     (let e = bitlen p - bitlen q - 53; (a, b) = scaled p q e
      in if a \<ge> 2 ^ 53 * b then e + 1 else e)"

definition round_ratio :: "int \<Rightarrow> int \<Rightarrow> double" where
  "round_ratio p q =
     (let e = round_exponent p q; (a, b) = scaled p q e in Finite (round_half_even a b) e)"

definition fraction_of :: "int \<Rightarrow> int \<Rightarrow> int \<times> int" where
  "fraction_of m e = (if e \<ge> 0 then (m * 2 ^ nat e, 1) else (m, 2 ^ nat (- e)))"

definition dbl_mul :: "double \<Rightarrow> int \<Rightarrow> double" where
  "dbl_mul x s =
     (case x of
        Finite m e \<Rightarrow> (case fraction_of m e of (p, q) \<Rightarrow> round_ratio (p * s) q)
      | _ \<Rightarrow> x)"

definition dbl_div :: "double \<Rightarrow> int \<Rightarrow> double" where
  "dbl_div x s =
     (case x of
        Finite m e \<Rightarrow> (case fraction_of m e of (p, q) \<Rightarrow> round_ratio p (q * s))
      | _ \<Rightarrow> x)"

definition dbl_positive :: "double \<Rightarrow> bool" where
  "dbl_positive x = (case x of NaN \<Rightarrow> False | Infinite neg \<Rightarrow> \<not> neg | Finite m e \<Rightarrow> m > 0)"

definition dbl_ge :: "double \<Rightarrow> double \<Rightarrow> bool" where
  "dbl_ge x y =
     (case (x, y) of
        (Finite m e, Finite n f) \<Rightarrow>
          (case (fraction_of m e, fraction_of n f) of ((p, q), (r, s)) \<Rightarrow> p * s \<ge> r * q)
      | (Infinite a, Infinite b) \<Rightarrow> \<not> a \<or> b
      | (Infinite a, Finite n f) \<Rightarrow> \<not> a
      | (Finite m e, Infinite b) \<Rightarrow> b
      | _ \<Rightarrow> False)"

definition INT64_MAX :: int where "INT64_MAX = 9223372036854775807"

definition int64_cast :: "double \<Rightarrow> int option" where
  "int64_cast x =
     (case x of
        Finite m e \<Rightarrow>
          (let t = (if e \<ge> 0 then m * 2 ^ nat e else sgn m * (\<bar>m\<bar> div 2 ^ nat (- e)))
           in if - INT64_MAX - 1 \<le> t \<and> t \<le> INT64_MAX then Some t else None)
      | _ \<Rightarrow> None)"

definition wf_double :: "double \<Rightarrow> bool" where
  "wf_double x = (case x of Finite m e \<Rightarrow> \<bar>m\<bar> < 2 ^ 53 | _ \<Rightarrow> True)"

section \<open>The metrics of a transfer\<close>

record curl_metrics =
  upload_progress :: int
  upload_total :: int
  download_progress :: int
  download_total :: int
  upload_speed :: int
  download_speed :: int
  namelookup_time :: int
  connect_time :: int
  appconnect_time :: int
  pretransfer_time :: int
  starttransfer_time :: int
  total_time :: int
  redirect_time :: int

record curl_metrics_context =
  metrics_of :: curl_metrics
  streamed_download :: bool
  streamed_upload :: bool

definition curl_metrics_context_create :: "bool \<Rightarrow> curl_metrics_context option" where
  "curl_metrics_context_create malloc_ok =
     (if \<not> malloc_ok then None
      else Some \<lparr>metrics_of = \<lparr>upload_progress = 0, upload_total = 0, download_progress = 0,
          download_total = 0, upload_speed = 0, download_speed = 0, namelookup_time = 0,
          connect_time = 0, appconnect_time = 0, pretransfer_time = 0, starttransfer_time = 0,
          total_time = 0, redirect_time = 0\<rparr>,
        streamed_download = False, streamed_upload = False\<rparr>)"

definition curl_metrics_streamed_download ::
    "curl_metrics_context option \<Rightarrow> curl_metrics_context option" where
  "curl_metrics_streamed_download = map_option (\<lambda>c. c\<lparr>streamed_download := True\<rparr>)"

definition curl_metrics_streamed_upload ::
    "curl_metrics_context option \<Rightarrow> curl_metrics_context option" where
  "curl_metrics_streamed_upload = map_option (\<lambda>c. c\<lparr>streamed_upload := True\<rparr>)"

text \<open>The value the loop of \<open>add_bytes\<close> tries to install; the addition itself must not overflow.\<close>

definition add_bytes_value :: "size_t \<Rightarrow> int \<Rightarrow> int option" where
  "add_bytes_value bytes current =
     (let increment = (if int bytes > INT64_MAX then INT64_MAX else int bytes)
      in Some (if current > INT64_MAX - increment then INT64_MAX else current + increment))"

text \<open>
  Only the thread of the transfer adds to a counter, so its compare-exchange fails only spuriously,
  and a run of the loop with such failures ends as one without (\<open>add_bytes_spurious\<close> below).
\<close>

definition add_bytes :: "size_t \<Rightarrow> int \<Rightarrow> int" where
  "add_bytes bytes counter = the (snd (cas_loop (add_bytes_value bytes) counter []))"

definition curl_metrics_add_downloaded ::
    "size_t \<Rightarrow> curl_metrics_context option \<Rightarrow> curl_metrics_context option" where
  "curl_metrics_add_downloaded bytes =
     map_option (\<lambda>c. c\<lparr>metrics_of :=
       (metrics_of c)\<lparr>download_progress := add_bytes bytes (download_progress (metrics_of c))\<rparr>\<rparr>)"

definition curl_metrics_add_uploaded ::
    "size_t \<Rightarrow> curl_metrics_context option \<Rightarrow> curl_metrics_context option" where
  "curl_metrics_add_uploaded bytes =
     map_option (\<lambda>c. c\<lparr>metrics_of :=
       (metrics_of c)\<lparr>upload_progress := add_bytes bytes (upload_progress (metrics_of c))\<rparr>\<rparr>)"

section \<open>Asking libcurl\<close>

datatype curl_info =
    SIZE_UPLOAD | CONTENT_LENGTH_UPLOAD | SIZE_DOWNLOAD | CONTENT_LENGTH_DOWNLOAD
  | SPEED_UPLOAD | SPEED_DOWNLOAD | NAMELOOKUP_TIME | CONNECT_TIME | APPCONNECT_TIME
  | PRETRANSFER_TIME | STARTTRANSFER_TIME | TOTAL_TIME | REDIRECT_TIME

text \<open>
  The answers of \<open>curl_easy_getinfo\<close>: \<open>off_t_info\<close> to the queries whose name ends in \<open>_T\<close> and
  \<open>double_info\<close> to the legacy ones, each with the result code.
\<close>

record curl_answers =
  off_t_info :: "curl_info \<Rightarrow> CURLcode \<times> int"
  double_info :: "curl_info \<Rightarrow> CURLcode \<times> double"

definition nonnegative_double_to_int64 :: "double \<Rightarrow> int \<Rightarrow> int option" where
  "nonnegative_double_to_int64 value scale =
     (if \<not> dbl_positive value then Some 0
      else if dbl_ge value (dbl_div (round_ratio INT64_MAX 1) scale) then Some INT64_MAX
      else int64_cast (dbl_mul value scale))"

definition get_off_t_info :: "curl_answers \<Rightarrow> curl_info \<Rightarrow> int" where
  "get_off_t_info ans info =
     (case off_t_info ans info of
        (code, value) \<Rightarrow>
          if code \<noteq> CURLE_OK \<or> value \<le> 0 then 0
          else if value \<ge> INT64_MAX then INT64_MAX else value)"

definition get_double_info :: "curl_answers \<Rightarrow> curl_info \<Rightarrow> int \<Rightarrow> int option" where
  "get_double_info ans info scale =
     (case double_info ans info of
        (code, value) \<Rightarrow>
          if code = CURLE_OK then nonnegative_double_to_int64 value scale else Some 0)"

text \<open>The macros \<open>STORE_SIZE_INFO\<close> and \<open>STORE_TIME_INFO\<close>: the value they store.\<close>

definition size_value :: "nat \<Rightarrow> nat \<Rightarrow> curl_answers \<Rightarrow> curl_info \<Rightarrow> int option" where
  "size_value header_version runtime_version ans info =
     (if header_version \<ge> 0x073700 \<and> runtime_version \<ge> 0x073700
      then Some (get_off_t_info ans info) else get_double_info ans info 1)"

definition time_value :: "nat \<Rightarrow> nat \<Rightarrow> curl_answers \<Rightarrow> curl_info \<Rightarrow> int option" where
  "time_value header_version runtime_version ans info =
     (if header_version \<ge> 0x073d00 \<and> runtime_version \<ge> 0x073d00
      then Some (get_off_t_info ans info) else get_double_info ans info 1000000)"

text \<open>
  \<open>curl_metrics_finish\<close>: \<open>hv\<close> is \<open>LIBCURL_VERSION_NUM\<close>, \<open>rv\<close> the number \<open>curl_version_info\<close> reports
  (zero if it reports nothing). \<open>None\<close> only if a conversion were undefined.
\<close>

definition curl_metrics_finish ::
    "nat \<Rightarrow> nat \<Rightarrow> curl_answers \<Rightarrow> CURL \<Rightarrow> curl_metrics_context option
     \<Rightarrow> curl_metrics_context option option" where
  "curl_metrics_finish hv rv ans easy context =
     (case context of
        None \<Rightarrow> Some None
      | Some c \<Rightarrow>
     if easy = NULL then Some (Some c)
     else do {
        let m = metrics_of c;
        up \<leftarrow> (if streamed_upload c then Some (upload_progress m)
                else size_value hv rv ans SIZE_UPLOAD);
        ut \<leftarrow> size_value hv rv ans CONTENT_LENGTH_UPLOAD;
        dp \<leftarrow> (if streamed_download c then Some (download_progress m)
                else size_value hv rv ans SIZE_DOWNLOAD);
        dt \<leftarrow> size_value hv rv ans CONTENT_LENGTH_DOWNLOAD;
        us \<leftarrow> size_value hv rv ans SPEED_UPLOAD;
        ds \<leftarrow> size_value hv rv ans SPEED_DOWNLOAD;
        nl \<leftarrow> time_value hv rv ans NAMELOOKUP_TIME;
        ct \<leftarrow> time_value hv rv ans CONNECT_TIME;
        ac \<leftarrow> (if hv \<ge> 0x071300 \<and> rv \<ge> 0x071300 then time_value hv rv ans APPCONNECT_TIME
                else Some (appconnect_time m));
        pt \<leftarrow> time_value hv rv ans PRETRANSFER_TIME;
        st \<leftarrow> time_value hv rv ans STARTTRANSFER_TIME;
        tt \<leftarrow> time_value hv rv ans TOTAL_TIME;
        rt \<leftarrow> time_value hv rv ans REDIRECT_TIME;
        Some (Some (c\<lparr>metrics_of := \<lparr>upload_progress = up, upload_total = ut,
          download_progress = dp, download_total = dt, upload_speed = us, download_speed = ds,
          namelookup_time = nl, connect_time = ct, appconnect_time = ac, pretransfer_time = pt,
          starttransfer_time = st, total_time = tt, redirect_time = rt\<rparr>\<rparr>))
      })"

text \<open>The array the caller passes, \<open>None\<close> for a null pointer.\<close>

definition HCURL_METRICS_COUNT :: nat where "HCURL_METRICS_COUNT = 13"

definition curl_metrics_snapshot ::
    "curl_metrics_context option \<Rightarrow> int list option \<Rightarrow> int list option" where
  "curl_metrics_snapshot context output =
     (case output of
        None \<Rightarrow> None
      | Some old \<Rightarrow>
          (case context of
             None \<Rightarrow> Some (replicate HCURL_METRICS_COUNT 0 @ drop HCURL_METRICS_COUNT old)
           | Some c \<Rightarrow>
               (let m = metrics_of c
                in Some ([upload_progress m, upload_total m, download_progress m,
                    download_total m, upload_speed m, download_speed m, namelookup_time m,
                    connect_time m, appconnect_time m, pretransfer_time m, starttransfer_time m,
                    total_time m, redirect_time m] @ drop HCURL_METRICS_COUNT old))))"

section \<open>Saturating counters\<close>

lemma add_bytes_saturates:
  "0 \<le> c \<Longrightarrow> c \<le> INT64_MAX \<Longrightarrow> add_bytes n c = min INT64_MAX (c + int n)"
  by (auto simp: add_bytes_def add_bytes_value_def Let_def)

lemma add_bytes_spurious:
  "\<forall>u \<in> set us. u = c \<Longrightarrow> snd (cas_loop (add_bytes_value n) c us) = Some (add_bytes n c)"
  by (simp add: cas_loop_spurious add_bytes_def add_bytes_value_def Let_def)

lemma add_bytes_range:
  "0 \<le> c \<Longrightarrow> c \<le> INT64_MAX \<Longrightarrow> 0 \<le> add_bytes n c \<and> add_bytes n c \<le> INT64_MAX"
  by (simp add: add_bytes_saturates)

section \<open>Rounding\<close>

lemma scaled_pos: "0 < p \<Longrightarrow> 0 < q \<Longrightarrow> scaled p q e = (a, b) \<Longrightarrow> 0 < a \<and> 0 < b"
  by (auto simp: scaled_def split: if_splits)

lemma scaled_Suc:
  assumes "scaled p q e = (a, b)" and "scaled p q (e + 1) = (a', b')"
  shows "a' = a \<and> b' = 2 * b \<or> a = 2 * a' \<and> b' = b"
proof (cases "e \<ge> 0")
  case True
  then have "nat (e + 1) = Suc (nat e)" by simp
  with True assms show ?thesis by (auto simp: scaled_def)
next
  case False
  then have "nat (- e) = Suc (nat (- (e + 1)))" by simp
  with False assms show ?thesis by (auto simp: scaled_def split: if_splits)
qed

lemma pow2_split: "0 \<le> i \<Longrightarrow> 0 \<le> j \<Longrightarrow> (2::int) ^ nat (i + j) = 2 ^ nat i * 2 ^ nat j"
  by (simp add: nat_add_distrib power_add)

lemma first_exponent:
  fixes p q :: int
  assumes p: "0 < p" and q: "0 < q" and s: "scaled p q (bitlen p - bitlen q - 53) = (a, b)"
  shows "2 ^ 52 * b \<le> a" and "a < 2 ^ 54 * b"
proof -
  define i where "i = bitlen p - 1"
  define j where "j = bitlen q - 1"
  have i: "0 \<le> i" "bitlen p = i + 1" and j: "0 \<le> j" "bitlen q = j + 1"
    using p q bitlen_eq_zero_iff [of p] bitlen_eq_zero_iff [of q] bitlen_nonneg [of p]
      bitlen_nonneg [of q] by (auto simp: i_def j_def)
  have bp: "2 ^ nat i \<le> p" "p < 2 * 2 ^ nat i" and bq: "2 ^ nat j \<le> q" "q < 2 * 2 ^ nat j"
    using bitlen_bounds [OF p] bitlen_bounds [OF q] i j pow2_split [of i 1] pow2_split [of j 1] by auto
  have e: "bitlen p - bitlen q - 53 = i - j - 53" using i j by simp
  have "2 ^ 52 * b \<le> a \<and> a < 2 ^ 54 * b"
  proof (cases "i - j - 53 \<ge> 0")
    case True
    have ab: "a = p" "b = q * 2 ^ nat (i - j - 53)" using s True by (auto simp: e scaled_def)
    define X where "X = (2::int) ^ nat j * 2 ^ nat (i - j - 53)"
    have "(2::int) ^ nat i = X * 2 ^ 53"
      using pow2_split [of "i - j - 53" "j + 53"] pow2_split [of j 53] True j by (simp add: X_def)
    moreover have "b < 2 * X" "X \<le> b"
      using bq by (auto simp: X_def ab intro: mult_right_mono)
    ultimately show ?thesis using bp ab(1) by simp
  next
    case False
    have ab: "a = p * 2 ^ nat (53 + j - i)" "b = q"
      using s [unfolded e] False by (auto simp: scaled_def algebra_simps)
    define X where "X = (2::int) ^ nat i * 2 ^ nat (53 + j - i)"
    have "X = 2 ^ nat j * 2 ^ 53"
      using pow2_split [of i "53 + j - i"] pow2_split [of 53 j] False i j by (simp add: X_def)
    moreover have "a < 2 * X" "X \<le> a"
      using bp by (auto simp: X_def ab intro: mult_right_mono)
    ultimately show ?thesis using bq ab(2) by simp
  qed
  then show "2 ^ 52 * b \<le> a" and "a < 2 ^ 54 * b" by auto
qed

text \<open>The chosen exponent leaves a quotient of exactly 53 bits.\<close>

lemma round_exponent_normal:
  fixes p q :: int
  assumes "0 < p" and "0 < q" and "scaled p q (round_exponent p q) = (a, b)"
  shows "2 ^ 52 * b \<le> a \<and> a < 2 ^ 53 * b"
proof -
  define e where "e = bitlen p - bitlen q - 53"
  obtain a0 b0 where s0: "scaled p q e = (a0, b0)" by (cases "scaled p q e")
  note f = first_exponent [OF assms(1,2) s0 [unfolded e_def]]
  show ?thesis
  proof (cases "a0 \<ge> 2 ^ 53 * b0")
    case True
    then have "round_exponent p q = e + 1"
      using s0 by (simp add: round_exponent_def Let_def e_def)
    then show ?thesis using scaled_Suc [OF s0, of a b] assms(3) f True by auto
  next
    case False
    then have "round_exponent p q = e"
      using s0 by (simp add: round_exponent_def Let_def e_def)
    then show ?thesis using s0 assms(3) f False by simp
  qed
qed

lemma round_half_even_le: "0 < b \<Longrightarrow> a \<le> M * b \<Longrightarrow> round_half_even a b \<le> M"
proof -
  assume b: "0 < b" and a: "a \<le> M * b"
  have "a div b \<le> M" using zdiv_mono1 [OF a b] b by simp
  moreover have "a div b < M" if "a mod b > 0"
  proof -
    have "a div b * b < M * b" using that a div_mult_mod_eq [of a b] by linarith
    then show ?thesis using b by simp
  qed
  ultimately show ?thesis using b by (auto simp: round_half_even_def Let_def)
qed

lemma round_half_even_nonneg: "0 < b \<Longrightarrow> 0 \<le> a \<Longrightarrow> 0 \<le> round_half_even a b"
  by (auto simp: round_half_even_def Let_def pos_imp_zdiv_nonneg_iff intro: add_nonneg_nonneg)

text \<open>
  Rounding is monotone at the representable bound \<open>M * 2 ^ 10\<close>: a fraction below it rounds to a
  double that the conversion to \<open>int64_t\<close> accepts.
\<close>

lemma round_ratio_cast:
  fixes p q M :: int
  assumes p: "0 < p" and q: "0 < q" and M: "2 ^ 52 \<le> M" "M < 2 ^ 53" and le: "p \<le> M * 2 ^ 10 * q"
  shows "\<exists>v. int64_cast (round_ratio p q) = Some v \<and> 0 \<le> v \<and> v \<le> M * 2 ^ 10"
proof -
  define e where "e = round_exponent p q"
  obtain a b where s: "scaled p q e = (a, b)" by (cases "scaled p q e")
  define m where "m = round_half_even a b"
  have ab: "0 < a" "0 < b" using scaled_pos [OF p q s] by auto
  have norm: "2 ^ 52 * b \<le> a" "a < 2 ^ 53 * b"
    using round_exponent_normal [OF p q] s by (auto simp: e_def)
  have m0: "0 \<le> m" using ab by (simp add: m_def round_half_even_nonneg)
  have m53: "m \<le> 2 ^ 53" unfolding m_def using norm ab by (intro round_half_even_le) auto
  have e10: "e \<le> 10"
  proof (rule ccontr)
    assume "\<not> e \<le> 10"
    then have e: "e \<ge> 11" by simp
    then have "a = p" "b = q * 2 ^ nat e" using s by (auto simp: scaled_def)
    moreover have "(2::int) ^ 11 \<le> 2 ^ nat e" using e by (intro power_increasing) auto
    then have "2 ^ 52 * (q * 2 ^ 11) \<le> 2 ^ 52 * (q * 2 ^ nat e)" using q by simp
    ultimately have "2 ^ 52 * (q * 2 ^ 11) \<le> p" using norm(1) order_trans by blast
    moreover have "M * 2 ^ 10 * q < 2 ^ 53 * 2 ^ 10 * q" using M q by simp
    ultimately show False using le by simp
  qed
  have r: "round_ratio p q = Finite m e"
    using s by (simp add: round_ratio_def Let_def m_def e_def)
  have top: "M * 2 ^ 10 \<le> INT64_MAX" using M by (simp add: INT64_MAX_def)
  show ?thesis
  proof (cases "e \<ge> 0")
    case True
    have "m * 2 ^ nat e \<le> M * 2 ^ 10"
    proof (cases "e = 10")
      case True
      then have "a \<le> M * b" using le s by (simp add: scaled_def algebra_simps)
      then have "m \<le> M" unfolding m_def using ab by (intro round_half_even_le) auto
      with True show ?thesis by simp
    next
      case False
      then have "(2::int) ^ nat e \<le> 2 ^ 9" using e10 True by (intro power_increasing) auto
      then have "m * 2 ^ nat e \<le> 2 ^ 53 * 2 ^ 9" using m0 m53 by (intro mult_mono) auto
      then show ?thesis using M by simp
    qed
    moreover have "0 \<le> m * 2 ^ nat e" using m0 by simp
    ultimately show ?thesis using True r top by (auto simp: int64_cast_def Let_def INT64_MAX_def)
  next
    case False
    define v where "v = sgn m * (\<bar>m\<bar> div 2 ^ nat (- e))"
    have "0 \<le> m div 2 ^ nat (- e)" "m div 2 ^ nat (- e) \<le> m"
      using m0 zdiv_mono2 [of m 1 "2 ^ nat (- e)"] by (auto simp: pos_imp_zdiv_nonneg_iff)
    then have "0 \<le> v" "v \<le> m" using m0 by (auto simp: v_def sgn_if)
    moreover have "m \<le> M * 2 ^ 10" using m53 M by simp
    ultimately show ?thesis
      using False r top by (auto simp: int64_cast_def Let_def INT64_MAX_def v_def)
  qed
qed

section \<open>The conversion of legacy answers\<close>

text \<open>The two thresholds \<open>(double)INT64_MAX / scale\<close>.\<close>

lemma threshold_bytes: "dbl_div (round_ratio INT64_MAX 1) 1 = Finite (2 ^ 52) 11"
  by code_simp

lemma threshold_seconds:
  "dbl_div (round_ratio INT64_MAX 1) 1000000 = Finite 4722366482869645 (-9)"
  by code_simp

text \<open>
  Below the threshold the exact product with the scale stays under a representable bound that is
  itself below \<open>2 ^ 63\<close>.
\<close>

lemma below_threshold_bytes:
  assumes m: "0 < m" "m < 2 ^ 53" and f: "fraction_of m e = (p, q)"
    and lt: "\<not> dbl_ge (Finite m e) (Finite (2 ^ 52) 11)"
  shows "p * 1 \<le> (2 ^ 53 - 1) * 2 ^ 10 * q"
proof (cases "e \<ge> 10")
  case True
  have pq: "p = m * 2 ^ nat e" "q = 1" using f True by (auto simp: fraction_of_def)
  have "nat e = nat (e - 10) + 10" using True by simp
  then have k: "p = m * 2 ^ nat (e - 10) * 2 ^ 10" using pq by (simp add: power_add)
  have "p < 2 ^ 63" using lt pq True by (simp add: dbl_ge_def fraction_of_def)
  then have "m * 2 ^ nat (e - 10) < 2 ^ 53" using k by simp
  then have "m * 2 ^ nat (e - 10) \<le> 2 ^ 53 - 1" by simp
  then show ?thesis using k pq(2) by simp
next
  case small: False
  show ?thesis
  proof (cases "e \<ge> 0")
    case True
    have "(2::int) ^ nat e \<le> 2 ^ 9" using True small by (intro power_increasing) auto
    then have "m * 2 ^ nat e \<le> (2 ^ 53 - 1) * 2 ^ 9" using m by (intro mult_mono) auto
    then show ?thesis using f True by (auto simp: fraction_of_def)
  next
    case False
    then have pq: "p = m" "q = 2 ^ nat (- e)" using f by (auto simp: fraction_of_def)
    have "1 \<le> q" by (simp add: pq)
    then have "(2 ^ 53 - 1) * 2 ^ 10 * 1 \<le> (2 ^ 53 - 1) * 2 ^ 10 * q" by (intro mult_left_mono) auto
    then show ?thesis using m pq(1) by simp
  qed
qed

lemma below_threshold_seconds:
  assumes m: "0 < m" "m < 2 ^ 53" and f: "fraction_of m e = (p, q)"
    and lt: "\<not> dbl_ge (Finite m e) (Finite 4722366482869645 (-9))"
  shows "p * 1000000 \<le> (2 ^ 53 - 2) * 2 ^ 10 * q"
proof (cases "e \<ge> - 9")
  case True
  show ?thesis
  proof (cases "e \<ge> 0")
    case True
    then have pq: "p = m * 2 ^ nat e" "q = 1" using f by (auto simp: fraction_of_def)
    then have "p * 512 < 4722366482869645" using lt True by (simp add: dbl_ge_def fraction_of_def)
    then show ?thesis using pq by simp
  next
    case False
    then have pq: "p = m" "q = 2 ^ nat (- e)" using f by (auto simp: fraction_of_def)
    define r where "r = (2::int) ^ nat (e + 9)"
    have qr: "q * r = 512"
      using pow2_split [of "- e" "e + 9"] False \<open>e \<ge> - 9\<close> by (simp add: pq r_def)
    have "0 < r" by (simp add: r_def)
    have "p * 512 < 4722366482869645 * q" using lt False f by (simp add: dbl_ge_def fraction_of_def pq)
    then have "q * (p * r) < q * 4722366482869645" using qr by (simp add: algebra_simps)
    then have "p * r \<le> 4722366482869644" using pq by simp
    then have "(p * r) * 1000000 \<le> ((2 ^ 53 - 2) * 2 ^ 10) * 512" by simp
    then have "(p * 1000000) * r \<le> ((2 ^ 53 - 2) * 2 ^ 10 * q) * r"
      using qr by (simp add: algebra_simps)
    then show ?thesis using \<open>0 < r\<close> by (simp only: mult_le_cancel_right)
  qed
next
  case False
  then have pq: "p = m" "q = 2 ^ nat (- e)" using f by (auto simp: fraction_of_def)
  have "(2::int) ^ 10 \<le> q" unfolding pq using False by (intro power_increasing) auto
  then have "(2 ^ 53 - 2) * 2 ^ 10 * 2 ^ 10 \<le> (2 ^ 53 - 2) * 2 ^ 10 * q" by (intro mult_left_mono) auto
  moreover have "m * 1000000 \<le> (2 ^ 53 - 2) * 2 ^ 10 * 2 ^ 10" using m by simp
  ultimately show ?thesis using pq(1) by simp
qed

lemma fraction_pos: "0 < m \<Longrightarrow> fraction_of m e = (p, q) \<Longrightarrow> 0 < p \<and> 0 < q"
  by (auto simp: fraction_of_def split: if_splits)

lemma conversion_defined:
  assumes "wf_double x" and s: "s = 1 \<or> s = 1000000"
  shows "\<exists>v. nonnegative_double_to_int64 x s = Some v \<and> 0 \<le> v \<and> v \<le> INT64_MAX"
proof (cases "\<not> dbl_positive x \<or> dbl_ge x (dbl_div (round_ratio INT64_MAX 1) s)")
  case True
  then show ?thesis by (auto simp: nonnegative_double_to_int64_def INT64_MAX_def)
next
  case False
  then obtain m e where x: "x = Finite m e" and m: "0 < m" "m < 2 ^ 53"
    using assms(1) by (cases x) (auto simp: dbl_positive_def wf_double_def dbl_ge_def
      dbl_div_def round_ratio_def Let_def split: prod.splits)
  obtain p q where f: "fraction_of m e = (p, q)" by (cases "fraction_of m e")
  have pos: "0 < p" "0 < q" using fraction_pos [OF m(1) f] by auto
  have "\<exists>M. 2 ^ 52 \<le> M \<and> M < 2 ^ 53 \<and> p * s \<le> M * 2 ^ 10 * q"
  proof (cases "s = 1")
    case True
    then show ?thesis
      using below_threshold_bytes [OF m f] False x threshold_bytes
      by (intro exI [of _ "2 ^ 53 - 1"]) simp
  next
    case False
    then have "s = 1000000" using s by simp
    then show ?thesis
      using below_threshold_seconds [OF m f] \<open>\<not> (\<not> dbl_positive x \<or> _)\<close> x threshold_seconds
      by (intro exI [of _ "2 ^ 53 - 2"]) simp
  qed
  then obtain M where M: "2 ^ 52 \<le> M" "M < 2 ^ 53" "p * s \<le> M * 2 ^ 10 * q" by blast
  have "0 < p * s" using pos s by auto
  from round_ratio_cast [OF this pos(2) M] obtain v where
    "int64_cast (round_ratio (p * s) q) = Some v" "0 \<le> v" "v \<le> M * 2 ^ 10" by blast
  moreover have "M * 2 ^ 10 \<le> INT64_MAX" using M(2) by (simp add: INT64_MAX_def)
  ultimately show ?thesis
    using False x f by (auto simp: nonnegative_double_to_int64_def dbl_mul_def)
qed


section \<open>Ranges\<close>

definition in_range :: "int \<Rightarrow> bool" where
  "in_range v = (0 \<le> v \<and> v \<le> INT64_MAX)"

text \<open>Every metric is a non-negative \<open>int64_t\<close>.\<close>

definition metrics_ok :: "curl_metrics_context \<Rightarrow> bool" where
  "metrics_ok c =
     list_all in_range (the (curl_metrics_snapshot (Some c) (Some (replicate HCURL_METRICS_COUNT 0))))"

lemmas metrics_ok_simps = metrics_ok_def curl_metrics_snapshot_def HCURL_METRICS_COUNT_def Let_def

lemma create_ok: "curl_metrics_context_create b = Some c \<Longrightarrow> metrics_ok c"
  by (auto simp: curl_metrics_context_create_def metrics_ok_simps in_range_def INT64_MAX_def
    split: if_splits)

lemma flags_ok:
  "metrics_ok c \<Longrightarrow> pred_option metrics_ok (curl_metrics_streamed_download (Some c))"
  "metrics_ok c \<Longrightarrow> pred_option metrics_ok (curl_metrics_streamed_upload (Some c))"
  by (simp_all add: curl_metrics_streamed_download_def curl_metrics_streamed_upload_def
    metrics_ok_simps)

lemma add_ok:
  "metrics_ok c \<Longrightarrow> pred_option metrics_ok (curl_metrics_add_downloaded n (Some c))"
  "metrics_ok c \<Longrightarrow> pred_option metrics_ok (curl_metrics_add_uploaded n (Some c))"
  by (simp_all add: curl_metrics_add_downloaded_def curl_metrics_add_uploaded_def metrics_ok_simps
    in_range_def add_bytes_range)

definition answers_ok :: "curl_answers \<Rightarrow> bool" where
  "answers_ok ans = (\<forall>i. wf_double (snd (double_info ans i)))"

lemma off_t_range: "in_range (get_off_t_info ans i)"
  by (auto simp: get_off_t_info_def in_range_def INT64_MAX_def split: prod.splits)

lemma double_range:
  "answers_ok ans \<Longrightarrow> s = 1 \<or> s = 1000000 \<Longrightarrow>
   \<exists>v. get_double_info ans i s = Some v \<and> in_range v"
  using conversion_defined [of "snd (double_info ans i)" s]
  by (auto simp: get_double_info_def answers_ok_def in_range_def INT64_MAX_def split: prod.splits)

lemma size_range: "answers_ok ans \<Longrightarrow> \<exists>v. size_value hv rv ans i = Some v \<and> in_range v"
  by (auto simp: size_value_def off_t_range double_range)

lemma time_range: "answers_ok ans \<Longrightarrow> \<exists>v. time_value hv rv ans i = Some v \<and> in_range v"
  by (auto simp: time_value_def off_t_range double_range)

lemma optional_range:
  "in_range old \<Longrightarrow> \<exists>v. f = Some v \<and> in_range v \<Longrightarrow>
   \<exists>v. (if b then Some old else f) = Some v \<and> in_range v"
  "in_range old \<Longrightarrow> \<exists>v. f = Some v \<and> in_range v \<Longrightarrow>
   \<exists>v. (if b then f else Some old) = Some v \<and> in_range v"
  by auto

section \<open>Properties\<close>

text \<open>What the callbacks report during a transfer.\<close>

datatype metric_event = Downloaded size_t | Uploaded size_t

primrec metric_apply :: "metric_event \<Rightarrow> curl_metrics_context option \<Rightarrow> curl_metrics_context option" where
  "metric_apply (Downloaded n) c = curl_metrics_add_downloaded n c"
| "metric_apply (Uploaded n) c = curl_metrics_add_uploaded n c"

definition metrics_run :: "curl_metrics_context option \<Rightarrow> metric_event list \<Rightarrow> curl_metrics_context option" where
  "metrics_run = foldl (\<lambda>c e. metric_apply e c)"

definition total_down :: "metric_event list \<Rightarrow> nat" where
  "total_down es = (\<Sum>e\<leftarrow>es. case e of Downloaded n \<Rightarrow> n | Uploaded n \<Rightarrow> 0)"

definition total_up :: "metric_event list \<Rightarrow> nat" where
  "total_up es = (\<Sum>e\<leftarrow>es. case e of Downloaded n \<Rightarrow> 0 | Uploaded n \<Rightarrow> n)"

lemma metrics_run_counts:
  "metrics_ok c \<Longrightarrow> metrics_run (Some c) es =
     Some (c\<lparr>metrics_of := (metrics_of c)\<lparr>
       upload_progress := min INT64_MAX (upload_progress (metrics_of c) + int (total_up es)),
       download_progress := min INT64_MAX (download_progress (metrics_of c) + int (total_down es))\<rparr>\<rparr>)"
proof (induction es arbitrary: c)
  case Nil
  then show ?case
    by (simp add: metrics_run_def total_up_def total_down_def metrics_ok_simps in_range_def)
next
  case (Cons e es)
  obtain c' where c': "metric_apply e (Some c) = Some c'"
    by (cases e) (auto simp: curl_metrics_add_downloaded_def curl_metrics_add_uploaded_def)
  have "pred_option metrics_ok (metric_apply e (Some c))"
    using add_ok [OF Cons.prems] by (cases e) simp_all
  then have ok: "metrics_ok c'" by (simp add: c')
  have "metrics_run (Some c) (e # es) = metrics_run (Some c') es"
    using c' by (simp add: metrics_run_def)
  with Cons.IH [OF ok] Cons.prems c' show ?case
    by (cases e) (auto simp: curl_metrics_add_downloaded_def curl_metrics_add_uploaded_def
      add_bytes_saturates total_up_def total_down_def metrics_ok_simps in_range_def)
qed

text \<open>
  C34. The byte counters of a transfer count what its callbacks report, in any interleaving of
  uploads and downloads, saturating at \<open>INT64_MAX\<close> instead of overflowing; no other metric changes.
\<close>

theorem metrics_count_bytes:
  assumes "curl_metrics_context_create True = Some c"
  shows "metrics_run (Some c) es =
     Some (c\<lparr>metrics_of := (metrics_of c)\<lparr>
       upload_progress := min INT64_MAX (int (total_up es)),
       download_progress := min INT64_MAX (int (total_down es))\<rparr>\<rparr>)"
  using metrics_run_counts [OF create_ok [OF assms], of es] assms
  by (auto simp: curl_metrics_context_create_def)

theorem metrics_count_bytes_witness:
  "map_option (\<lambda>c. (upload_progress (metrics_of c), download_progress (metrics_of c)))
     (metrics_run (curl_metrics_context_create True) [Downloaded 5, Uploaded 3, Downloaded 7])
   = Some (3, 12)"
proof -
  obtain c where c: "curl_metrics_context_create True = Some c"
    by (simp add: curl_metrics_context_create_def)
  show ?thesis
    using metrics_count_bytes [OF c, of "[Downloaded 5, Uploaded 3, Downloaded 7]"]
    by (simp add: c total_up_def total_down_def INT64_MAX_def)
qed

text \<open>
  C30. The conversion of a legacy floating-point answer is defined for every double, infinities and
  NaN included: the cast to \<open>int64_t\<close> is reached only by products it can represent, although the
  threshold \<open>(double)INT64_MAX / scale\<close> and the product \<open>value * scale\<close> are both rounded. What does
  not exceed zero becomes zero, what reaches the threshold becomes \<open>INT64_MAX\<close>.
\<close>

theorem legacy_conversion_defined:
  assumes "wf_double x" and "s = 1 \<or> s = 1000000"
  shows "\<exists>v. nonnegative_double_to_int64 x s = Some v \<and> 0 \<le> v \<and> v \<le> INT64_MAX
    \<and> (\<not> dbl_positive x \<longrightarrow> v = 0)
    \<and> (dbl_positive x \<and> dbl_ge x (dbl_div (round_ratio INT64_MAX 1) s) \<longrightarrow> v = INT64_MAX)"
  using conversion_defined [OF assms] by (auto simp: nonnegative_double_to_int64_def)

theorem legacy_conversion_defined_witness:
  "(\<exists>v. nonnegative_double_to_int64 (Finite 3 (-1)) 1000000 = Some v \<and> 0 \<le> v \<and> v \<le> INT64_MAX)
   \<and> nonnegative_double_to_int64 (Finite 3 (-1)) 1000000 = Some 1500000"
proof
  show "\<exists>v. nonnegative_double_to_int64 (Finite 3 (-1)) 1000000 = Some v \<and> 0 \<le> v \<and> v \<le> INT64_MAX"
    using legacy_conversion_defined [of "Finite 3 (-1)" 1000000] by (auto simp: wf_double_def)
  show "nonnegative_double_to_int64 (Finite 3 (-1)) 1000000 = Some 1500000" by code_simp
qed

lemma finish_ok:
  assumes ok: "metrics_ok c" and ans: "answers_ok ans"
  shows "\<exists>c'. curl_metrics_finish hv rv ans easy (Some c) = Some (Some c') \<and> metrics_ok c'
    \<and> streamed_download c' = streamed_download c \<and> streamed_upload c' = streamed_upload c
    \<and> (streamed_download c \<longrightarrow> download_progress (metrics_of c') = download_progress (metrics_of c))
    \<and> (streamed_upload c \<longrightarrow> upload_progress (metrics_of c') = upload_progress (metrics_of c))"
proof (cases "easy = NULL")
  case True
  with ok show ?thesis by (simp add: curl_metrics_finish_def)
next
  case False
  note size = size_range [OF ans, of hv rv] and time = time_range [OF ans, of hv rv]
  let ?m = "metrics_of c"
  have m: "in_range (upload_progress ?m)" "in_range (download_progress ?m)"
    "in_range (appconnect_time ?m)"
    using ok by (auto simp: metrics_ok_simps)
  obtain up where up: "(if streamed_upload c then Some (upload_progress ?m)
      else size_value hv rv ans SIZE_UPLOAD) = Some up" "in_range up"
    using optional_range(1) [OF m(1) size] by blast
  obtain dp where dp: "(if streamed_download c then Some (download_progress ?m)
      else size_value hv rv ans SIZE_DOWNLOAD) = Some dp" "in_range dp"
    using optional_range(1) [OF m(2) size] by blast
  obtain ac where ac: "(if hv \<ge> 0x071300 \<and> rv \<ge> 0x071300 then time_value hv rv ans APPCONNECT_TIME
      else Some (appconnect_time ?m)) = Some ac" "in_range ac"
    using optional_range(2) [OF m(3) time] by blast
  obtain ut dt us ds where s: "size_value hv rv ans CONTENT_LENGTH_UPLOAD = Some ut" "in_range ut"
    "size_value hv rv ans CONTENT_LENGTH_DOWNLOAD = Some dt" "in_range dt"
    "size_value hv rv ans SPEED_UPLOAD = Some us" "in_range us"
    "size_value hv rv ans SPEED_DOWNLOAD = Some ds" "in_range ds"
    using size by metis
  obtain nl ct pt st tt rt where t: "time_value hv rv ans NAMELOOKUP_TIME = Some nl" "in_range nl"
    "time_value hv rv ans CONNECT_TIME = Some ct" "in_range ct"
    "time_value hv rv ans PRETRANSFER_TIME = Some pt" "in_range pt"
    "time_value hv rv ans STARTTRANSFER_TIME = Some st" "in_range st"
    "time_value hv rv ans TOTAL_TIME = Some tt" "in_range tt"
    "time_value hv rv ans REDIRECT_TIME = Some rt" "in_range rt"
    using time by metis
  show ?thesis
    using False up(1) dp(1) ac(1)
    by (simp add: curl_metrics_finish_def s t metrics_ok_simps up(2) dp(2) ac(2)) auto
qed

text \<open>
  C19. At completion the metrics are filled in without undefined behaviour whatever libcurl answers
  and whichever versions are compiled against and run with; every value stored is a non-negative
  \<open>int64_t\<close>, and a byte counter that the stream callbacks own is left as they counted it.
\<close>

theorem metrics_finish_defined:
  assumes "metrics_ok c" and "answers_ok ans"
  shows "\<exists>c'. curl_metrics_finish hv rv ans easy (Some c) = Some (Some c') \<and> metrics_ok c'
    \<and> streamed_download c' = streamed_download c \<and> streamed_upload c' = streamed_upload c
    \<and> (streamed_download c \<longrightarrow> download_progress (metrics_of c') = download_progress (metrics_of c))
    \<and> (streamed_upload c \<longrightarrow> upload_progress (metrics_of c') = upload_progress (metrics_of c))"
  using assms by (rule finish_ok)

theorem metrics_finish_defined_witness:
  "\<exists>c'. curl_metrics_finish 0x073000 0x073000
      \<lparr>off_t_info = (\<lambda>_. (CURLE_OK, 4)), double_info = (\<lambda>_. (CURLE_OK, Finite 5 1))\<rparr> 1
      (curl_metrics_context_create True) = Some (Some c') \<and> metrics_ok c'"
proof -
  obtain c where c: "curl_metrics_context_create True = Some c"
    by (simp add: curl_metrics_context_create_def)
  show ?thesis
    using metrics_finish_defined [OF create_ok [OF c], of
      "\<lparr>off_t_info = (\<lambda>_. (CURLE_OK, 4)), double_info = (\<lambda>_. (CURLE_OK, Finite 5 1))\<rparr>"
      "0x073000" "0x073000" 1]
    by (auto simp: c answers_ok_def wf_double_def)
qed

end
