(* ===== verification/Header_Data.thy ===== *)
theory Header_Data
  imports Hs_Extras "HOL-Library.Code_Target_Nat"
begin

text \<open>
  \<open>cbits/headers.c\<close>: the response headers of one transfer. Libcurl hands over one line at a time;
  the code collects the current block, replaces the completed block when the blank line comes,
  appends later lines as trailers, and decides when a waiting Haskell thread may see the response.

  The buffers are memory blocks with their size and capacity; a function whose result is an option
  is \<open>None\<close> where the code would write outside a block or read a byte never written. Every
  function takes its mutex for all it does to the record, so each is one atomic step. The
  outcomes of \<open>malloc\<close> and \<open>realloc\<close> are Boolean arguments.
\<close>

section \<open>The record\<close>

record header_data =
  current :: block
  current_size :: size_t
  current_capacity :: size_t
  completed_buf :: block
  completed_size :: size_t
  completed_capacity :: size_t
  current_status :: int
  completed_status :: int
  in_block :: bool
  ready :: bool
  response_available :: bool
  transfer_completed :: bool
  terminal_code :: CURLcode
  waiter_present :: bool
  waiter :: hs_waker

datatype header_wait_result = HEADER_WAIT_REGISTERED | HEADER_WAIT_READY | HEADER_WAIT_INVALID

section \<open>Growing buffers\<close>

text \<open>A buffer is its block, the length of its text and its capacity.\<close>

definition reserve :: "bool \<Rightarrow> block \<Rightarrow> size_t \<Rightarrow> size_t \<Rightarrow> bool \<times> block \<times> size_t" where
  "reserve realloc_ok buffer capacity required =
     (if required \<le> capacity then (True, buffer, capacity)
      else
        let grown = grow_until (if capacity > 0 then capacity else 1) required
        in if \<not> realloc_ok then (False, buffer, capacity)
           else (True, block_realloc buffer grown, grown))"

definition append_text ::
    "bool \<Rightarrow> byte list \<Rightarrow> block \<times> size_t \<times> size_t \<Rightarrow> (bool \<times> block \<times> size_t \<times> size_t) option" where
  "append_text realloc_ok data b =
     (case b of (buffer, len, capacity) \<Rightarrow>
        if length data > sz_sub (sz_sub SIZE_MAX len) 1 then Some (False, buffer, len, capacity)
        else
          let required = sz_add (sz_add len (length data)) 1
          in case reserve realloc_ok buffer capacity required of
               (False, buffer', capacity') \<Rightarrow> Some (False, buffer', len, capacity')
             | (True, buffer', capacity') \<Rightarrow> do {
                 buffer1 \<leftarrow> block_write buffer' len data;
                 let len' = sz_add len (length data);
                 buffer2 \<leftarrow> block_write buffer1 len' [CHR 0x00];
                 Some (True, buffer2, len', capacity')
               })"

section \<open>Reading a line\<close>

definition is_status_line :: "byte list \<Rightarrow> bool" where
  "is_status_line line = (length line \<ge> 5 \<and> take 5 line = ''HTTP/'')"

definition is_digit :: "byte \<Rightarrow> bool" where
  "is_digit c = ((of_char c :: nat) \<ge> 48 \<and> (of_char c :: nat) \<le> 57)"

text \<open>The second loop of \<open>parse_status\<close>: at most three digits.\<close>

fun scan_digits :: "byte list \<Rightarrow> int \<Rightarrow> nat \<Rightarrow> int \<times> nat" where
  "scan_digits [] status digits = (status, digits)"
| "scan_digits (c # cs) status digits =
     (if is_digit c \<and> digits < 3
      then scan_digits cs (status * 10 + (of_char c - 48)) (digits + 1)
      else (status, digits))"

definition parse_status :: "byte list \<Rightarrow> int" where
  "parse_status line =
     (case dropWhile (\<lambda>c. c \<noteq> CHR '' '') line of
        [] \<Rightarrow> 0
      | space \<Rightarrow>
          (case scan_digits (dropWhile (\<lambda>c. c = CHR '' '') space) 0 0 of
             (status, digits) \<Rightarrow> if digits = 3 then status else 0))"

definition is_blank_line :: "byte list \<Rightarrow> bool" where
  "is_blank_line line = (line = [CHR 0x0A] \<or> line = [CHR 0x0D, CHR 0x0A])"

text \<open>The inner loop at one offset: whether it reaches the end of the needle.\<close>

fun matches_at :: "byte list \<Rightarrow> byte list \<Rightarrow> bool" where
  "matches_at data [] = True"
| "matches_at [] (n # ns) = False"
| "matches_at (d # ds) (n # ns) = (ascii_lower d = ascii_lower n \<and> matches_at ds ns)"

text \<open>The outer loop: the offsets with enough bytes left for the needle.\<close>

fun search_from :: "byte list \<Rightarrow> byte list \<Rightarrow> bool" where
  "search_from data needle =
     (if length data < length needle then False
      else if matches_at data needle then True
      else (case data of [] \<Rightarrow> False | _ # ds \<Rightarrow> search_from ds needle))"

definition contains_ascii_case_insensitive :: "byte list \<Rightarrow> byte list \<Rightarrow> bool" where
  "contains_ascii_case_insensitive data needle =
     (if needle = [] \<or> length data < length needle then False else search_from data needle)"

section \<open>Life cycle\<close>

definition header_data_create ::
    "bool \<Rightarrow> bool \<Rightarrow> bool \<Rightarrow> bool \<Rightarrow> size_t \<Rightarrow> header_data option option" where
  "header_data_create calloc_ok current_ok completed_ok mutex_ok initial_capacity =
     (let capacity = (if initial_capacity > 0 then initial_capacity else 1)
      in if \<not> calloc_ok then Some None
         else if \<not> current_ok \<or> \<not> completed_ok \<or> \<not> mutex_ok then Some None
         else do {
           cur \<leftarrow> block_write (block_alloc capacity) 0 [CHR 0x00];
           comp \<leftarrow> block_write (block_alloc capacity) 0 [CHR 0x00];
           Some (Some \<lparr>current = cur, current_size = 0, current_capacity = capacity,
             completed_buf = comp, completed_size = 0, completed_capacity = capacity,
             current_status = 0, completed_status = 0, in_block = False, ready = False,
             response_available = False, transfer_completed = False, terminal_code = 0,
             waiter_present = False,
             waiter = \<lparr>mvar = NULL, capability = 0, waked = False\<rparr>\<rparr>)
         })"

datatype header_option =
    CURLOPT_HEADERDATA addr
  | CURLOPT_HEADERFUNCTION
  | CURLOPT_SUPPRESS_CONNECT_HEADERS int

definition header_data_install ::
    "nat \<Rightarrow> (header_option \<Rightarrow> CURLcode) \<Rightarrow> CURL \<Rightarrow> addr \<Rightarrow> CURLcode \<times> header_option list" where
  "header_data_install header_version setopt easy headers =
     (if easy = NULL \<or> headers = NULL then (CURLE_BAD_FUNCTION_ARGUMENT, [])
      else setopt_seq setopt
        ([CURLOPT_HEADERDATA headers, CURLOPT_HEADERFUNCTION]
         @ (if header_version \<ge> 0x073600 then [CURLOPT_SUPPRESS_CONNECT_HEADERS 1] else [])))"

text \<open>
  Four functions take the waiter out under the mutex and wake their copy after unlocking; the result
  is the call they make and the record as they leave it.
\<close>

definition fire_waiter :: "header_data \<Rightarrow> event list \<times> header_data" where
  "fire_waiter h =
     (if waiter_present h
      then (fst (wake_up_waker (waiter h)), h\<lparr>waiter_present := False\<rparr>)
      else ([], h))"

text \<open>The record is freed afterwards, so only the calls remain.\<close>

definition free_header_data :: "header_data option \<Rightarrow> event list" where
  "free_header_data hp = (case hp of None \<Rightarrow> [] | Some h \<Rightarrow> fst (fire_waiter h))"

section \<open>The header callback\<close>

definition publish_early :: "int \<Rightarrow> byte list \<Rightarrow> bool" where
  "publish_early status block_text =
     (let proxy_connect = (status = 200
            \<and> contains_ascii_case_insensitive block_text ''connection established'')
      in (status = 101 \<or> status \<ge> 200) \<and> \<not> (status \<ge> 300 \<and> status < 400)
         \<and> status \<noteq> 401 \<and> status \<noteq> 407 \<and> \<not> proxy_connect)"

text \<open>The first statement under the lock: a status line starts a new block.\<close>

definition start_block :: "byte list \<Rightarrow> header_data \<Rightarrow> header_data option" where
  "start_block line h =
     (if is_status_line line then do {
        cur \<leftarrow> block_write (current h) 0 [CHR 0x00];
        Some (h\<lparr>current_size := 0, current := cur, current_status := parse_status line,
          in_block := True\<rparr>)
      } else Some h)"

text \<open>The blank line: the buffers change roles and the response may be published.\<close>

definition finish_block :: "header_data \<Rightarrow> (event list \<times> header_data) option" where
  "finish_block h = do {
     cur \<leftarrow> block_write (completed_buf h) 0 [CHR 0x00];
     let h1 = h\<lparr>completed_buf := current h, completed_size := current_size h,
       completed_capacity := current_capacity h, completed_status := current_status h,
       current := cur, current_size := 0, current_capacity := completed_capacity h,
       in_block := False\<rparr>;
     text \<leftarrow> block_read (completed_buf h1) 0 (completed_size h1);
     Some (if publish_early (completed_status h1) text
           then fire_waiter (h1\<lparr>response_available := True, ready := True\<rparr>)
           else ([], h1))
   }"

text \<open>Everything between lock and unlock, and the wake-up after it.\<close>

definition header_line :: "bool \<Rightarrow> byte list \<Rightarrow> header_data \<Rightarrow> (bool \<times> event list \<times> header_data) option" where
  "header_line realloc_ok line h0 = do {
     h \<leftarrow> start_block line h0;
     if in_block h then do {
       (success, b, len, cap) \<leftarrow>
         append_text realloc_ok line (current h, current_size h, current_capacity h);
       let h1 = h\<lparr>current := b, current_size := len, current_capacity := cap\<rparr>;
       if success \<and> is_blank_line line then do {
         (evs, h2) \<leftarrow> finish_block h1;
         Some (success, evs, h2)
       } else Some (success, [], h1)
     } else if completed_size h > 0 then do {
       (success, b, len, cap) \<leftarrow>
         append_text realloc_ok line (completed_buf h, completed_size h, completed_capacity h);
       Some (success, [], h\<lparr>completed_buf := b, completed_size := len, completed_capacity := cap\<rparr>)
     } else Some (True, [], h)
   }"

text \<open>\<open>buffer\<close> is the memory libcurl passes; reading past its end is undefined.\<close>

definition header_callback ::
    "bool \<Rightarrow> byte list \<Rightarrow> size_t \<Rightarrow> size_t \<Rightarrow> header_data option
     \<Rightarrow> (size_t \<times> event list \<times> header_data option) option" where
  "header_callback realloc_ok buffer sz nitems userdata =
     (case userdata of
        None \<Rightarrow> Some (0, [], None)
      | Some h \<Rightarrow>
          if sz \<noteq> 0 \<and> nitems > SIZE_MAX div sz then Some (0, [], Some h)
          else
            let total = sz_mul sz nitems
            in if total = 0 then Some (0, [], Some h)
               else if total > length buffer then None
               else do {
                 (success, evs, h') \<leftarrow> header_line realloc_ok (take total buffer) h;
                 Some (if success then total else 0, evs, Some h')
               })"

section \<open>Reading and waiting\<close>

record header_snapshot =
  snap_buffer :: block
  snap_length :: size_t
  snap_status :: int
  snap_terminal_before_response :: "int option"
  snap_terminal_code :: "int option"

text \<open>
  \<open>outputs\<close> says that the three required output pointers are non-null, \<open>want_terminal\<close> and
  \<open>want_code\<close> that the optional ones are. The outer option is \<open>None\<close> for undefined behaviour, the
  inner one for the result \<open>false\<close>.
\<close>

definition header_data_snapshot ::
    "bool \<Rightarrow> bool \<Rightarrow> bool \<Rightarrow> bool \<Rightarrow> header_data option \<Rightarrow> header_snapshot option option" where
  "header_data_snapshot malloc_ok outputs want_terminal want_code hp =
     (case hp of
        None \<Rightarrow> Some None
      | Some h \<Rightarrow>
          if \<not> outputs then Some None
          else if \<not> malloc_ok then Some None
          else do {
            let len = completed_size h;
            let fresh = block_alloc (sz_add len 1);
            text \<leftarrow> block_read (completed_buf h) 0 len;
            copied \<leftarrow> block_write fresh 0 text;
            snapshot \<leftarrow> block_write copied len [CHR 0x00];
            Some (Some \<lparr>snap_buffer = snapshot, snap_length = len, snap_status = completed_status h,
              snap_terminal_before_response =
                (if want_terminal
                 then Some (if transfer_completed h \<and> \<not> response_available h then 1 else 0)
                 else None),
              snap_terminal_code = (if want_code then Some (terminal_code h) else None)\<rparr>)
          })"

definition header_data_wait ::
    "HsStablePtr \<Rightarrow> int \<Rightarrow> header_data option \<Rightarrow> header_wait_result \<times> header_data option" where
  "header_data_wait mv cap hp =
     (case hp of
        None \<Rightarrow> (HEADER_WAIT_INVALID, None)
      | Some h \<Rightarrow>
          if mv = NULL then (HEADER_WAIT_INVALID, Some h)
          else if ready h then (HEADER_WAIT_READY, Some h)
          else if waiter_present h then (HEADER_WAIT_INVALID, Some h)
          else (HEADER_WAIT_REGISTERED,
            Some (h\<lparr>waiter := \<lparr>mvar = mv, capability = cap, waked = False\<rparr>, waiter_present := True\<rparr>)))"

definition header_data_cancel_wait :: "HsStablePtr \<Rightarrow> header_data option \<Rightarrow> bool \<times> header_data option" where
  "header_data_cancel_wait mv hp =
     (case hp of
        None \<Rightarrow> (False, None)
      | Some h \<Rightarrow>
          if mv = NULL then (False, Some h)
          else if waiter_present h \<and> mvar (waiter h) = mv
          then (True, Some (h\<lparr>waiter_present := False, waiter := (waiter h)\<lparr>mvar := NULL\<rparr>\<rparr>))
          else (False, Some h))"

definition mark_ready :: "bool \<Rightarrow> header_data option \<Rightarrow> event list \<times> header_data option" where
  "mark_ready available hp =
     (case hp of
        None \<Rightarrow> ([], None)
      | Some h \<Rightarrow>
          let h1 = (if available \<and> completed_status h \<noteq> 0 then h\<lparr>response_available := True\<rparr> else h);
              (evs, h2) = fire_waiter (h1\<lparr>ready := True\<rparr>)
          in (evs, Some h2))"

definition header_data_mark_body_started ::
    "header_data option \<Rightarrow> event list \<times> header_data option" where
  "header_data_mark_body_started = mark_ready True"

definition header_data_mark_complete ::
    "CURLcode \<Rightarrow> header_data option \<Rightarrow> event list \<times> header_data option" where
  "header_data_mark_complete code hp =
     (case hp of
        None \<Rightarrow> ([], None)
      | Some h \<Rightarrow>
          let (evs, h1) = fire_waiter (h\<lparr>transfer_completed := True, terminal_code := code, ready := True\<rparr>)
          in (evs, Some h1))"

section \<open>Buffers hold their text\<close>

definition text_rep :: "block \<times> size_t \<times> size_t \<Rightarrow> byte list \<Rightarrow> bool" where
  "text_rep b t \<longleftrightarrow> (case b of (buffer, len, capacity) \<Rightarrow>
     block_holds buffer (t @ [CHR 0x00]) \<and> len = length t \<and> capacity = length buffer
     \<and> capacity \<le> SIZE_MAX)"

definition text_fits :: "byte list \<Rightarrow> byte list \<Rightarrow> bool" where
  "text_fits t d \<longleftrightarrow> length t + length d + 1 \<le> SIZE_MAX"

lemma text_rep_less: "text_rep (b, len, cap) t \<Longrightarrow> len < cap \<and> len = length t \<and> cap \<le> SIZE_MAX"
  by (auto simp: text_rep_def block_holds_def)

lemma text_rep_read: "text_rep (b, len, cap) t \<Longrightarrow> block_read b 0 len = Some t"
  by (auto simp: text_rep_def intro: block_read_holds block_holds_prefix)

lemma text_rep_reset:
  assumes "text_rep (b, len, cap) t"
  shows "\<exists>b'. block_write b 0 [CHR 0x00] = Some b' \<and> text_rep (b', 0, cap) []"
  using block_holds_append [of b "[]" "[CHR 0x00]"] text_rep_less [OF assms] assms
  by (auto simp: text_rep_def)

lemma reserve_rep:
  assumes "text_rep (b, len, cap) t" and "required \<le> SIZE_MAX"
    and "reserve m b cap required = (ok, b', cap')"
  shows "block_holds b' t \<and> cap' = length b' \<and> cap' \<le> SIZE_MAX \<and> (ok \<longrightarrow> required \<le> cap')
    \<and> (\<not> ok \<longrightarrow> b' = b \<and> cap' = cap) \<and> (m \<longrightarrow> ok)"
proof (cases "required \<le> cap")
  case True
  with assms show ?thesis by (auto simp: reserve_def text_rep_def intro: block_holds_prefix)
next
  case False
  have cap: "len < cap" "len = length t" "cap \<le> SIZE_MAX" using text_rep_less [OF assms(1)] by auto
  let ?g = "grow_until cap required"
  have "required \<le> ?g" by (rule grow_until_ge)
  moreover have "?g \<le> SIZE_MAX" using cap assms(2) by (intro grow_until_le_SIZE_MAX)
  moreover have "block_holds b t" using assms(1) by (auto simp: text_rep_def intro: block_holds_prefix)
  ultimately show ?thesis
    using assms(1,3) False cap
    by (auto simp: reserve_def text_rep_def Let_def intro!: block_holds_realloc split: if_splits)
qed

lemma append_text_law:
  assumes r: "text_rep b t" and d: "length d \<le> SIZE_MAX"
  shows "\<exists>ok b'. append_text m d b = Some (ok, b') \<and> text_rep b' (if ok then t @ d else t)
    \<and> (m \<and> text_fits t d \<longrightarrow> ok) \<and> (\<not> text_fits t d \<longrightarrow> \<not> ok)"
proof -
  obtain buf len cap where b: "b = (buf, len, cap)" by (cases b)
  have len: "len < cap" "len = length t" "cap \<le> SIZE_MAX"
    using text_rep_less [of buf len cap t] r b by auto
  have guard: "length d > sz_sub (sz_sub SIZE_MAX len) 1 \<longleftrightarrow> \<not> text_fits t d"
    using len by (auto simp: size_simps text_fits_def)
  show ?thesis
  proof (cases "text_fits t d")
    case False
    with guard r show ?thesis
      by (intro exI [of _ False] exI [of _ b]) (simp add: append_text_def b)
  next
    case True
    then have req: "sz_add (sz_add len (length d)) 1 = length t + length d + 1"
      and add: "sz_add len (length d) = length t + length d"
      using len by (simp_all add: size_simps text_fits_def)
    obtain ok b1 cap1 where res: "reserve m buf cap (length t + length d + 1) = (ok, b1, cap1)"
      by (cases "reserve m buf cap (length t + length d + 1)")
    note rr = reserve_rep [OF r [unfolded b] _ res] True [unfolded text_fits_def]
    show ?thesis
    proof (cases ok)
      case False
      with rr res guard True req b r show ?thesis by (auto simp: append_text_def)
    next
      case True
      with rr have "block_holds b1 t" "length t + length d + 1 \<le> length b1" by auto
      from block_append_terminated [OF this] obtain b2 b3 where
        "block_write b1 len d = Some b2" "block_write b2 (length t + length d) [CHR 0x00] = Some b3"
        "block_holds b3 ((t @ d) @ [CHR 0x00])" "length b3 = length b1"
        using len by auto
      then show ?thesis
        using rr True res guard \<open>text_fits t d\<close> req add b
        by (auto simp: append_text_def text_rep_def)
    qed
  qed
qed

interpretation hbuf: text_buffer text_rep append_text text_fits
  by unfold_locales (rule append_text_law)

section \<open>Scanning\<close>

lemma matches_at_iff:
  "matches_at data needle \<longleftrightarrow>
     length needle \<le> length data \<and>
     map ascii_lower (take (length needle) data) = map ascii_lower needle"
  by (induction data needle rule: matches_at.induct) auto

declare search_from.simps [simp del]

lemma search_from_iff:
  "search_from data needle \<longleftrightarrow>
     (\<exists>pre mid post. data = pre @ mid @ post \<and> map ascii_lower mid = map ascii_lower needle)"
proof (induction data)
  case Nil
  show ?case by (subst search_from.simps) (auto simp: matches_at_iff)
next
  case (Cons d ds)
  have at: "matches_at (d # ds) needle \<longleftrightarrow>
      (\<exists>mid post. d # ds = mid @ post \<and> map ascii_lower mid = map ascii_lower needle)"
  proof
    assume "matches_at (d # ds) needle"
    then show "\<exists>mid post. d # ds = mid @ post \<and> map ascii_lower mid = map ascii_lower needle"
      unfolding matches_at_iff by (metis append_take_drop_id)
  next
    assume "\<exists>mid post. d # ds = mid @ post \<and> map ascii_lower mid = map ascii_lower needle"
    then obtain mid post where m: "d # ds = mid @ post" "map ascii_lower mid = map ascii_lower needle"
      by blast
    then have "length mid = length needle" using map_eq_imp_length_eq by blast
    with m show "matches_at (d # ds) needle" unfolding matches_at_iff by simp
  qed
  define found where "found xs \<longleftrightarrow> (\<exists>pre mid post. xs = pre @ mid @ post
      \<and> map ascii_lower mid = map ascii_lower needle)" for xs
  have short: "length needle \<le> length xs" if "found xs" for xs
  proof -
    from that [unfolded found_def] obtain pre mid post
      where "xs = pre @ mid @ post" "map ascii_lower mid = map ascii_lower needle"
      by (elim exE conjE)
    then show ?thesis using map_eq_imp_length_eq [of ascii_lower mid ascii_lower needle] by simp
  qed
  have "found (d # ds) \<longleftrightarrow> matches_at (d # ds) needle \<or> found ds"
  proof
    assume "found (d # ds)"
    then obtain pre mid post where f: "d # ds = pre @ mid @ post"
      "map ascii_lower mid = map ascii_lower needle"
      unfolding found_def by (elim exE conjE)
    then show "matches_at (d # ds) needle \<or> found ds"
    proof (cases pre)
      case Nil
      with f show ?thesis unfolding at by auto
    next
      case (Cons p pre')
      with f show ?thesis unfolding found_def by auto
    qed
  next
    assume "matches_at (d # ds) needle \<or> found ds"
    then show "found (d # ds)"
    proof
      assume "matches_at (d # ds) needle"
      then show "found (d # ds)" unfolding at found_def by - (rule exI [of _ "[]"], simp)
    next
      assume "found ds"
      then obtain pre mid post where f: "ds = pre @ mid @ post"
        "map ascii_lower mid = map ascii_lower needle"
        unfolding found_def by (elim exE conjE)
      then show "found (d # ds)" unfolding found_def
        by (intro exI [of _ "d # pre"] exI [of _ mid] exI [of _ post]) simp
    qed
  qed
  moreover have "search_from ds needle \<longleftrightarrow> found ds" unfolding found_def by (rule Cons.IH)
  ultimately have "search_from (d # ds) needle \<longleftrightarrow> found (d # ds)"
    using short [of "d # ds"] by (subst search_from.simps) auto
  then show ?case by (simp only: found_def)
qed

section \<open>The abstract header machine\<close>

text \<open>
  What the callback does to texts: the block being received, the last complete one with its
  trailers, and whether a response was published.
\<close>

record header_spec =
  cur_text :: "byte list"
  done_text :: "byte list"
  cur_status :: int
  done_status :: int
  open_block :: bool
  published :: bool

definition spec_init :: header_spec where
  "spec_init = \<lparr>cur_text = [], done_text = [], cur_status = 0, done_status = 0, open_block = False,
     published = False\<rparr>"

definition spec_start :: "byte list \<Rightarrow> header_spec \<Rightarrow> header_spec" where
  "spec_start line x =
     (if is_status_line line
      then x\<lparr>cur_text := [], cur_status := parse_status line, open_block := True\<rparr> else x)"

definition spec_line :: "byte list \<Rightarrow> header_spec \<Rightarrow> header_spec" where
  "spec_line line x0 =
     (let x = spec_start line x0
      in if open_block x then
           (let t = cur_text x @ line
            in if is_blank_line line
               then x\<lparr>cur_text := [], done_text := t, done_status := cur_status x,
                 open_block := False, published := published x \<or> publish_early (cur_status x) t\<rparr>
               else x\<lparr>cur_text := t\<rparr>)
         else if done_text x \<noteq> [] then x\<lparr>done_text := done_text x @ line\<rparr> else x)"

definition header_rep :: "header_data \<Rightarrow> header_spec \<Rightarrow> bool" where
  "header_rep h x \<longleftrightarrow>
     text_rep (current h, current_size h, current_capacity h) (cur_text x)
     \<and> text_rep (completed_buf h, completed_size h, completed_capacity h) (done_text x)
     \<and> current_status h = cur_status x \<and> completed_status h = done_status x
     \<and> in_block h = open_block x"

text \<open>A pointer waits only before the response is ready, and is one that a wake-up would consume.\<close>

definition waiter_ok :: "header_data \<Rightarrow> bool" where
  "waiter_ok h \<longleftrightarrow> (waiter_present h \<longrightarrow>
     \<not> ready h \<and> mvar (waiter h) \<noteq> NULL \<and> \<not> waked (waiter h))"

definition header_waiting :: "header_data \<Rightarrow> (HsStablePtr \<times> int) list" where
  "header_waiting h = (if waiter_present h then [(mvar (waiter h), capability (waiter h))] else [])"

lemma fire_waiter_law:
  assumes "waiter_ok h \<or> waiter_ok (h\<lparr>ready := False\<rparr>)" and "fire_waiter h = (evs, h')"
  shows "put_calls evs = header_waiting h \<and> \<not> waiter_present h' \<and> header_waiting h' = []
    \<and> h' = h\<lparr>waiter_present := False\<rparr>"
  using assms by (auto simp: fire_waiter_def waiter_ok_def header_waiting_def wake_up_waker_def
    split: if_splits)

lemma create_rep:
  assumes "header_data_create True True True True c = Some (Some h)" and "c \<le> SIZE_MAX"
  shows "header_rep h spec_init" and "waiter_ok h" and "\<not> ready h" and "header_waiting h = []"
  using assms by (auto simp: header_data_create_def block_write_def block_alloc_def header_rep_def
    spec_init_def text_rep_def block_holds_def waiter_ok_def header_waiting_def Let_def SIZE_MAX_def
    split: if_splits)

lemma create_defined: "\<exists>r. header_data_create a b c d n = Some r"
  by (auto simp: header_data_create_def block_write_def block_alloc_def Let_def)

text \<open>One line: defined, accepted unless memory runs out, and what it does to the texts.\<close>

lemma start_block_rep:
  assumes "header_rep h x"
  shows "\<exists>h'. start_block line h = Some h' \<and> header_rep h' (spec_start line x)
    \<and> waiter_present h' = waiter_present h \<and> waiter h' = waiter h \<and> ready h' = ready h"
  using assms text_rep_reset [of "current h" "current_size h" "current_capacity h" "cur_text x"]
  by (cases "is_status_line line") (auto simp: start_block_def spec_start_def header_rep_def)

lemma finish_block_rep:
  assumes r: "header_rep h x" and w: "waiter_ok h"
    and x': "x' = x\<lparr>cur_text := [], done_text := cur_text x, done_status := cur_status x,
      open_block := False, published := published x \<or> publish_early (cur_status x) (cur_text x)\<rparr>"
  shows "\<exists>evs h'. finish_block h = Some (evs, h') \<and> header_rep h' x' \<and> waiter_ok h'
    \<and> header_waiting h = put_calls evs @ header_waiting h'
    \<and> ready h' = (ready h \<or> publish_early (cur_status x) (cur_text x))"
proof -
  obtain cur where cur: "block_write (completed_buf h) 0 [CHR 0x00] = Some cur"
    "text_rep (cur, 0, completed_capacity h) []"
    using r text_rep_reset unfolding header_rep_def by blast
  have rd: "block_read (current h) 0 (current_size h) = Some (cur_text x)"
    using r text_rep_read unfolding header_rep_def by blast
  show ?thesis
    using r w cur rd
    by (auto simp: finish_block_def x' header_rep_def fire_waiter_def wake_up_waker_def waiter_ok_def
      header_waiting_def Let_def)
qed

definition line_fits :: "byte list \<Rightarrow> header_spec \<Rightarrow> bool" where
  "line_fits line x \<longleftrightarrow>
     text_fits (if open_block (spec_start line x) then cur_text (spec_start line x) else done_text x) line"

lemma header_line_rep:
  assumes r0: "header_rep h0 x0" and w0: "waiter_ok h0" and len: "length line \<le> SIZE_MAX"
  shows "\<exists>ok evs h'. header_line m line h0 = Some (ok, evs, h')
    \<and> header_rep h' (if ok then spec_line line x0 else spec_start line x0) \<and> waiter_ok h'
    \<and> header_waiting h0 = put_calls evs @ header_waiting h'
    \<and> (\<forall>q. ready h0 = (q \<or> published x0) \<longrightarrow> ready h' = (q \<or> published (if ok then spec_line line x0 else x0)))
    \<and> (m \<and> line_fits line x0 \<longrightarrow> ok)"
proof -
  let ?x = "spec_start line x0"
  obtain h where h: "start_block line h0 = Some h" "header_rep h ?x" and
    w: "waiter_present h = waiter_present h0" "waiter h = waiter h0" "ready h = ready h0"
    using start_block_rep [OF r0] by blast
  have pub: "published ?x = published x0" and dn: "done_text ?x = done_text x0"
    by (simp_all add: spec_start_def)
  have wh: "waiter_ok h" "header_waiting h = header_waiting h0"
    using w0 w by (simp_all add: waiter_ok_def header_waiting_def)
  show ?thesis
  proof (cases "in_block h")
    case True
    then have ob: "open_block ?x" using h(2) by (simp add: header_rep_def)
    obtain ok b ln cap where a:
      "append_text m line (current h, current_size h, current_capacity h) = Some (ok, b, ln, cap)"
      "text_rep (b, ln, cap) (if ok then cur_text ?x @ line else cur_text ?x)"
      "m \<and> text_fits (cur_text ?x) line \<longrightarrow> ok"
      using hbuf.append_law [of "(current h, current_size h, current_capacity h)" "cur_text ?x" line m]
        h(2) len by (auto simp: header_rep_def)
    let ?h1 = "h\<lparr>current := b, current_size := ln, current_capacity := cap\<rparr>"
    let ?x1 = "if ok then ?x\<lparr>cur_text := cur_text ?x @ line\<rparr> else ?x"
    have r1: "header_rep ?h1 ?x1" using h(2) a(2) by (auto simp: header_rep_def)
    have w1: "waiter_ok ?h1" "header_waiting ?h1 = header_waiting h0" "ready ?h1 = ready h0"
      using wh w by (simp_all add: waiter_ok_def header_waiting_def)
    show ?thesis
    proof (cases "ok \<and> is_blank_line line")
      case True
      then obtain evs h2 where f: "finish_block ?h1 = Some (evs, h2)" "waiter_ok h2"
        "header_rep h2 (spec_line line x0)" "header_waiting h0 = put_calls evs @ header_waiting h2"
        "ready h2 = (ready h0 \<or> publish_early (cur_status ?x) (cur_text ?x @ line))"
        using finish_block_rep [OF r1 w1(1) refl] ob w1 by (auto simp: spec_line_def Let_def)
      then show ?thesis
        using True h(1) \<open>in_block h\<close> a(1) ob pub
        by (auto simp: header_line_def spec_line_def Let_def)
    next
      case False
      have "header_rep ?h1 (if ok then spec_line line x0 else ?x)"
        using r1 ob False by (auto simp: spec_line_def Let_def)
      then show ?thesis
        using False h(1) \<open>in_block h\<close> a(1,3) ob pub w1
        by (auto simp: header_line_def spec_line_def Let_def line_fits_def)
    qed
  next
    case False
    then have ob: "\<not> open_block ?x" using h(2) by (simp add: header_rep_def)
    show ?thesis
    proof (cases "completed_size h > 0")
      case True
      then have ne: "done_text ?x \<noteq> []"
        using h(2) by (auto simp: header_rep_def text_rep_def)
      obtain ok b ln cap where a: "append_text m line
          (completed_buf h, completed_size h, completed_capacity h) = Some (ok, b, ln, cap)"
        "text_rep (b, ln, cap) (if ok then done_text ?x @ line else done_text ?x)"
        "m \<and> text_fits (done_text ?x) line \<longrightarrow> ok"
        using hbuf.append_law [of "(completed_buf h, completed_size h, completed_capacity h)"
          "done_text ?x" line m] h(2) len by (auto simp: header_rep_def)
      let ?h1 = "h\<lparr>completed_buf := b, completed_size := ln, completed_capacity := cap\<rparr>"
      have "header_rep ?h1 (if ok then spec_line line x0 else ?x)"
        using h(2) a(2) ob ne by (auto simp: header_rep_def spec_line_def Let_def)
      moreover have "waiter_ok ?h1" "header_waiting ?h1 = header_waiting h0" "ready ?h1 = ready h0"
        using wh w by (simp_all add: waiter_ok_def header_waiting_def)
      ultimately show ?thesis
        using True False h(1) a(1,3) ob ne pub dn
        by (auto simp: header_line_def spec_line_def Let_def line_fits_def)
    next
      case empty: False
      then have "done_text ?x = []"
        using h(2) by (auto simp: header_rep_def text_rep_def)
      then show ?thesis
        using empty False h wh w ob pub by (auto simp: header_line_def spec_line_def Let_def)
    qed
  qed
qed

text \<open>The callback libcurl calls, with one byte per item as libcurl does.\<close>

lemma callback_rep:
  assumes "header_rep h x" and "waiter_ok h" and "line \<noteq> []" and "length line \<le> SIZE_MAX"
  shows "\<exists>ok evs h'. header_callback m line 1 (length line) (Some h)
      = Some (if ok then length line else 0, evs, Some h')
    \<and> header_rep h' (if ok then spec_line line x else spec_start line x) \<and> waiter_ok h'
    \<and> header_waiting h = put_calls evs @ header_waiting h'
    \<and> (\<forall>q. ready h = (q \<or> published x) \<longrightarrow> ready h' = (q \<or> published (if ok then spec_line line x else x)))
    \<and> (m \<and> line_fits line x \<longrightarrow> ok)"
proof -
  obtain ok evs h' where l: "header_line m line h = Some (ok, evs, h')" and
    p: "header_rep h' (if ok then spec_line line x else spec_start line x)" "waiter_ok h'"
      "header_waiting h = put_calls evs @ header_waiting h'"
      "\<forall>q. ready h = (q \<or> published x) \<longrightarrow>
        ready h' = (q \<or> published (if ok then spec_line line x else x))"
      "m \<and> line_fits line x \<longrightarrow> ok"
    using header_line_rep [OF assms(1,2,4), of m] by (elim exE conjE)
  have "sz_mul 1 (length line) = length line" using assms(4) by (simp add: size_simps)
  then have "header_callback m line 1 (length line) (Some h)
      = Some (if ok then length line else 0, evs, Some h')"
    using l assms(3,4) by (simp add: header_callback_def)
  with p show ?thesis by (intro exI conjI)
qed

lemma snapshot_rep:
  assumes "header_rep h x"
  shows "\<exists>s. header_data_snapshot True True t c (Some h) = Some (Some s)
    \<and> block_holds (snap_buffer s) (done_text x @ [CHR 0x00])
    \<and> length (snap_buffer s) = length (done_text x) + 1
    \<and> snap_length s = length (done_text x) \<and> snap_status s = done_status x"
proof -
  have r: "text_rep (completed_buf h, completed_size h, completed_capacity h) (done_text x)"
    and st: "completed_status h = done_status x"
    using assms by (auto simp: header_rep_def)
  note len = text_rep_less [OF r] and rd = text_rep_read [OF r]
  let ?t = "done_text x"
  have add: "sz_add (completed_size h) 1 = length ?t + 1" using len by (simp add: size_simps)
  obtain b1 b2 where b2: "block_write (block_alloc (length ?t + 1)) 0 ?t = Some b1"
    "block_write b1 (length ?t) [CHR 0x00] = Some b2"
    "block_holds b2 (?t @ [CHR 0x00])" "length b2 = length ?t + 1"
    using block_append_terminated [of "block_alloc (length ?t + 1)" "[]" ?t] by auto
  show ?thesis
    using rd b2 add len st by (simp add: header_data_snapshot_def)
qed

text \<open>Lines fed to the callback until it refuses one, each with the outcome of its allocation.\<close>

fun header_feed :: "(bool \<times> byte list) list \<Rightarrow> header_data option
    \<Rightarrow> (bool \<times> event list \<times> header_data option) option" where
  "header_feed [] hp = Some (True, [], hp)"
| "header_feed ((m, line) # ls) hp = do {
     (n, evs, hp') \<leftarrow> header_callback m line 1 (length line) hp;
     if n \<noteq> length line then Some (False, evs, hp')
     else do {
       (ok, evs', hp'') \<leftarrow> header_feed ls hp';
       Some (ok, evs @ evs', hp'')
     }
   }"

lemma spec_line_grows:
  assumes "length (cur_text x) \<le> n" and "length (done_text x) \<le> n"
  shows "length (cur_text (spec_line line x)) \<le> n + length line"
    and "length (done_text (spec_line line x)) \<le> n + length line"
  using assms by (auto simp: spec_line_def spec_start_def Let_def)

lemma line_fits_bound:
  "length (cur_text x) \<le> n \<Longrightarrow> length (done_text x) \<le> n \<Longrightarrow> n + length line + 1 \<le> SIZE_MAX \<Longrightarrow>
   line_fits line x"
  by (auto simp: line_fits_def text_fits_def spec_start_def)

lemma header_feed_accepts:
  assumes "header_rep h x" "waiter_ok h" "[] \<notin> set lines" "length (cur_text x) \<le> n"
    "length (done_text x) \<le> n" "n + sum_list (map length lines) + 1 \<le> SIZE_MAX"
    "ready h = (q \<or> published x)"
  shows "\<exists>evs h'. header_feed (map (Pair True) lines) (Some h) = Some (True, evs, Some h')
    \<and> header_rep h' (fold spec_line lines x) \<and> waiter_ok h'
    \<and> ready h' = (q \<or> published (fold spec_line lines x))"
  using assms
proof (induction lines arbitrary: h x n)
  case (Cons line lines)
  have len: "line \<noteq> []" "length line \<le> SIZE_MAX" "n + length line + 1 \<le> SIZE_MAX"
    using Cons.prems(3,6) by auto
  then have "line_fits line x" using Cons.prems(4,5) line_fits_bound by blast
  then obtain evs h1 where c: "header_callback True line 1 (length line) (Some h)
      = Some (length line, evs, Some h1)" "header_rep h1 (spec_line line x)" "waiter_ok h1"
      "ready h1 = (q \<or> published (spec_line line x))"
    using callback_rep [OF Cons.prems(1,2) len(1,2), of True] Cons.prems(7) by auto
  obtain evs' h' where "header_feed (map (Pair True) lines) (Some h1) = Some (True, evs', Some h')"
      "header_rep h' (fold spec_line lines (spec_line line x))" "waiter_ok h'"
      "ready h' = (q \<or> published (fold spec_line lines (spec_line line x)))"
    using Cons.IH [OF c(2,3) _ spec_line_grows [OF Cons.prems(4,5)] _ c(4)] Cons.prems(3,6)
    by (auto simp: add.assoc)
  with c show ?case by simp
qed simp

section \<open>Blocks and trailers\<close>

record header_block =
  status_line :: "byte list"
  field_lines :: "byte list list"
  blank_line :: "byte list"

definition block_lines :: "header_block \<Rightarrow> byte list list" where
  "block_lines b = status_line b # field_lines b @ [blank_line b]"

definition block_text :: "header_block \<Rightarrow> byte list" where
  "block_text b = concat (block_lines b)"

definition wf_header_block :: "header_block \<Rightarrow> bool" where
  "wf_header_block b \<longleftrightarrow> is_status_line (status_line b) \<and> is_blank_line (blank_line b)
     \<and> list_all (\<lambda>f. f \<noteq> [] \<and> \<not> is_status_line f \<and> \<not> is_blank_line f) (field_lines b)"

definition wf_trailers :: "byte list list \<Rightarrow> bool" where
  "wf_trailers = list_all (\<lambda>f. f \<noteq> [] \<and> \<not> is_status_line f)"

lemma status_not_blank: "is_status_line l \<Longrightarrow> \<not> is_blank_line l"
  by (auto simp: is_status_line_def is_blank_line_def)

lemma fold_fields:
  "list_all (\<lambda>f. f \<noteq> [] \<and> \<not> is_status_line f \<and> \<not> is_blank_line f) fs \<Longrightarrow> open_block x \<Longrightarrow>
   fold spec_line fs x = x\<lparr>cur_text := cur_text x @ concat fs\<rparr>"
  by (induction fs arbitrary: x) (simp_all add: spec_line_def spec_start_def)

lemma fold_block:
  assumes "wf_header_block b"
  shows "fold spec_line (block_lines b) x =
    x\<lparr>cur_text := [], done_text := block_text b, cur_status := parse_status (status_line b),
      done_status := parse_status (status_line b), open_block := False,
      published := published x \<or> publish_early (parse_status (status_line b)) (block_text b)\<rparr>"
proof -
  let ?x = "x\<lparr>cur_text := status_line b, cur_status := parse_status (status_line b), open_block := True\<rparr>"
  have s: "spec_line (status_line b) x = ?x"
    using assms status_not_blank
    by (auto simp: wf_header_block_def spec_line_def spec_start_def Let_def)
  have f: "fold spec_line (field_lines b) ?x = ?x\<lparr>cur_text := status_line b @ concat (field_lines b)\<rparr>"
    using assms by (subst fold_fields) (auto simp: wf_header_block_def)
  have bl: "is_blank_line (blank_line b)" "\<not> is_status_line (blank_line b)"
    using assms status_not_blank by (auto simp: wf_header_block_def)
  show ?thesis
    using bl by (simp add: block_lines_def block_text_def s f spec_line_def [of "blank_line b"]
      spec_start_def Let_def)
qed

lemma fold_blocks:
  "\<forall>b \<in> set bs. wf_header_block b \<Longrightarrow> bs \<noteq> [] \<Longrightarrow>
   fold spec_line (concat (map block_lines bs)) x =
     x\<lparr>cur_text := [], done_text := block_text (last bs),
       cur_status := parse_status (status_line (last bs)),
       done_status := parse_status (status_line (last bs)), open_block := False,
       published := published x
         \<or> (\<exists>b \<in> set bs. publish_early (parse_status (status_line b)) (block_text b))\<rparr>"
proof (induction bs arbitrary: x)
  case (Cons b bs)
  have b: "wf_header_block b" and bs: "\<forall>b \<in> set bs. wf_header_block b" using Cons.prems by auto
  have s: "fold spec_line (concat (map block_lines (b # bs))) x =
      fold spec_line (concat (map block_lines bs)) (fold spec_line (block_lines b) x)" by simp
  show ?case
  proof (cases "bs = []")
    case True
    then show ?thesis unfolding s fold_block [OF b] by simp
  next
    case False
    show ?thesis
      unfolding s fold_block [OF b] Cons.IH [OF bs False] using False by (simp add: disj_ac)
  qed
qed simp

lemma fold_trailers:
  "wf_trailers ts \<Longrightarrow> \<not> open_block x \<Longrightarrow> done_text x \<noteq> [] \<Longrightarrow>
   fold spec_line ts x = x\<lparr>done_text := done_text x @ concat ts\<rparr>"
  by (induction ts arbitrary: x) (simp_all add: wf_trailers_def spec_line_def spec_start_def)

lemma block_text_nonempty: "wf_header_block b \<Longrightarrow> block_text b \<noteq> []"
  by (auto simp: block_text_def block_lines_def wf_header_block_def is_status_line_def)

lemma block_lines_nonempty: "wf_header_block b \<Longrightarrow> [] \<notin> set (block_lines b)"
proof -
  assume wf: "wf_header_block b"
  have "\<not> is_status_line []" "\<not> is_blank_line []"
    by (simp_all add: is_status_line_def is_blank_line_def)
  moreover have "is_status_line (status_line b)" "is_blank_line (blank_line b)" using wf by (simp_all add: wf_header_block_def)
  ultimately have "status_line b \<noteq> []" "blank_line b \<noteq> []" by metis+
  moreover have "[] \<notin> set (field_lines b)" using wf by (auto simp add: wf_header_block_def list_all_iff simp del: split_paired_All)
  ultimately show ?thesis by (simp add: block_lines_def)
qed

section \<open>The waiter\<close>

datatype header_action = Line bool "byte list" | BodyStarted | Complete CURLcode

definition header_register ::
    "unit \<Rightarrow> HsStablePtr \<Rightarrow> int \<Rightarrow> header_data option \<Rightarrow> bool \<times> header_data option" where
  "header_register _ m c hp =
     (case header_data_wait m c hp of (r, hp') \<Rightarrow> (r = HEADER_WAIT_REGISTERED, hp'))"

definition header_cancel :: "unit \<Rightarrow> HsStablePtr \<Rightarrow> header_data option \<Rightarrow> bool \<times> header_data option" where
  "header_cancel _ m hp = header_data_cancel_wait m hp"

definition header_act :: "header_action \<Rightarrow> header_data option \<Rightarrow> event list \<times> header_data option" where
  "header_act a hp =
     (case a of
        Line m line \<Rightarrow>
          (case header_callback m line 1 (length line) hp of
             Some (n, evs, hp') \<Rightarrow> (evs, hp') | None \<Rightarrow> ([], hp))
      | BodyStarted \<Rightarrow> header_data_mark_body_started hp
      | Complete code \<Rightarrow> header_data_mark_complete code hp)"

definition header_ok :: "header_data option \<Rightarrow> bool" where
  "header_ok hp \<longleftrightarrow> (\<forall>h. hp = Some h \<longrightarrow> waiter_ok h \<and> (\<exists>x. header_rep h x))"

definition waiting_on :: "header_data option \<Rightarrow> (HsStablePtr \<times> int) list" where
  "waiting_on hp = (case hp of None \<Rightarrow> [] | Some h \<Rightarrow> header_waiting h)"

lemma callback_safe:
  assumes "header_ok hp"
  shows "\<exists>n evs hp'. header_callback m line 1 (length line) hp = Some (n, evs, hp') \<and> header_ok hp'
    \<and> waiting_on hp = put_calls evs @ waiting_on hp' \<and> (hp' = None \<longleftrightarrow> hp = None)"
proof (cases "hp = None \<or> line = [] \<or> length line > SIZE_MAX")
  case True
  then show ?thesis using assms
    by (cases hp) (auto simp: header_callback_def sz_mul_def)
next
  case False
  then obtain h x where h: "hp = Some h" "header_rep h x" "waiter_ok h" "line \<noteq> []"
    "length line \<le> SIZE_MAX" using assms by (auto simp: header_ok_def)
  obtain ok evs h' where c: "header_callback m line 1 (length line) (Some h)
      = Some (if ok then length line else 0, evs, Some h')"
    and r: "header_rep h' (if ok then spec_line line x else spec_start line x)" "waiter_ok h'"
      "header_waiting h = put_calls evs @ header_waiting h'"
    using callback_rep [OF h(2-5), of m] by (elim exE conjE)
  have "header_ok (Some h')" using r(1,2) by (auto simp: header_ok_def)
  with c r(3) h(1) show ?thesis by (simp add: waiting_on_def)
qed

lemma header_rep_flags [simp]:
  "header_rep (h\<lparr>ready := a\<rparr>) x = header_rep h x"
  "header_rep (h\<lparr>response_available := a\<rparr>) x = header_rep h x"
  "header_rep (h\<lparr>transfer_completed := a\<rparr>) x = header_rep h x"
  "header_rep (h\<lparr>terminal_code := k\<rparr>) x = header_rep h x"
  "header_rep (h\<lparr>waiter_present := a\<rparr>) x = header_rep h x"
  "header_rep (h\<lparr>waiter := w\<rparr>) x = header_rep h x"
  by (simp_all add: header_rep_def)

lemma mark_ready_law:
  assumes "header_ok hp" and "mark_ready a hp = (evs, hp')"
  shows "header_ok hp' \<and> waiting_on hp = put_calls evs \<and> waiting_on hp' = []
    \<and> map_option ready hp' = map_option (\<lambda>_. True) hp"
  using assms by (auto simp: mark_ready_def header_ok_def waiting_on_def waiter_ok_def
    header_waiting_def fire_waiter_def wake_up_waker_def Let_def split: option.splits if_splits)

lemma mark_complete_law:
  assumes "header_ok hp" and "header_data_mark_complete code hp = (evs, hp')"
  shows "header_ok hp' \<and> waiting_on hp = put_calls evs \<and> waiting_on hp' = []
    \<and> map_option ready hp' = map_option (\<lambda>_. True) hp"
  using assms by (auto simp: header_data_mark_complete_def header_ok_def waiting_on_def waiter_ok_def
    header_waiting_def fire_waiter_def wake_up_waker_def Let_def split: option.splits if_splits)

lemma free_law: "header_ok hp \<Longrightarrow> put_calls (free_header_data hp) = waiting_on hp"
  by (auto simp: free_header_data_def header_ok_def waiting_on_def waiter_ok_def
    header_waiting_def fire_waiter_def wake_up_waker_def split: option.splits)

lemma wait_law:
  assumes "header_ok hp" and "header_data_wait m c hp = (r, hp')"
  shows "header_ok hp' \<and> waiting_on hp' = (if r = HEADER_WAIT_REGISTERED then [(m, c)] else waiting_on hp)
    \<and> (r = HEADER_WAIT_REGISTERED \<longrightarrow> waiting_on hp = [])"
  using assms by (auto simp: header_data_wait_def header_ok_def waiting_on_def waiter_ok_def
    header_waiting_def split: option.splits if_splits)

lemma cancel_law:
  assumes "header_ok hp" and "header_data_cancel_wait m hp = (b, hp')"
  shows "header_ok hp' \<and> (if b then (\<exists>c. waiting_on hp = [(m, c)]) \<and> waiting_on hp' = []
    else hp' = hp)"
  using assms by (auto simp: header_data_cancel_wait_def header_ok_def waiting_on_def waiter_ok_def
    header_waiting_def split: option.splits if_splits)

interpretation hw: one_shot_waiter waiting_on header_register header_cancel header_act header_ok
proof (unfold_locales, goal_cases)
  case (1 s k m c b s')
  then obtain r where r: "header_data_wait m c s = (r, s')" "b = (r = HEADER_WAIT_REGISTERED)"
    by (auto simp: header_register_def split: prod.splits)
  show ?case using wait_law [OF 1(1) r(1)] r(2) by auto
next
  case (2 s k m b s')
  then show ?case using cancel_law [OF 2(1), of m b s'] by (auto simp: header_cancel_def split: if_splits)
next
  case (3 s x evs s')
  show ?case
  proof (cases x)
    case (Line m line)
    then show ?thesis using 3 callback_safe [OF 3(1), of m line] by (auto simp: header_act_def)
  next
    case BodyStarted
    then show ?thesis
      using 3 mark_ready_law [OF 3(1)] by (auto simp: header_act_def header_data_mark_body_started_def)
  next
    case (Complete code)
    then show ?thesis using 3 mark_complete_law [OF 3(1)] by (auto simp: header_act_def)
  qed
qed

lemma ready_stays:
  "header_act a (Some h) = (evs, Some h') \<Longrightarrow> header_ok (Some h) \<Longrightarrow> ready h \<Longrightarrow> waiting_on (Some h') = []"
  using hw.act_law [of "Some h" a evs "Some h'"]
  by (auto simp: header_ok_def waiter_ok_def waiting_on_def header_waiting_def split: if_splits)

lemma feed_safe:
  "header_ok (Some h) \<Longrightarrow>
   \<exists>ok evs h'. header_feed ls (Some h) = Some (ok, evs, Some h') \<and> header_ok (Some h')"
proof (induction ls arbitrary: h)
  case (Cons l ls)
  obtain m line where l: "l = (m, line)" by (cases l)
  obtain n evs h1 where c: "header_callback m line 1 (length line) (Some h) = Some (n, evs, Some h1)"
    "header_ok (Some h1)"
    using callback_safe [OF Cons.prems, of m line] by auto
  with Cons.IH [OF c(2)] l show ?case by fastforce
qed auto

lemma scan_digits_bound:
  "scan_digits cs st n = (v, k) \<Longrightarrow> n \<le> 3 \<Longrightarrow> 0 \<le> st \<Longrightarrow> st < 10 ^ n \<Longrightarrow>
   0 \<le> v \<and> v < 10 ^ k \<and> k \<le> 3"
proof (induction cs st n rule: scan_digits.induct)
  case (2 c cs st n)
  show ?case
  proof (cases "is_digit c \<and> n < 3")
    case True
    define d where "d = (of_char c :: int) - 48"
    have "(of_char c :: int) = int (of_char c)" by (cases c) (simp add: of_char_def)
    then have d: "0 \<le> d" "d \<le> 9" using True by (auto simp: is_digit_def d_def)
    have "0 \<le> st * 10 + d" "st * 10 + d < 10 ^ (n + 1)" using 2(4,5) d by auto
    with 2(1) [OF True] 2(2) True show ?thesis by (simp add: d_def)
  next
    case False
    with 2 show ?thesis by auto
  qed
qed simp

section \<open>Properties\<close>

text \<open>
  C27. The header buffers are memory safe: whatever lines libcurl delivers, of whatever length, and
  whichever allocations fail, every callback is defined (no write outside a block, no read of a byte
  never written) and leaves size, capacity and terminator of both buffers consistent.
\<close>

theorem header_callbacks_memory_safe:
  assumes "header_data_create True True True True c = Some (Some h)" and "c \<le> SIZE_MAX"
  shows "\<exists>ok evs h'. header_feed ls (Some h) = Some (ok, evs, Some h') \<and> waiter_ok h'
    \<and> (\<exists>t. text_rep (current h', current_size h', current_capacity h') t)
    \<and> (\<exists>t. text_rep (completed_buf h', completed_size h', completed_capacity h') t)"
proof -
  have "header_ok (Some h)" using create_rep [OF assms] by (auto simp: header_ok_def)
  from feed_safe [OF this, of ls] show ?thesis by (auto simp: header_ok_def header_rep_def)
qed

theorem header_callbacks_memory_safe_witness:
  "\<exists>ok evs h'. header_feed [(True, ''HTTP/1.1 200 OK''), (False, replicate 100 (CHR ''x''))]
     (the (header_data_create True True True True 2)) = Some (ok, evs, Some h') \<and> waiter_ok h'"
proof -
  obtain h where h: "header_data_create True True True True 2 = Some (Some h)"
    by (simp add: header_data_create_def block_write_def block_alloc_def)
  show ?thesis
    using header_callbacks_memory_safe [OF h, of
      "[(True, ''HTTP/1.1 200 OK''), (False, replicate 100 (CHR ''x''))]"]
    unfolding h by (auto simp: SIZE_MAX_def)
qed

text \<open>
  C11. For a response that consists of one or more header blocks (informational, redirect or proxy
  blocks first) and trailers, every line is accepted while memory lasts, and the snapshot is exactly
  the last block followed by the trailers, terminated by a NUL, with the status of that block:
  blocks replace each other and are never mixed. The data is ready early exactly if one of the
  blocks is a publishable one.
\<close>

theorem header_latest_block:
  assumes create: "header_data_create True True True True c = Some (Some h0)" "c \<le> SIZE_MAX"
    and bs: "bs \<noteq> []" "\<forall>b \<in> set bs. wf_header_block b" and ts: "wf_trailers ts"
    and fits: "sum_list (map length (concat (map block_lines bs) @ ts)) + 1 \<le> SIZE_MAX"
    and t: "t = block_text (last bs) @ concat ts"
  shows "\<exists>evs h s. header_feed (map (Pair True) (concat (map block_lines bs) @ ts)) (Some h0)
      = Some (True, evs, Some h)
    \<and> ready h = (\<exists>b \<in> set bs. publish_early (parse_status (status_line b)) (block_text b))
    \<and> header_data_snapshot True True True True (Some h) = Some (Some s)
    \<and> block_holds (snap_buffer s) (t @ [CHR 0x00]) \<and> length (snap_buffer s) = length t + 1
    \<and> snap_length s = length t \<and> snap_status s = parse_status (status_line (last bs))"
proof -
  let ?lines = "concat (map block_lines bs) @ ts"
  have ne: "[] \<notin> set ?lines"
    using bs(2) block_lines_nonempty ts by (auto simp: wf_trailers_def list_all_iff)
  note c = create_rep [OF create]
  obtain evs h where f: "header_feed (map (Pair True) ?lines) (Some h0) = Some (True, evs, Some h)"
    "header_rep h (fold spec_line ?lines spec_init)"
    "ready h = (False \<or> published (fold spec_line ?lines spec_init))"
    using header_feed_accepts [OF c(1,2) ne, of 0 False] c(3) fits by (auto simp: spec_init_def)
  have x: "fold spec_line ?lines spec_init =
      spec_init\<lparr>cur_text := [], done_text := t, cur_status := parse_status (status_line (last bs)),
        done_status := parse_status (status_line (last bs)), open_block := False,
        published := (\<exists>b \<in> set bs. publish_early (parse_status (status_line b)) (block_text b))\<rparr>"
    unfolding fold_append comp_apply fold_blocks [OF bs(2,1)] t
    by (subst fold_trailers) (use ts bs block_text_nonempty in \<open>auto simp: spec_init_def\<close>)
  show ?thesis using f snapshot_rep [OF f(2), of True True] unfolding x by auto
qed

theorem header_latest_block_witness:
  "\<exists>evs h s. header_feed (map (Pair True) [''HTTP/1.1 100 Continue'', [CHR 0x0A],
       ''HTTP/1.1 204 '', ''A: b'', [CHR 0x0D, CHR 0x0A], ''T: u''])
      (the (header_data_create True True True True 0)) = Some (True, evs, Some h) \<and> ready h
    \<and> header_data_snapshot True True True True (Some h) = Some (Some s) \<and> snap_status s = 204"
proof -
  obtain h0 where h0: "header_data_create True True True True 0 = Some (Some h0)"
    by (simp add: header_data_create_def block_write_def block_alloc_def)
  define bs where "bs = [\<lparr>status_line = ''HTTP/1.1 100 Continue'', field_lines = [],
      blank_line = [CHR 0x0A]\<rparr>,
    \<lparr>status_line = ''HTTP/1.1 204 '', field_lines = [''A: b''], blank_line = [CHR 0x0D, CHR 0x0A]\<rparr>]"
  have facts: "bs \<noteq> []" "list_all wf_header_block bs" "wf_trailers [''T: u'']"
    "sum_list (map length (concat (map block_lines bs) @ [''T: u''])) + 1 \<le> SIZE_MAX"
    "concat (map block_lines bs) @ [''T: u''] = [''HTTP/1.1 100 Continue'', [CHR 0x0A],
       ''HTTP/1.1 204 '', ''A: b'', [CHR 0x0D, CHR 0x0A], ''T: u'']"
    "list_ex (\<lambda>b. publish_early (parse_status (status_line b)) (block_text b)) bs"
    "parse_status (status_line (last bs)) = 204"
    unfolding bs_def by code_simp+
  show ?thesis
    using header_latest_block [OF h0 _ facts(1) _ facts(3,4) refl] facts(2,6)
    unfolding facts(5,7) h0 option.sel list_all_iff list_ex_iff by auto
qed

text \<open>
  C12. A pointer registered with \<open>header_data_wait\<close> is consumed by exactly one wake-up, handed back
  by exactly one successful \<open>header_data_cancel_wait\<close>, or still waits, over any sequence of waits,
  cancellations, header lines and completions; freeing the record wakes what still waits. After the
  transfer completes nothing waits, and a later wait is answered \<open>HEADER_WAIT_READY\<close>.
\<close>

theorem header_waiter_consumed_once:
  assumes "header_data_create True True True True c = Some (Some h)" and "c \<le> SIZE_MAX"
    and "waiter_run header_register header_cancel header_act ops (Some h) no_log = (l, hp)"
  shows "mset (registered l) = mset (returned l) + mset (fired l)
      + mset (map fst (put_calls (free_header_data hp)))
    \<and> (\<forall>evs hp' m. header_data_mark_complete code hp = (evs, hp') \<longrightarrow>
        mset (registered l) = mset (returned l) + mset (fired l) + mset (map fst (put_calls evs))
        \<and> free_header_data hp' = []
        \<and> (m \<noteq> NULL \<and> hp \<noteq> None \<longrightarrow> header_data_wait m cap hp' = (HEADER_WAIT_READY, hp')))"
proof -
  have ok: "header_ok (Some h)" and w: "waiting_on (Some h) = []"
    using create_rep [OF assms(1,2)] by (auto simp: header_ok_def waiting_on_def)
  have "balanced no_log (waiting_on (Some h))" by (simp add: w balanced_def no_log_def)
  from hw.waiter_conserved [OF ok this assms(3)]
  have fin: "header_ok hp" "balanced l (waiting_on hp)" by auto
  have "header_data_wait m cap hp' = (HEADER_WAIT_READY, hp') \<and> free_header_data hp' = []"
    if "header_data_mark_complete code hp = (evs, hp')" "m \<noteq> NULL" "hp \<noteq> None" for evs hp' m
    using that by (auto simp: header_data_mark_complete_def header_data_wait_def fire_waiter_def
      free_header_data_def Let_def split: option.splits prod.splits if_splits)
  moreover have "free_header_data hp' = []"
    if "header_data_mark_complete code hp = (evs, hp')" for evs hp'
    using that by (auto simp: header_data_mark_complete_def fire_waiter_def
      free_header_data_def Let_def split: option.splits prod.splits if_splits)
  ultimately show ?thesis
    using fin free_law [OF fin(1)] mark_complete_law [OF fin(1)] by (auto simp: balanced_def)
qed

theorem header_waiter_consumed_once_witness:
  "\<exists>l hp. waiter_run header_register header_cancel header_act
      [Register () 7 0, Cancel () 7, Register () 8 1, Act (Line True ''X: y''), Act (Complete 0)]
      (the (header_data_create True True True True 4)) no_log = (l, hp)
    \<and> mset (registered l) = mset (returned l) + mset (fired l)
        + mset (map fst (put_calls (free_header_data hp)))
    \<and> registered l = [8, 7] \<and> returned l = [7] \<and> fired l = [8]"
proof -
  obtain h where h: "header_data_create True True True True 4 = Some (Some h)"
    by (simp add: header_data_create_def block_write_def block_alloc_def)
  let ?ops = "[Register () 7 0, Cancel () 7, Register () 8 1, Act (Line True ''X: y''), Act (Complete 0)]"
  obtain l hp where r: "waiter_run header_register header_cancel header_act ?ops (Some h) no_log = (l, hp)"
    by (cases "waiter_run header_register header_cancel header_act ?ops (Some h) no_log")
  have "fst (waiter_run header_register header_cancel header_act ?ops
      (the (header_data_create True True True True 4)) no_log)
    = \<lparr>registered = [8, 7], returned = [7], fired = [8]\<rparr>" by code_simp
  with r h have l: "l = \<lparr>registered = [8, 7], returned = [7], fired = [8]\<rparr>" by simp
  have "4 \<le> SIZE_MAX" by (simp add: SIZE_MAX_def)
  note p = header_waiter_consumed_once [OF h this r]
  show ?thesis
    unfolding h option.sel using r p [THEN conjunct1] l
    by (intro exI [of _ l] exI [of _ hp] conjI) simp_all
qed

text \<open>
  C36. The search used to recognise a proxy's answer finds the needle exactly if some part of the
  text equals it up to the case of ASCII letters; its index arithmetic never leaves the text.
\<close>

theorem contains_ascii_spec:
  "contains_ascii_case_insensitive data needle \<longleftrightarrow>
     needle \<noteq> [] \<and>
     (\<exists>pre mid post. data = pre @ mid @ post \<and> map ascii_lower mid = map ascii_lower needle)"
proof -
  have "length needle \<le> length data" if "search_from data needle"
    using that by (subst (asm) search_from.simps) (auto split: if_splits)
  then show ?thesis
    unfolding contains_ascii_case_insensitive_def search_from_iff [symmetric] by auto
qed

text \<open>
  C37. The status is read as written: for \<open>HTTP/1.1\<close> or any other version without a space, blanks, and
  three digits it is the number they denote, whatever follows; every result is below 1000, so the
  \<open>long\<close> arithmetic cannot overflow.
\<close>

theorem parse_status_reads:
  assumes "CHR '' '' \<notin> set version" and "is_digit a" "is_digit b" "is_digit c"
  shows "parse_status (version @ replicate (Suc n) (CHR '' '') @ [a, b, c] @ rest)
      = 100 * (of_char a - 48) + 10 * (of_char b - 48) + (of_char c - 48)
    \<and> 0 \<le> parse_status line \<and> parse_status line < 1000"
proof -
  have d: "dropWhile (\<lambda>c. c \<noteq> CHR '' '') (version @ replicate (Suc n) (CHR '' '') @ xs)
      = replicate (Suc n) (CHR '' '') @ xs" for xs
    using assms(1) by (subst dropWhile_append2) auto
  have r: "dropWhile (\<lambda>c. c = CHR '' '') (replicate k (CHR '' '') @ a # xs) = a # xs" for k xs
    using assms(2) by (induction k) (auto simp: is_digit_def)
  have stop: "scan_digits rest v 3 = (v, 3)" for v by (cases rest) auto
  have "scan_digits ([a, b, c] @ rest) 0 0 =
      (100 * (of_char a - 48) + 10 * (of_char b - 48) + (of_char c - 48), 3)"
    using assms(2-4) stop by (simp add: numeral_eq_Suc algebra_simps)
  then have "parse_status (version @ replicate (Suc n) (CHR '' '') @ [a, b, c] @ rest)
      = 100 * (of_char a - 48) + 10 * (of_char b - 48) + (of_char c - 48)"
    unfolding parse_status_def d using r [of "Suc n" "b # c # rest"] by (simp add: Let_def)
  moreover have "0 \<le> parse_status line \<and> parse_status line < 1000"
  proof -
    have "0 \<le> v \<and> (k = 3 \<longrightarrow> v < 1000)" if "scan_digits cs 0 0 = (v, k)" for cs v k
      using scan_digits_bound [OF that] by auto
    then show ?thesis
      by (auto simp: parse_status_def simp del: scan_digits.simps dropWhile.simps
        split: list.splits prod.splits)
  qed
  ultimately show ?thesis by blast
qed

theorem parse_status_reads_witness:
  "parse_status ''HTTP/2  404 Not Found'' = 404 \<and> parse_status ''HTTP/1.1 20'' = 0"
  using parse_status_reads [of "''HTTP/2''" "CHR ''4''" "CHR ''0''" "CHR ''4''" 1 "'' Not Found''"
    "''HTTP/1.1 20''"]
  by (auto simp: is_digit_def numeral_eq_Suc) code_simp

end
