(* ===== verification/Simple_String.thy ===== *)
theory Simple_String
  imports Hcurl_Base "HOL-Library.Code_Target_Nat"
begin

text \<open>
  \<open>cbits/simple_string.c\<close>: a response body collected in memory up to a maximal length. The buffer is
  a memory block, \<open>None\<close> after it was taken; a result \<open>None\<close> of a function is undefined behaviour.
\<close>

section \<open>The string and its operations\<close>

record simple_string =
  str_ptr :: "block option"
  str_len :: size_t
  str_capacity :: size_t
  max_len :: size_t

definition simple_string_create :: "bool \<Rightarrow> bool \<Rightarrow> size_t \<Rightarrow> simple_string option option" where
  "simple_string_create calloc_ok malloc_ok maximum =
     (if \<not> calloc_ok then Some None
      else
        let cap0 = 4096;
            cap1 = (if maximum \<noteq> SIZE_MAX \<and> cap0 > sz_add maximum 1 then sz_add maximum 1 else cap0);
            cap = (if cap1 = 0 then 1 else cap1)
        in if \<not> malloc_ok then Some None
           else do {
             b \<leftarrow> block_write (block_alloc cap) 0 [CHR 0x00];
             Some (Some \<lparr>str_ptr = Some b, str_len = 0, str_capacity = cap, max_len = maximum\<rparr>)
           })"

datatype string_option = CURLOPT_WRITEDATA addr | CURLOPT_WRITEFUNCTION

definition simple_string_install ::
    "(string_option \<Rightarrow> CURLcode) \<Rightarrow> CURL \<Rightarrow> addr \<Rightarrow> CURLcode \<times> string_option list" where
  "simple_string_install setopt easy str =
     (if easy = NULL \<or> str = NULL then (CURLE_BAD_FUNCTION_ARGUMENT, [])
      else setopt_seq setopt [CURLOPT_WRITEDATA str, CURLOPT_WRITEFUNCTION])"

text \<open>
  The buffer handed over and its length; \<open>len_ok\<close> says that the pointer for the length is non-null.
\<close>

definition simple_string_take ::
    "bool \<Rightarrow> simple_string option \<Rightarrow> block option \<times> size_t option \<times> simple_string option" where
  "simple_string_take len_ok sp =
     (case sp of
        None \<Rightarrow> (None, None, None)
      | Some s \<Rightarrow>
          if \<not> len_ok then (None, None, Some s)
          else (str_ptr s, Some (str_len s), Some (s\<lparr>str_ptr := None, str_len := 0, str_capacity := 0\<rparr>)))"

text \<open>What \<open>simple_string_destroy\<close> gives back to the allocator: the buffer and the structure.\<close>

definition simple_string_destroy :: "simple_string option \<Rightarrow> block option \<times> bool" where
  "simple_string_destroy sp = (case sp of None \<Rightarrow> (None, False) | Some s \<Rightarrow> (str_ptr s, True))"

text \<open>\<open>data\<close> is the memory libcurl passes, \<open>None\<close> for a null pointer.\<close>

definition simple_string_writefunc ::
    "bool \<Rightarrow> byte list option \<Rightarrow> size_t \<Rightarrow> size_t \<Rightarrow> simple_string option
     \<Rightarrow> (size_t \<times> simple_string option) option" where
  "simple_string_writefunc realloc_ok data sz nmemb userdata =
     (case userdata of
        None \<Rightarrow> Some (0, None)
      | Some s \<Rightarrow>
     (case str_ptr s of
        None \<Rightarrow> Some (0, Some s)
      | Some b \<Rightarrow>
          if sz \<noteq> 0 \<and> nmemb > SIZE_MAX div sz then Some (0, Some s)
          else
            let appended = sz_mul sz nmemb
            in if appended = 0 then Some (0, Some s)
               else if data = None \<or> appended > sz_sub SIZE_MAX (str_len s) then Some (0, Some s)
               else
                 let new_len = sz_add (str_len s) appended
                 in if new_len > max_len s then Some (0, Some s)
                    else if new_len = SIZE_MAX then Some (0, Some s)
                    else if sz_add new_len 1 > str_capacity s \<and> \<not> realloc_ok then Some (0, Some s)
                    else
                      let cap = (if sz_add new_len 1 > str_capacity s
                            then grow_until (if str_capacity s \<noteq> 0 then str_capacity s else 4096)
                                   (sz_add new_len 1)
                            else str_capacity s);
                          b1 = (if sz_add new_len 1 > str_capacity s then block_realloc b cap else b)
                      in if appended > length (the data) then None
                         else do {
                           b2 \<leftarrow> block_write b1 (str_len s) (take appended (the data));
                           b3 \<leftarrow> block_write b2 new_len [CHR 0x00];
                           Some (appended, Some (s\<lparr>str_ptr := Some b3, str_len := new_len,
                             str_capacity := cap\<rparr>))
                         }))"

text \<open>A buffer that was taken is the caller's: destroying the string does not free it.\<close>

lemma take_destroy:
  "simple_string_take True (Some s) = (p, n, sp) \<Longrightarrow> p = str_ptr s \<and> simple_string_destroy sp = (None, True)"
  by (auto simp: simple_string_take_def simple_string_destroy_def)

section \<open>The string holds its text\<close>

definition string_rep :: "size_t \<Rightarrow> simple_string \<Rightarrow> byte list \<Rightarrow> bool" where
  "string_rep m s t \<longleftrightarrow>
     (\<exists>b. str_ptr s = Some b \<and> block_holds b (t @ [CHR 0x00]) \<and> str_capacity s = length b
       \<and> length b \<le> SIZE_MAX) \<and> str_len s = length t \<and> max_len s = m \<and> length t \<le> m"

definition string_fits :: "size_t \<Rightarrow> byte list \<Rightarrow> byte list \<Rightarrow> bool" where
  "string_fits m t d \<longleftrightarrow> length t + length d \<le> m \<and> length t + length d < SIZE_MAX"

text \<open>One call of the callback with one byte per item, as libcurl makes it.\<close>

definition string_append :: "bool \<Rightarrow> byte list \<Rightarrow> simple_string \<Rightarrow> (bool \<times> simple_string) option" where
  "string_append m d s =
     map_option (\<lambda>(n, sp). (n = length d, the sp))
       (simple_string_writefunc m (Some d) 1 (length d) (Some s))"

lemma string_append_law:
  assumes r: "string_rep mx s t" and d: "length d \<le> SIZE_MAX"
  shows "\<exists>ok s'. string_append m d s = Some (ok, s') \<and> string_rep mx s' (if ok then t @ d else t)
    \<and> (m \<and> string_fits mx t d \<longrightarrow> ok) \<and> (\<not> string_fits mx t d \<longrightarrow> \<not> ok)"
proof -
  obtain b where b: "str_ptr s = Some b" "block_holds b (t @ [CHR 0x00])" "str_capacity s = length b"
    "length b \<le> SIZE_MAX" and s: "str_len s = length t" "max_len s = mx" "length t \<le> mx"
    using r by (auto simp: string_rep_def)
  have t: "length t < length b" "block_holds b t"
    using b(2) block_holds_prefix [OF b(2)] by (auto simp: block_holds_def)
  have mul: "sz_mul 1 (length d) = length d" using d by (simp add: size_simps)
  consider "d = []" | "d \<noteq> []" "\<not> string_fits mx t d"
    | "d \<noteq> []" "string_fits mx t d" "length t + length d + 1 > length b" "\<not> m"
    | "d \<noteq> []" "string_fits mx t d" "length t + length d + 1 \<le> length b \<or> m" by linarith
  then show ?thesis
  proof cases
    case 1
    then have "string_append m d s = Some (True, s)"
      using b(1) by (simp add: string_append_def simple_string_writefunc_def sz_mul_def)
    with 1 r t b(4) s(3) show ?thesis by (intro exI [of _ True] exI [of _ s]) (simp add: string_fits_def)
  next
    case 2
    have "string_append m d s = Some (False, s)"
    proof (cases "length d > sz_sub SIZE_MAX (str_len s)")
      case True
      with 2(1) b(1) mul d show ?thesis by (simp add: string_append_def simple_string_writefunc_def)
    next
      case False
      then have "sz_add (str_len s) (length d) = length t + length d" "length t + length d \<le> SIZE_MAX"
        using t b(4) s(1) by (auto simp: size_simps)
      with 2 b(1) mul d s False show ?thesis
        by (auto simp: string_append_def simple_string_writefunc_def string_fits_def Let_def)
    qed
    with 2 r show ?thesis by (intro exI [of _ False] exI [of _ s]) simp
  next
    case 3
    then have "string_append m d s = Some (False, s)"
      using b mul d s t
      by (auto simp: string_append_def simple_string_writefunc_def string_fits_def Let_def size_simps)
    with 3 r show ?thesis by (intro exI [of _ False] exI [of _ s]) simp
  next
    case 4
    let ?n = "length t + length d"
    have sz: "sz_sub SIZE_MAX (str_len s) = SIZE_MAX - length t" "sz_add (str_len s) (length d) = ?n"
      "sz_add ?n 1 = ?n + 1"
      using 4(2) t b(4) s by (auto simp: size_simps string_fits_def)
    define cap where "cap = (if ?n + 1 > length b then grow_until (length b) (?n + 1) else length b)"
    define b1 where "b1 = (if ?n + 1 > length b then block_realloc b cap else b)"
    have cap: "?n + 1 \<le> cap" "cap \<le> SIZE_MAX" "length b1 = cap"
      using grow_until_ge [of "?n + 1" "length b"] grow_until_le_SIZE_MAX [of "length b" "?n + 1"]
        4(2) b(4) by (auto simp: cap_def b1_def string_fits_def)
    have "block_holds b1 t" using t cap by (auto simp: b1_def intro: block_holds_realloc)
    then obtain b2 b3 where w: "block_write b1 (length t) d = Some b2"
      "block_write b2 ?n [CHR 0x00] = Some b3" "block_holds b3 ((t @ d) @ [CHR 0x00])"
      "length b3 = cap"
      using block_append_terminated [of b1 t d] cap by auto
    have "string_append m d s = Some (True, s\<lparr>str_ptr := Some b3, str_len := ?n, str_capacity := cap\<rparr>)"
      using 4 b(1,3) t(1) mul d s(1,2) sz w(1,2)
      by (auto simp: string_append_def simple_string_writefunc_def string_fits_def Let_def cap_def
        b1_def split: if_splits)
    moreover have "string_rep mx (s\<lparr>str_ptr := Some b3, str_len := ?n, str_capacity := cap\<rparr>) (t @ d)"
      using w(3,4) cap(2) 4(2) s(2) by (simp add: string_rep_def string_fits_def)
    ultimately show ?thesis using 4(2) by (intro exI [of _ True] exI conjI) auto
  qed
qed

interpretation ss: text_buffer "string_rep m" string_append "string_fits m" for m
  by unfold_locales (rule string_append_law)

lemma string_create_rep:
  "simple_string_create True True m = Some (Some s) \<Longrightarrow> m \<le> SIZE_MAX \<Longrightarrow> string_rep m s []"
  by (auto simp: simple_string_create_def string_rep_def block_write_def block_alloc_def
    block_holds_def Let_def sz_add_def SIZE_MAX_def split: if_splits)

lemma string_take_rep:
  "string_rep m s t \<Longrightarrow> \<exists>b. simple_string_take True (Some s) =
     (Some b, Some (length t), Some (s\<lparr>str_ptr := None, str_len := 0, str_capacity := 0\<rparr>))
     \<and> block_read b 0 (length t + 1) = Some (t @ [CHR 0x00])"
  using block_read_holds by (fastforce simp: string_rep_def simple_string_take_def)

lemma append_run_accepts:
  assumes "string_rep mx s t" and "length t + length (concat ds) \<le> mx"
    and "length t + length (concat ds) < SIZE_MAX"
  shows "\<exists>s'. append_run string_append (map (Pair True) ds) s = Some (True, s')
    \<and> string_rep mx s' (t @ concat ds)"
  using assms
proof (induction ds arbitrary: s t)
  case (Cons d ds)
  have "length d \<le> SIZE_MAX" "string_fits mx t d" using Cons.prems by (auto simp: string_fits_def)
  with ss.append_law [OF Cons.prems(1), of d True] obtain s1 where
    "string_append True d s = Some (True, s1)" "string_rep mx s1 (t @ d)" by auto
  moreover from this obtain s2 where "append_run string_append (map (Pair True) ds) s1 = Some (True, s2)"
    "string_rep mx s2 ((t @ d) @ concat ds)" using Cons.IH [of s1 "t @ d"] Cons.prems by auto
  ultimately show ?case by simp
qed simp

section \<open>Properties\<close>

text \<open>
  C38. A body collected in memory is returned byte for byte: if the chunks fit the maximum, every
  call of the write callback accepts its chunk, and \<open>simple_string_take\<close> hands over a buffer with
  exactly their concatenation and a NUL, and its length. The callback refuses everything after.
\<close>

theorem simple_string_roundtrip:
  assumes "simple_string_create True True m = Some (Some s)" and "m \<le> SIZE_MAX"
    and "length (concat ds) \<le> m" and "length (concat ds) < SIZE_MAX"
  shows "\<exists>s1 b s2. append_run string_append (map (Pair True) ds) s = Some (True, s1)
    \<and> simple_string_take True (Some s1) = (Some b, Some (length (concat ds)), Some s2)
    \<and> block_read b 0 (length (concat ds) + 1) = Some (concat ds @ [CHR 0x00])
    \<and> simple_string_writefunc r d sz n (Some s2) = Some (0, Some s2)"
proof -
  obtain s1 where s1: "append_run string_append (map (Pair True) ds) s = Some (True, s1)"
    "string_rep m s1 (concat ds)"
    using append_run_accepts [OF string_create_rep [OF assms(1,2)]] assms(3,4) by auto
  have "simple_string_writefunc r d sz n (Some (s1\<lparr>str_ptr := None, str_len := 0, str_capacity := 0\<rparr>))
      = Some (0, Some (s1\<lparr>str_ptr := None, str_len := 0, str_capacity := 0\<rparr>))"
    by (simp add: simple_string_writefunc_def)
  with string_take_rep [OF s1(2)] s1(1) show ?thesis by blast
qed

theorem simple_string_roundtrip_witness:
  "\<exists>s1 b s2. append_run string_append (map (Pair True) [''abc'', ''defgh''])
       (the (the (simple_string_create True True 9))) = Some (True, s1)
    \<and> simple_string_take True (Some s1) = (Some b, Some 8, Some s2)
    \<and> block_read b 0 9 = Some (''abcdefgh'' @ [CHR 0x00])"
proof -
  obtain s where s: "simple_string_create True True 9 = Some (Some s)"
    by (simp add: simple_string_create_def block_write_def block_alloc_def Let_def SIZE_MAX_def sz_add_def)
  have c: "concat [''abc'', ''defgh''] = ''abcdefgh''" "length ''abcdefgh'' = 8" "(8::nat) + 1 = 9"
    by simp_all
  have "9 \<le> SIZE_MAX" "length (concat [''abc'', ''defgh'']) \<le> 9"
    "length (concat [''abc'', ''defgh'']) < SIZE_MAX" by (simp_all add: SIZE_MAX_def)
  from simple_string_roundtrip [OF s this, of True None 1 1] show ?thesis
    unfolding c s option.sel by blast
qed



end
