(* ===== verification/Options.thy ===== *)
theory Options
  imports Hcurl_Base "HOL-Library.Code_Target_Nat"
begin

text \<open>
  \<open>cbits/options.c\<close>: fixed-arity adapters for the variadic \<open>curl_easy_setopt\<close>. Libcurl's options are
  named, not numbered; \<open>RawOption\<close> is the cast of a number the caller supplies. What a call answers
  is the argument \<open>setopt\<close>; the result of an adapter is its code and the calls it makes. The header's
  version (conditional compilation) is an argument.
\<close>

datatype hcurl_easy_option =
    HCURL_OPT_HTTP_VERSION
  | HCURL_OPT_PIPE_WAIT
  | HCURL_OPT_FOLLOW_LOCATION
  | HCURL_OPT_NO_SIGNAL
  | HCURL_OPT_SSL_VERIFY_PEER
  | HCURL_OPT_TCP_FAST_OPEN
  | HCURL_OPT_TCP_KEEP_ALIVE
  | HCURL_OPT_TIMEOUT_MS
  | HCURL_OPT_CONNECT_TIMEOUT_MS
  | HCURL_OPT_LOW_SPEED_TIME
  | HCURL_OPT_LOW_SPEED_LIMIT
  | HCURL_OPT_ACCEPT_ENCODING
  | HCURL_OPT_IP_RESOLVE
  | HCURL_OPT_SSL_VERIFY_HOST

text \<open>The enumerators in the order of their values; a value outside is no enumerator.\<close>

definition easy_options :: "hcurl_easy_option list" where
  "easy_options = [HCURL_OPT_HTTP_VERSION, HCURL_OPT_PIPE_WAIT, HCURL_OPT_FOLLOW_LOCATION,
     HCURL_OPT_NO_SIGNAL, HCURL_OPT_SSL_VERIFY_PEER, HCURL_OPT_TCP_FAST_OPEN,
     HCURL_OPT_TCP_KEEP_ALIVE, HCURL_OPT_TIMEOUT_MS, HCURL_OPT_CONNECT_TIMEOUT_MS,
     HCURL_OPT_LOW_SPEED_TIME, HCURL_OPT_LOW_SPEED_LIMIT, HCURL_OPT_ACCEPT_ENCODING,
     HCURL_OPT_IP_RESOLVE, HCURL_OPT_SSL_VERIFY_HOST]"

definition easy_option_of :: "int \<Rightarrow> hcurl_easy_option option" where
  "easy_option_of n =
     (if 0 \<le> n \<and> nat n < length easy_options then Some (easy_options ! nat n) else None)"

datatype curl_option =
    RawOption int
  | CURLOPT_HTTP_VERSION | CURLOPT_PIPEWAIT | CURLOPT_FOLLOWLOCATION | CURLOPT_NOSIGNAL
  | CURLOPT_SSL_VERIFYPEER | CURLOPT_TCP_FASTOPEN | CURLOPT_TCP_KEEPALIVE | CURLOPT_TIMEOUT_MS
  | CURLOPT_CONNECTTIMEOUT_MS | CURLOPT_LOW_SPEED_TIME | CURLOPT_LOW_SPEED_LIMIT
  | CURLOPT_IPRESOLVE | CURLOPT_SSL_VERIFYHOST | CURLOPT_ACCEPT_ENCODING | CURLOPT_ENCODING

datatype opt_value = LongValue int | StringValue string

type_synonym setopt_call = "curl_option \<times> opt_value"

definition call_setopt ::
    "(setopt_call \<Rightarrow> CURLcode) \<Rightarrow> curl_option \<Rightarrow> opt_value \<Rightarrow> CURLcode \<times> setopt_call list" where
  "call_setopt setopt opt v = (setopt (opt, v), [(opt, v)])"

definition bad_argument :: "CURLcode \<times> setopt_call list" where
  "bad_argument = (CURLE_BAD_FUNCTION_ARGUMENT, [])"

definition hcurl_raw_easy_setopt_long ::
    "(setopt_call \<Rightarrow> CURLcode) \<Rightarrow> CURL \<Rightarrow> int \<Rightarrow> int \<Rightarrow> CURLcode \<times> setopt_call list" where
  "hcurl_raw_easy_setopt_long setopt easy opt v =
     (if easy = NULL then bad_argument else call_setopt setopt (RawOption opt) (LongValue v))"

definition hcurl_raw_easy_setopt_string ::
    "(setopt_call \<Rightarrow> CURLcode) \<Rightarrow> CURL \<Rightarrow> int \<Rightarrow> string option \<Rightarrow> CURLcode \<times> setopt_call list" where
  "hcurl_raw_easy_setopt_string setopt easy opt v =
     (if easy = NULL then bad_argument
      else case v of None \<Rightarrow> bad_argument
        | Some str \<Rightarrow> call_setopt setopt (RawOption opt) (StringValue str))"

definition hcurl_easy_setopt_long ::
    "nat \<Rightarrow> (setopt_call \<Rightarrow> CURLcode) \<Rightarrow> CURL \<Rightarrow> int \<Rightarrow> int \<Rightarrow> CURLcode \<times> setopt_call list" where
  "hcurl_easy_setopt_long version setopt easy opt v =
     (if easy = NULL then bad_argument
      else
        let call = (\<lambda>target. call_setopt setopt target (LongValue v))
        in case easy_option_of opt of
             Some HCURL_OPT_HTTP_VERSION \<Rightarrow> call CURLOPT_HTTP_VERSION
           | Some HCURL_OPT_PIPE_WAIT \<Rightarrow>
               if version \<ge> 0x072b00 then call CURLOPT_PIPEWAIT else bad_argument
           | Some HCURL_OPT_FOLLOW_LOCATION \<Rightarrow> call CURLOPT_FOLLOWLOCATION
           | Some HCURL_OPT_NO_SIGNAL \<Rightarrow> call CURLOPT_NOSIGNAL
           | Some HCURL_OPT_SSL_VERIFY_PEER \<Rightarrow> call CURLOPT_SSL_VERIFYPEER
           | Some HCURL_OPT_TCP_FAST_OPEN \<Rightarrow>
               if version \<ge> 0x073100 then call CURLOPT_TCP_FASTOPEN else bad_argument
           | Some HCURL_OPT_TCP_KEEP_ALIVE \<Rightarrow>
               if version \<ge> 0x071900 then call CURLOPT_TCP_KEEPALIVE else bad_argument
           | Some HCURL_OPT_TIMEOUT_MS \<Rightarrow> call CURLOPT_TIMEOUT_MS
           | Some HCURL_OPT_CONNECT_TIMEOUT_MS \<Rightarrow> call CURLOPT_CONNECTTIMEOUT_MS
           | Some HCURL_OPT_LOW_SPEED_TIME \<Rightarrow> call CURLOPT_LOW_SPEED_TIME
           | Some HCURL_OPT_LOW_SPEED_LIMIT \<Rightarrow> call CURLOPT_LOW_SPEED_LIMIT
           | Some HCURL_OPT_IP_RESOLVE \<Rightarrow> call CURLOPT_IPRESOLVE
           | Some HCURL_OPT_SSL_VERIFY_HOST \<Rightarrow> call CURLOPT_SSL_VERIFYHOST
           | Some HCURL_OPT_ACCEPT_ENCODING \<Rightarrow> bad_argument
           | None \<Rightarrow> bad_argument)"

definition hcurl_easy_setopt_string ::
    "nat \<Rightarrow> (setopt_call \<Rightarrow> CURLcode) \<Rightarrow> CURL \<Rightarrow> int \<Rightarrow> string option \<Rightarrow> CURLcode \<times> setopt_call list" where
  "hcurl_easy_setopt_string version setopt easy opt v =
     (if easy = NULL then bad_argument
      else case v of None \<Rightarrow> bad_argument
        | Some str \<Rightarrow>
            (case easy_option_of opt of
               Some HCURL_OPT_ACCEPT_ENCODING \<Rightarrow>
                 call_setopt setopt
                   (if version \<ge> 0x071506 then CURLOPT_ACCEPT_ENCODING else CURLOPT_ENCODING)
                   (StringValue str)
             | _ \<Rightarrow> bad_argument))"

section \<open>Properties\<close>

text \<open>The option an adapter's calls name.\<close>

definition target :: "CURLcode \<times> setopt_call list \<Rightarrow> curl_option option" where
  "target r = (case snd r of [] \<Rightarrow> None | (opt, _) # _ \<Rightarrow> Some opt)"

lemma easy_option_inj:
  "easy_option_of m = Some x \<Longrightarrow> easy_option_of n = Some x \<Longrightarrow> m = n"
proof -
  assume a: "easy_option_of m = Some x" "easy_option_of n = Some x"
  have "distinct easy_options" by (simp add: easy_options_def)
  with a have "nat m = nat n"
    by (auto simp: easy_option_of_def nth_eq_iff_index_eq split: if_splits)
  with a show ?thesis by (auto simp: easy_option_of_def split: if_splits)
qed

lemma long_target_inj:
  assumes "target (hcurl_easy_setopt_long ver setopt easy m v) = Some t"
    and "target (hcurl_easy_setopt_long ver setopt easy n w) = Some t"
  shows "easy_option_of m = easy_option_of n"
  using assms
  by (auto simp: hcurl_easy_setopt_long_def target_def call_setopt_def bad_argument_def Let_def
    split: option.splits hcurl_easy_option.splits if_splits)



end
