(* ===== verification/Hcurl_Stream.thy ===== *)
theory Hcurl_Stream
  imports Hs_Extras Transfer_Registry "HOL-Library.Code_Target_Nat"
begin

text \<open>
  \<open>cbits/stream.c\<close>, first part: the stream object, a ring of chunks with flags and two one-shot
  waiters, and what each function does to it between locking and unlocking the mutex. Since the
  mutex protects every access, each such critical section is one atomic step; \<open>Stream_Api\<close>
  composes them into the functions of \<open>stream.c\<close>. A result \<open>None\<close> is undefined behaviour: an access
  outside the chunk array, a remainder by zero, or a read outside the data of a chunk.
\<close>

section \<open>The stream\<close>

datatype hcurl_stream_kind = HCURL_STREAM_DOWNLOAD | HCURL_STREAM_UPLOAD

record hcurl_chunk =
  chunk_data :: "byte list option"
  chunk_length :: size_t
  chunk_offset :: size_t

record hcurl_stream =
  kind :: hcurl_stream_kind
  chunks :: "hcurl_chunk list"
  s_capacity :: size_t
  s_head :: size_t
  s_tail :: size_t
  s_count :: size_t
  finished :: bool
  s_closed :: bool
  paused :: bool
  terminal_set :: bool
  cancel_sent :: bool
  s_terminal_code :: CURLcode
  read_waiter_present :: bool
  read_waiter :: hs_waker
  write_waiter_present :: bool
  write_waiter :: hs_waker
  s_sender :: addr
  s_transfer_id :: transfer_id
  s_easy :: CURL
  s_headers :: addr
  s_metrics :: addr

definition no_waker :: hs_waker where
  "no_waker = \<lparr>mvar = NULL, capability = 0, waked = False\<rparr>"

definition empty_chunk :: hcurl_chunk where
  "empty_chunk = \<lparr>chunk_data = None, chunk_length = 0, chunk_offset = 0\<rparr>"

definition clear_chunk :: "hcurl_chunk \<Rightarrow> hcurl_chunk" where
  "clear_chunk c = c\<lparr>chunk_data := None, chunk_length := 0, chunk_offset := 0\<rparr>"

text \<open>The object as \<open>hcurl_stream_create\<close> leaves it, \<open>calloc\<close> having zeroed the rest.\<close>

definition new_stream :: "hcurl_stream_kind \<Rightarrow> size_t \<Rightarrow> addr \<Rightarrow> transfer_id \<Rightarrow> hcurl_stream" where
  "new_stream k cap sender tid =
     \<lparr>kind = k, chunks = replicate cap empty_chunk, s_capacity = cap, s_head = 0, s_tail = 0,
      s_count = 0, finished = False, s_closed = False, paused = False, terminal_set = False,
      cancel_sent = False, s_terminal_code = CURLE_OK, read_waiter_present = False,
      read_waiter = no_waker, write_waiter_present = False, write_waiter = no_waker,
      s_sender = sender, s_transfer_id = tid, s_easy = NULL, s_headers = NULL, s_metrics = NULL\<rparr>"

section \<open>The ring\<close>

text \<open>\<open>(i + 1) % stream->capacity\<close>\<close>

definition next_slot :: "hcurl_stream \<Rightarrow> size_t \<Rightarrow> size_t" where
  "next_slot s i = sz_add i 1 mod s_capacity s"

definition slot_defined :: "hcurl_stream \<Rightarrow> size_t \<Rightarrow> bool" where
  "slot_defined s i \<longleftrightarrow> i < length (chunks s) \<and> s_capacity s \<noteq> 0"

text \<open>Store a copy of the data at the tail.\<close>

definition store_chunk :: "byte list \<Rightarrow> hcurl_stream \<Rightarrow> hcurl_stream option" where
  "store_chunk data s =
     (if slot_defined s (s_tail s)
      then Some (s\<lparr>chunks := (chunks s)[s_tail s :=
              (chunks s ! s_tail s)\<lparr>chunk_data := Some data, chunk_length := length data, chunk_offset := 0\<rparr>],
            s_tail := next_slot s (s_tail s), s_count := sz_add (s_count s) 1\<rparr>)
      else None)"

text \<open>Take the chunk at the head out of its slot.\<close>

definition pop_chunk :: "hcurl_stream \<Rightarrow> (hcurl_chunk \<times> hcurl_stream) option" where
  "pop_chunk s =
     (if slot_defined s (s_head s)
      then Some (chunks s ! s_head s,
        s\<lparr>chunks := (chunks s)[s_head s := clear_chunk (chunks s ! s_head s)],
          s_head := next_slot s (s_head s), s_count := sz_sub (s_count s) 1\<rparr>)
      else None)"

text \<open>\<open>drop_chunks_locked\<close>; the first argument is the count the loop tests.\<close>

fun drop_loop :: "nat \<Rightarrow> hcurl_stream \<Rightarrow> hcurl_stream option" where
  "drop_loop 0 s = Some s"
| "drop_loop (Suc n) s = (case pop_chunk s of None \<Rightarrow> None | Some (_, s') \<Rightarrow> drop_loop n s')"

definition drop_chunks_locked :: "hcurl_stream \<Rightarrow> hcurl_stream option" where
  "drop_chunks_locked s = map_option (\<lambda>t. t\<lparr>s_tail := s_head t\<rparr>) (drop_loop (s_count s) s)"

section \<open>Waiters\<close>

text \<open>The waker detached, if any, and what remains of the slot.\<close>

definition detach_waiter_locked :: "bool \<Rightarrow> hs_waker \<Rightarrow> hs_waker option \<times> bool \<times> hs_waker" where
  "detach_waiter_locked present stored =
     (if \<not> present then (None, present, stored) else (Some stored, False, stored\<lparr>mvar := NULL\<rparr>))"

definition wake_detached :: "hs_waker option \<Rightarrow> event list" where
  "wake_detached d = (case d of None \<Rightarrow> [] | Some w \<Rightarrow> fst (wake_up_waker w))"

definition detach_reader :: "hcurl_stream \<Rightarrow> hs_waker option \<times> hcurl_stream" where
  "detach_reader s =
     (case detach_waiter_locked (read_waiter_present s) (read_waiter s) of
        (d, p, w) \<Rightarrow> (d, s\<lparr>read_waiter_present := p, read_waiter := w\<rparr>))"

definition detach_writer :: "hcurl_stream \<Rightarrow> hs_waker option \<times> hcurl_stream" where
  "detach_writer s =
     (case detach_waiter_locked (write_waiter_present s) (write_waiter s) of
        (d, p, w) \<Rightarrow> (d, s\<lparr>write_waiter_present := p, write_waiter := w\<rparr>))"

section \<open>Critical sections of the callbacks\<close>

text \<open>
  \<open>hcurl_download_write_callback\<close>, lines 203 to 239: refused, paused because the ring is full, or
  stored, with the reader to wake and the easy handle to pause.
\<close>

datatype download_outcome = Refused | PausedFull | Stored "hs_waker option" CURL

definition download_locked :: "bool \<Rightarrow> byte list \<Rightarrow> hcurl_stream \<Rightarrow> (download_outcome \<times> hcurl_stream) option" where
  "download_locked malloc_ok data s =
     (if s_closed s \<or> terminal_set s then Some (Refused, s)
      else if s_count s = s_capacity s then Some (PausedFull, s\<lparr>paused := True\<rparr>)
      else if \<not> malloc_ok then Some (Refused, s)
      else do {
        s1 \<leftarrow> store_chunk data s;
        let full = (s_count s1 = s_capacity s1);
        let s2 = (if full then s1\<lparr>paused := True\<rparr> else s1);
        let (w, s3) = detach_reader s2;
        Some (Stored w (if full then s_easy s2 else NULL), s3)
      })"

text \<open>\<open>hcurl_upload_read_callback\<close>, lines 413 to 444; \<open>cap\<close> is the size of libcurl's buffer.\<close>

datatype upload_outcome = UploadAbort | UploadEof | UploadPause | Copied "byte list" "hs_waker option"

definition upload_locked :: "size_t \<Rightarrow> hcurl_stream \<Rightarrow> (upload_outcome \<times> hcurl_stream) option" where
  "upload_locked cap s =
     (if s_closed s \<or> (terminal_set s \<and> s_terminal_code s \<noteq> CURLE_OK) then Some (UploadAbort, s)
      else if s_count s = 0 then
        (if finished s then Some (UploadEof, s) else Some (UploadPause, s\<lparr>paused := True\<rparr>))
      else if \<not> slot_defined s (s_head s) then None
      else
        let was_full = (s_count s = s_capacity s);
            chunk = chunks s ! s_head s;
            remaining = sz_sub (chunk_length chunk) (chunk_offset chunk);
            copied = (if remaining < cap then remaining else cap)
        in case chunk_data chunk of
             None \<Rightarrow> None
           | Some d \<Rightarrow>
               if chunk_offset chunk + copied > length d then None
               else
                 let out = take copied (drop (chunk_offset chunk) d);
                     chunk' = chunk\<lparr>chunk_offset := sz_add (chunk_offset chunk) copied\<rparr>;
                     s1 = s\<lparr>chunks := (chunks s)[s_head s := chunk']\<rparr>
                 in do {
                      s2 \<leftarrow> (if chunk_offset chunk' = chunk_length chunk'
                             then map_option snd (pop_chunk s1) else Some s1);
                      let (w, s3) = (if was_full \<and> s_count s2 < s_capacity s2
                                     then detach_writer s2 else (None, s2));
                      Some (Copied out w, s3)
                    })"

section \<open>Critical sections of the Haskell side\<close>

datatype read_outcome =
  GotChunk "byte list option" size_t bool | ReadClosed | ReadTerminal CURLcode | ReadWouldBlock

definition try_read_locked :: "hcurl_stream \<Rightarrow> (read_outcome \<times> hcurl_stream) option" where
  "try_read_locked s =
     (if s_count s > 0 then do {
        (chunk, s1) \<leftarrow> pop_chunk s;
        Some (GotChunk (chunk_data chunk) (chunk_length chunk) (paused s1), s1)
      }
      else if s_closed s then Some (ReadClosed, s)
      else if terminal_set s then Some (ReadTerminal (s_terminal_code s), s)
      else Some (ReadWouldBlock, s))"

datatype write_outcome =
    WriteClosed | WriteTerminal CURLcode | WriteNothing | WriteWouldBlock | WriteNoMemory
  | WriteStored bool

definition try_write_locked :: "bool \<Rightarrow> byte list \<Rightarrow> hcurl_stream \<Rightarrow> (write_outcome \<times> hcurl_stream) option" where
  "try_write_locked malloc_ok data s =
     (if s_closed s then Some (WriteClosed, s)
      else if terminal_set s then Some (WriteTerminal (s_terminal_code s), s)
      else if finished s then Some (WriteClosed, s)
      else if length data = 0 then Some (WriteNothing, s)
      else if s_count s = s_capacity s then Some (WriteWouldBlock, s)
      else if \<not> malloc_ok then Some (WriteNoMemory, s)
      else do {
        s1 \<leftarrow> store_chunk data s;
        Some (WriteStored (paused s1), s1)
      })"

datatype hcurl_stream_wait_result =
    HCURL_STREAM_WAIT_REGISTERED | HCURL_STREAM_WAIT_READY | HCURL_STREAM_WAIT_CONTROL_PENDING
  | HCURL_STREAM_WAIT_INVALID

definition hcurl_stream_wait_read ::
    "HsStablePtr \<Rightarrow> int \<Rightarrow> hcurl_stream option \<Rightarrow> hcurl_stream_wait_result \<times> hcurl_stream option" where
  "hcurl_stream_wait_read mv cap sp =
     (case sp of
        None \<Rightarrow> (HCURL_STREAM_WAIT_INVALID, None)
      | Some s \<Rightarrow>
          if mv = NULL \<or> kind s \<noteq> HCURL_STREAM_DOWNLOAD then (HCURL_STREAM_WAIT_INVALID, Some s)
          else if s_count s > 0 \<or> s_closed s \<or> terminal_set s then (HCURL_STREAM_WAIT_READY, Some s)
          else if paused s then (HCURL_STREAM_WAIT_CONTROL_PENDING, Some s)
          else if read_waiter_present s then (HCURL_STREAM_WAIT_INVALID, Some s)
          else (HCURL_STREAM_WAIT_REGISTERED,
            Some (s\<lparr>read_waiter := \<lparr>mvar = mv, capability = cap, waked = False\<rparr>,
              read_waiter_present := True\<rparr>)))"

definition hcurl_stream_wait_write ::
    "HsStablePtr \<Rightarrow> int \<Rightarrow> hcurl_stream option \<Rightarrow> hcurl_stream_wait_result \<times> hcurl_stream option" where
  "hcurl_stream_wait_write mv cap sp =
     (case sp of
        None \<Rightarrow> (HCURL_STREAM_WAIT_INVALID, None)
      | Some s \<Rightarrow>
          if mv = NULL \<or> kind s \<noteq> HCURL_STREAM_UPLOAD then (HCURL_STREAM_WAIT_INVALID, Some s)
          else if s_count s < s_capacity s \<or> s_closed s \<or> terminal_set s
          then (HCURL_STREAM_WAIT_READY, Some s)
          else if write_waiter_present s then (HCURL_STREAM_WAIT_INVALID, Some s)
          else (HCURL_STREAM_WAIT_REGISTERED,
            Some (s\<lparr>write_waiter := \<lparr>mvar = mv, capability = cap, waked = False\<rparr>,
              write_waiter_present := True\<rparr>)))"

text \<open>\<open>cancel_waiter\<close> on the slot of either direction.\<close>

definition cancel_waiter :: "HsStablePtr \<Rightarrow> bool \<Rightarrow> hs_waker \<Rightarrow> bool \<times> bool \<times> hs_waker" where
  "cancel_waiter mv present w =
     (if mv \<noteq> NULL \<and> present \<and> mvar w = mv then (True, False, w\<lparr>mvar := NULL\<rparr>)
      else (False, present, w))"

definition hcurl_stream_cancel_wait_read ::
    "HsStablePtr \<Rightarrow> hcurl_stream option \<Rightarrow> bool \<times> hcurl_stream option" where
  "hcurl_stream_cancel_wait_read mv sp =
     (case sp of
        None \<Rightarrow> (False, None)
      | Some s \<Rightarrow>
          if kind s \<noteq> HCURL_STREAM_DOWNLOAD then (False, Some s)
          else case cancel_waiter mv (read_waiter_present s) (read_waiter s) of
            (removed, p, w) \<Rightarrow> (removed, Some (s\<lparr>read_waiter_present := p, read_waiter := w\<rparr>)))"

definition hcurl_stream_cancel_wait_write ::
    "HsStablePtr \<Rightarrow> hcurl_stream option \<Rightarrow> bool \<times> hcurl_stream option" where
  "hcurl_stream_cancel_wait_write mv sp =
     (case sp of
        None \<Rightarrow> (False, None)
      | Some s \<Rightarrow>
          if kind s \<noteq> HCURL_STREAM_UPLOAD then (False, Some s)
          else case cancel_waiter mv (write_waiter_present s) (write_waiter s) of
            (removed, p, w) \<Rightarrow> (removed, Some (s\<lparr>write_waiter_present := p, write_waiter := w\<rparr>)))"

text \<open>\<open>hcurl_stream_finish_upload\<close>, lines 542 to 555.\<close>

datatype finish_outcome = FinishClosed | FinishTerminal CURLcode | FinishSet bool

definition finish_locked :: "hcurl_stream \<Rightarrow> finish_outcome \<times> hcurl_stream" where
  "finish_locked s =
     (if s_closed s then (FinishClosed, s)
      else if terminal_set s then (FinishTerminal (s_terminal_code s), s)
      else (FinishSet (paused s), s\<lparr>finished := True\<rparr>))"

section \<open>Critical sections of control and completion\<close>

text \<open>\<open>hcurl_stream_flush_resume\<close>: before the message is sent (269 to 278), and after a failed attempt
  (291 to 295).\<close>

definition resume_begin_locked :: "hcurl_stream \<Rightarrow> bool \<times> hcurl_stream" where
  "resume_begin_locked s =
     (let needs_resume = (paused s \<and> \<not> s_closed s \<and> \<not> terminal_set s \<and> \<not> cancel_sent s)
      in (needs_resume, if needs_resume then s\<lparr>paused := False\<rparr> else s))"

definition resume_retry_locked :: "hcurl_stream \<Rightarrow> hcurl_stream" where
  "resume_retry_locked s =
     (if \<not> s_closed s \<and> \<not> terminal_set s \<and> \<not> cancel_sent s then s\<lparr>paused := True\<rparr> else s)"

text \<open>\<open>hcurl_stream_close\<close>: lines 570 to 582, and 595 to 599.\<close>

definition close_locked ::
    "hcurl_stream \<Rightarrow> ((hs_waker option \<times> hs_waker option \<times> bool) \<times> hcurl_stream) option" where
  "close_locked s = do {
     s1 \<leftarrow> drop_chunks_locked (s\<lparr>s_closed := True, paused := False\<rparr>);
     let (r, s2) = detach_reader s1;
     let (w, s3) = detach_writer s2;
     let needs_cancel = (\<not> terminal_set s3 \<and> \<not> cancel_sent s3);
     Some ((r, w, needs_cancel), if needs_cancel then s3\<lparr>cancel_sent := True\<rparr> else s3)
   }"

definition close_retry_locked :: "hcurl_stream \<Rightarrow> hcurl_stream" where
  "close_retry_locked s = (if \<not> terminal_set s then s\<lparr>cancel_sent := False\<rparr> else s)"

text \<open>\<open>hcurl_stream_normalize_completion\<close>\<close>

definition hcurl_stream_normalize_completion :: "hcurl_stream option \<Rightarrow> CURLcode \<Rightarrow> CURLcode" where
  "hcurl_stream_normalize_completion sp code =
     (case sp of
        None \<Rightarrow> code
      | Some s \<Rightarrow> if s_closed s \<or> cancel_sent s then CURLE_ABORTED_BY_CALLBACK else code)"

text \<open>\<open>hcurl_stream_complete\<close>, lines 624 to 635.\<close>

definition complete_locked ::
    "CURLcode \<Rightarrow> hcurl_stream \<Rightarrow> (hs_waker option \<times> hs_waker option) \<times> hcurl_stream" where
  "complete_locked code s =
     (let s1 = (if \<not> terminal_set s then s\<lparr>terminal_set := True, s_terminal_code := code\<rparr> else s);
          (r, s2) = detach_reader (s1\<lparr>s_easy := NULL, paused := False\<rparr>);
          (w, s3) = detach_writer s2
      in ((r, w), s3))"

text \<open>\<open>hcurl_stream_destroy\<close>, lines 163 to 170.\<close>

definition destroy_locked ::
    "hcurl_stream \<Rightarrow> ((hs_waker option \<times> hs_waker option) \<times> hcurl_stream) option" where
  "destroy_locked s = do {
     s1 \<leftarrow> drop_chunks_locked (s\<lparr>s_closed := True\<rparr>);
     let (r, s2) = detach_reader s1;
     let (w, s3) = detach_writer s2;
     Some ((r, w), s3)
   }"

section \<open>The ring as a list of chunks\<close>

definition chunk_rest :: "hcurl_chunk \<Rightarrow> byte list" where
  "chunk_rest c = drop (chunk_offset c) (the (chunk_data c))"

definition occupied :: "hcurl_stream \<Rightarrow> nat list" where
  "occupied s = ring_slots (s_capacity s) (s_head s) (s_count s)"

text \<open>The queued chunks in order, and the bytes of each not yet consumed.\<close>

definition queued :: "hcurl_stream \<Rightarrow> hcurl_chunk list" where
  "queued s = map (\<lambda>i. chunks s ! i) (occupied s)"

definition pending :: "hcurl_stream \<Rightarrow> byte list list" where
  "pending s = map chunk_rest (queued s)"

definition chunk_ok :: "hcurl_chunk \<Rightarrow> bool" where
  "chunk_ok c \<longleftrightarrow> (\<exists>d. chunk_data c = Some d \<and> chunk_length c = length d \<and> chunk_offset c \<le> length d)"

text \<open>
  The indices are consistent, an occupied slot owns its data, and a free slot owns none, so nothing
  leaks when a slot is reused.
\<close>

definition ring_inv :: "hcurl_stream \<Rightarrow> bool" where
  "ring_inv s \<longleftrightarrow> 0 < s_capacity s \<and> s_capacity s < SIZE_MAX \<and> length (chunks s) = s_capacity s
     \<and> s_head s < s_capacity s \<and> s_count s \<le> s_capacity s
     \<and> s_tail s = (s_head s + s_count s) mod s_capacity s
     \<and> (\<forall>i < s_capacity s. if i \<in> set (occupied s) then chunk_ok (chunks s ! i)
          else chunk_data (chunks s ! i) = None)"

text \<open>Two streams with the same fields outside the ring.\<close>

definition no_ring :: "hcurl_stream \<Rightarrow> hcurl_stream" where
  "no_ring s = s\<lparr>chunks := [], s_head := 0, s_tail := 0, s_count := 0\<rparr>"

definition same_flags :: "hcurl_stream \<Rightarrow> hcurl_stream \<Rightarrow> bool" where
  "same_flags s t \<longleftrightarrow> no_ring t = no_ring s"

lemma same_flags_by:
  "(\<And>r. f (no_ring r) = f r) \<Longrightarrow> same_flags s t \<Longrightarrow> f t = f s"
  unfolding same_flags_def by (metis)

lemma same_flags_fields:
  assumes "same_flags s t"
  shows "kind t = kind s" "s_capacity t = s_capacity s" "finished t = finished s"
     "s_closed t = s_closed s" "paused t = paused s" "terminal_set t = terminal_set s"
     "cancel_sent t = cancel_sent s" "s_terminal_code t = s_terminal_code s" "read_waiter_present t = read_waiter_present s"
     "read_waiter t = read_waiter s" "write_waiter_present t = write_waiter_present s" "write_waiter t = write_waiter s"
     "s_transfer_id t = s_transfer_id s" "s_easy t = s_easy s" "s_headers t = s_headers s"
     "s_metrics t = s_metrics s" "s_sender t = s_sender s"
  by (rule same_flags_by [OF _ assms]; simp add: no_ring_def)+

lemma same_flags_refl: "same_flags s s"
  by (simp add: same_flags_def)

lemma same_flags_trans: "same_flags s t \<Longrightarrow> same_flags t u \<Longrightarrow> same_flags s u"
  by (simp add: same_flags_def)

lemma queued_length [simp]: "length (queued s) = s_count s" "length (pending s) = s_count s"
  by (simp_all add: pending_def queued_def occupied_def)

lemma occupied_less: "ring_inv s \<Longrightarrow> i \<in> set (occupied s) \<Longrightarrow> i < s_capacity s"
  by (auto simp: ring_inv_def occupied_def ring_slots_less)

lemma new_ring: "0 < cap \<Longrightarrow> cap < SIZE_MAX \<Longrightarrow>
    ring_inv (new_stream k cap sender tid) \<and> pending (new_stream k cap sender tid) = []"
  by (simp add: ring_inv_def new_stream_def occupied_def pending_def queued_def empty_chunk_def)

lemma store_ring:
  assumes inv: "ring_inv s" and room: "s_count s < s_capacity s"
  shows "\<exists>t. store_chunk d s = Some t \<and> ring_inv t
    \<and> queued t = queued s @ [\<lparr>chunk_data = Some d, chunk_length = length d, chunk_offset = 0\<rparr>]
    \<and> s_count t = s_count s + 1 \<and> same_flags s t"
proof -
  let ?n = "s_capacity s" and ?h = "s_head s" and ?c = "s_count s" and ?i = "s_tail s"
  have n: "0 < ?n" "?n < SIZE_MAX" "length (chunks s) = ?n" "?h < ?n" "?c \<le> ?n"
    and tail: "?i = (?h + ?c) mod ?n"
    and slots: "\<forall>i < ?n. if i \<in> set (occupied s) then chunk_ok (chunks s ! i)
          else chunk_data (chunks s ! i) = None"
    using inv by (auto simp: ring_inv_def)
  have tl: "?i < ?n" using tail n by simp
  have fresh: "?i \<notin> set (occupied s)"
    using ring_slot_fresh [OF room] by (simp add: occupied_def tail)
  define c where "c = (chunks s ! ?i)\<lparr>chunk_data := Some d, chunk_length := length d, chunk_offset := 0\<rparr>"
  define t where "t = s\<lparr>chunks := (chunks s)[?i := c], s_tail := next_slot s ?i,
      s_count := sz_add ?c 1\<rparr>"
  have c: "chunk_ok c" "c = \<lparr>chunk_data = Some d, chunk_length = length d, chunk_offset = 0\<rparr>"
    by (simp_all add: c_def chunk_ok_def)
  have "sz_add ?i 1 = Suc ?i" "sz_add ?c 1 = Suc ?c" using n tl room by (simp_all add: size_simps)
  then have t: "chunks t = (chunks s)[?i := c]" "s_capacity t = ?n" "s_head t = ?h"
    "s_count t = Suc ?c" "s_tail t = (?h + Suc ?c) mod ?n"
    by (simp_all add: t_def next_slot_def tail mod_Suc_eq)
  have occ: "occupied t = occupied s @ [?i]" by (simp add: occupied_def t ring_slots_snoc tail)
  have "queued t = map (\<lambda>i. chunks t ! i) (occupied s) @ [c]"
    unfolding queued_def occ using n tl by (simp add: t)
  also have "map (\<lambda>i. chunks t ! i) (occupied s) = queued s"
    unfolding queued_def by (rule map_cong) (use fresh nth_list_update_neq in \<open>metis t(1)\<close>)+
  finally have pend: "queued t = queued s @ [c]" .
  have "if i \<in> set (occupied t) then chunk_ok (chunks t ! i) else chunk_data (chunks t ! i) = None"
    if "i < ?n" for i
    using slots [rule_format, OF that] that n(3) tl fresh c(1)
    unfolding occ t by (cases "i = ?i") auto
  then have "ring_inv t" using n room unfolding ring_inv_def t by (intro conjI allI impI) auto
  moreover have "store_chunk d s = Some t"
    using tl n by (simp add: store_chunk_def slot_defined_def t_def c_def)
  moreover have "same_flags s t" by (simp add: same_flags_def no_ring_def t_def)
  ultimately show ?thesis using pend t c(2) by auto
qed

lemma pop_ring:
  assumes inv: "ring_inv s" and some: "0 < s_count s"
  shows "\<exists>c t. pop_chunk s = Some (c, t) \<and> ring_inv t \<and> queued s = c # queued t
    \<and> s_count s = s_count t + 1 \<and> same_flags s t \<and> c = chunks s ! s_head s \<and> chunk_ok c"
proof -
  let ?n = "s_capacity s" and ?h = "s_head s"
  obtain k where k: "s_count s = Suc k" using some by (cases "s_count s") auto
  have n: "0 < ?n" "?n < SIZE_MAX" "length (chunks s) = ?n" "?h < ?n" "s_count s \<le> ?n"
    and tail: "s_tail s = (?h + s_count s) mod ?n"
    and slots: "\<forall>i < ?n. if i \<in> set (occupied s) then chunk_ok (chunks s ! i)
          else chunk_data (chunks s ! i) = None"
    using inv by (auto simp: ring_inv_def)
  define c where "c = clear_chunk (chunks s ! ?h)"
  define t where "t = s\<lparr>chunks := (chunks s)[?h := c], s_head := next_slot s ?h,
      s_count := sz_sub (s_count s) 1\<rparr>"
  have c: "chunk_data c = None" by (simp add: c_def clear_chunk_def)
  have t: "chunks t = (chunks s)[?h := c]" "s_capacity t = ?n" "s_head t = Suc ?h mod ?n"
    "s_count t = k" "s_tail t = s_tail s"
    using n k by (simp_all add: t_def size_simps next_slot_def)
  have occ: "occupied s = ?h # occupied t"
    using n(4) by (simp add: occupied_def k ring_slots_Cons t)
  have dist: "?h \<notin> set (occupied t)"
    using ring_slots_distinct [OF n(5), of ?h] occ by (simp add: occupied_def [of s, symmetric])
  have "queued t = map (\<lambda>i. chunks s ! i) (occupied t)"
    unfolding queued_def by (rule map_cong) (use dist nth_list_update_neq in \<open>metis t(1)\<close>)+
  then have pend: "queued s = chunks s ! ?h # queued t" unfolding queued_def [of s] occ by simp
  have "if i \<in> set (occupied t) then chunk_ok (chunks t ! i) else chunk_data (chunks t ! i) = None"
    if "i < ?n" for i
    using slots [rule_format, OF that] that n(3,4) dist c unfolding occ t by (cases "i = ?h") auto
  moreover have "s_tail s = (Suc ?h mod ?n + k) mod ?n" by (simp add: tail k mod_add_left_eq)
  ultimately have "ring_inv t"
    using n k unfolding ring_inv_def t by (intro conjI allI impI) auto
  moreover have "pop_chunk s = Some (chunks s ! ?h, t)"
    using n by (simp add: pop_chunk_def slot_defined_def t_def c_def)
  moreover have "same_flags s t" by (simp add: same_flags_def no_ring_def t_def)
  moreover have "chunk_ok (chunks s ! ?h)" using slots [rule_format, OF n(4)] occ by simp
  ultimately show ?thesis using pend k t(4) by auto
qed

lemma drop_loop_ring:
  "ring_inv s \<Longrightarrow> s_count s = n \<Longrightarrow>
   \<exists>t. drop_loop n s = Some t \<and> ring_inv t \<and> s_count t = 0 \<and> same_flags s t"
proof (induction n arbitrary: s)
  case 0
  then show ?case by (simp add: same_flags_refl)
next
  case (Suc n)
  obtain c s1 where p: "pop_chunk s = Some (c, s1)" "ring_inv s1" "s_count s1 = n" "same_flags s s1"
    using pop_ring [OF Suc.prems(1)] Suc.prems(2) by auto
  from Suc.IH [OF p(2,3)] p(1,4) show ?case using same_flags_trans by auto
qed

lemma drop_ring:
  assumes "ring_inv s"
  shows "\<exists>t. drop_chunks_locked s = Some t \<and> ring_inv t \<and> s_count t = 0 \<and> queued t = []
    \<and> same_flags s t \<and> (\<forall>c \<in> set (chunks t). chunk_data c = None)"
proof -
  obtain t where t: "drop_loop (s_count s) s = Some t" "ring_inv t" "s_count t = 0" "same_flags s t"
    using drop_loop_ring [OF assms refl] by blast
  have "t\<lparr>s_tail := s_head t\<rparr> = t" using t(2,3) by (simp add: ring_inv_def)
  moreover have "\<forall>c \<in> set (chunks t). chunk_data c = None"
    using t(2,3) by (auto simp: ring_inv_def occupied_def in_set_conv_nth)
  ultimately show ?thesis using t by (simp add: drop_chunks_locked_def queued_def occupied_def)
qed

text \<open>The ring provides the contract of a bounded FIFO.\<close>

definition ring_put :: "byte list \<Rightarrow> hcurl_stream \<Rightarrow> hcurl_stream option" where
  "ring_put d s = (if s_count s = s_capacity s then None else store_chunk d s)"

definition ring_get :: "hcurl_stream \<Rightarrow> (byte list \<times> hcurl_stream) option" where
  "ring_get s = (if s_count s = 0 then None
     else map_option (\<lambda>(c, t). (chunk_rest c, t)) (pop_chunk s))"

lemma ring_room: "ring_inv s \<Longrightarrow> s_count s \<noteq> s_capacity s \<Longrightarrow> s_count s < s_capacity s"
  by (simp add: ring_inv_def)

lemma ring_put_law:
  assumes "ring_inv s"
  shows "ring_put d s = None \<longleftrightarrow> s_count s = s_capacity s"
    and "ring_put d s = Some t \<Longrightarrow>
      pending t = pending s @ [d] \<and> ring_inv t \<and> s_capacity t = s_capacity s"
  using store_ring [OF assms ring_room [OF assms], of d] same_flags_fields(2)
  by (auto simp: ring_put_def pending_def chunk_rest_def split: if_splits)

lemma ring_get_law:
  assumes "ring_inv s"
  shows "ring_get s = None \<longleftrightarrow> s_count s = 0"
    and "ring_get s = Some (d, t) \<Longrightarrow>
      pending s = d # pending t \<and> ring_inv t \<and> s_capacity t = s_capacity s"
  using pop_ring [OF assms] same_flags_fields(2)
  by (auto simp: ring_get_def pending_def split: if_splits)

interpretation ring: bounded_fifo pending s_capacity ring_inv ring_put ring_get
proof (unfold_locales, goal_cases)
  case (1 q)
  then show ?case by (simp add: ring_inv_def)
next
  case (5 q)
  then show ?case using ring_get_law(1) [of q] by (simp flip: length_0_conv)
next
  case (2 q x)
  then show ?case using ring_put_law(1) [of q x] by simp
next
  case (3 q x q')
  then show ?case using ring_put_law(2) [of q x q'] by simp
next
  case (4 q x q')
  then show ?case using ring_put_law(2) [of q x q'] by simp
next
  case (6 q x q')
  then show ?case using ring_get_law(2) [of q x q'] by simp
next
  case (7 q x q')
  then show ?case using ring_get_law(2) [of q x q'] by simp
qed

section \<open>The invariant of a stream\<close>

text \<open>
  A queued chunk has bytes left and fits a \<open>size_t\<close>; in a download nothing of it was consumed.
\<close>

definition chunk_good :: "hcurl_stream_kind \<Rightarrow> hcurl_chunk \<Rightarrow> bool" where
  "chunk_good k c \<longleftrightarrow> chunk_ok c \<and> chunk_offset c < chunk_length c \<and> chunk_length c \<le> SIZE_MAX
     \<and> (k = HCURL_STREAM_DOWNLOAD \<longrightarrow> chunk_offset c = 0)"

definition waker_good :: "hs_waker \<Rightarrow> bool" where
  "waker_good w \<longleftrightarrow> mvar w \<noteq> NULL \<and> \<not> waked w"

text \<open>
  A reader waits only while there is nothing to read and no end in sight, a writer only while the
  ring is full: whatever ends the reason for waiting has taken the waiter out. A closed stream is
  empty.
\<close>

definition stream_inv :: "hcurl_stream \<Rightarrow> bool" where
  "stream_inv s \<longleftrightarrow> ring_inv s \<and> list_all (chunk_good (kind s)) (queued s)
     \<and> (read_waiter_present s \<longrightarrow> waker_good (read_waiter s) \<and> kind s = HCURL_STREAM_DOWNLOAD
          \<and> s_count s = 0 \<and> \<not> s_closed s \<and> \<not> terminal_set s)
     \<and> (write_waiter_present s \<longrightarrow> waker_good (write_waiter s) \<and> kind s = HCURL_STREAM_UPLOAD
          \<and> s_count s = s_capacity s \<and> \<not> s_closed s \<and> \<not> terminal_set s)
     \<and> (s_closed s \<longrightarrow> s_count s = 0)"

definition stream_waiting :: "hcurl_stream \<Rightarrow> (HsStablePtr \<times> int) list" where
  "stream_waiting s =
     (if read_waiter_present s then [(mvar (read_waiter s), capability (read_waiter s))] else [])
     @ (if write_waiter_present s then [(mvar (write_waiter s), capability (write_waiter s))] else [])"

text \<open>The bytes queued and not yet consumed.\<close>

definition unread :: "hcurl_stream \<Rightarrow> byte list" where
  "unread s = concat (pending s)"

lemma new_stream_inv:
  "0 < cap \<Longrightarrow> cap < SIZE_MAX \<Longrightarrow> stream_inv (new_stream k cap sender tid)
     \<and> stream_waiting (new_stream k cap sender tid) = [] \<and> unread (new_stream k cap sender tid) = []"
  using new_ring [of cap k sender tid]
  by (auto simp: stream_inv_def unread_def stream_waiting_def pending_def) (auto simp: new_stream_def)

text \<open>Updates outside the ring leave it alone.\<close>

lemma ring_frame [simp]:
  "ring_inv (s\<lparr>finished := b\<rparr>) = ring_inv s" "queued (s\<lparr>finished := b\<rparr>) = queued s"
  "ring_inv (s\<lparr>s_closed := b\<rparr>) = ring_inv s" "queued (s\<lparr>s_closed := b\<rparr>) = queued s"
  "ring_inv (s\<lparr>paused := b\<rparr>) = ring_inv s" "queued (s\<lparr>paused := b\<rparr>) = queued s"
  "ring_inv (s\<lparr>terminal_set := b\<rparr>) = ring_inv s" "queued (s\<lparr>terminal_set := b\<rparr>) = queued s"
  "ring_inv (s\<lparr>cancel_sent := b\<rparr>) = ring_inv s" "queued (s\<lparr>cancel_sent := b\<rparr>) = queued s"
  "ring_inv (s\<lparr>s_terminal_code := k\<rparr>) = ring_inv s" "queued (s\<lparr>s_terminal_code := k\<rparr>) = queued s"
  "ring_inv (s\<lparr>read_waiter_present := b\<rparr>) = ring_inv s" "queued (s\<lparr>read_waiter_present := b\<rparr>) = queued s"
  "ring_inv (s\<lparr>read_waiter := w\<rparr>) = ring_inv s" "queued (s\<lparr>read_waiter := w\<rparr>) = queued s"
  "ring_inv (s\<lparr>write_waiter_present := b\<rparr>) = ring_inv s" "queued (s\<lparr>write_waiter_present := b\<rparr>) = queued s"
  "ring_inv (s\<lparr>write_waiter := w\<rparr>) = ring_inv s" "queued (s\<lparr>write_waiter := w\<rparr>) = queued s"
  "ring_inv (s\<lparr>s_easy := a\<rparr>) = ring_inv s" "queued (s\<lparr>s_easy := a\<rparr>) = queued s"
  "ring_inv (s\<lparr>s_headers := a\<rparr>) = ring_inv s" "queued (s\<lparr>s_headers := a\<rparr>) = queued s"
  "ring_inv (s\<lparr>s_metrics := a\<rparr>) = ring_inv s" "queued (s\<lparr>s_metrics := a\<rparr>) = queued s"
  by (simp_all add: ring_inv_def queued_def occupied_def)

lemma unread_frame: "queued t = queued s \<Longrightarrow> unread t = unread s"
  by (simp add: pending_def unread_def)

lemmas detach_simps = detach_reader_def detach_writer_def detach_waiter_locked_def

lemma detach_reader_law:
  assumes "read_waiter_present s \<longrightarrow> waker_good (read_waiter s)" and "detach_reader s = (w, t)"
  shows "mset (stream_waiting s) = mset (put_calls (wake_detached w)) + mset (stream_waiting t)"
    and "t = s\<lparr>read_waiter_present := False, read_waiter := read_waiter t\<rparr>"
proof -
  let ?t = "s\<lparr>read_waiter_present := False, read_waiter := (read_waiter s)\<lparr>mvar := NULL\<rparr>\<rparr>"
  consider "\<not> read_waiter_present s" "w = None" "t = s"
    | "read_waiter_present s" "w = Some (read_waiter s)" "t = ?t"
    using assms(2) by (auto simp: detach_simps split: if_splits)
  note two = this
  show "mset (stream_waiting s) = mset (put_calls (wake_detached w)) + mset (stream_waiting t)"
    using two assms(1)
    by cases (simp_all add: stream_waiting_def wake_detached_def wake_up_waker_def waker_good_def)
  show "t = s\<lparr>read_waiter_present := False, read_waiter := read_waiter t\<rparr>"
    using two by cases simp_all
qed

lemma detach_writer_law:
  assumes "write_waiter_present s \<longrightarrow> waker_good (write_waiter s)" and "detach_writer s = (w, t)"
  shows "mset (stream_waiting s) = mset (put_calls (wake_detached w)) + mset (stream_waiting t)"
    and "t = s\<lparr>write_waiter_present := False, write_waiter := write_waiter t\<rparr>"
proof -
  let ?t = "s\<lparr>write_waiter_present := False, write_waiter := (write_waiter s)\<lparr>mvar := NULL\<rparr>\<rparr>"
  consider "\<not> write_waiter_present s" "w = None" "t = s"
    | "write_waiter_present s" "w = Some (write_waiter s)" "t = ?t"
    using assms(2) by (auto simp: detach_simps split: if_splits)
  note two = this
  show "mset (stream_waiting s) = mset (put_calls (wake_detached w)) + mset (stream_waiting t)"
    using two assms(1)
    by cases (simp_all add: stream_waiting_def wake_detached_def wake_up_waker_def waker_good_def)
  show "t = s\<lparr>write_waiter_present := False, write_waiter := write_waiter t\<rparr>"
    using two by cases simp_all
qed

lemma waiting_frame:
  "read_waiter_present t = read_waiter_present s \<Longrightarrow> read_waiter t = read_waiter s \<Longrightarrow>
   write_waiter_present t = write_waiter_present s \<Longrightarrow> write_waiter t = write_waiter s \<Longrightarrow>
   stream_waiting t = stream_waiting s"
  by (simp add: stream_waiting_def)

lemma flag_frame [simp]:
  "stream_inv (s\<lparr>paused := b\<rparr>) = stream_inv s" "unread (s\<lparr>paused := b\<rparr>) = unread s"
  "stream_waiting (s\<lparr>paused := b\<rparr>) = stream_waiting s"
  "stream_inv (s\<lparr>finished := b\<rparr>) = stream_inv s" "unread (s\<lparr>finished := b\<rparr>) = unread s"
  "stream_waiting (s\<lparr>finished := b\<rparr>) = stream_waiting s"
  "stream_inv (s\<lparr>cancel_sent := b\<rparr>) = stream_inv s" "unread (s\<lparr>cancel_sent := b\<rparr>) = unread s"
  "stream_waiting (s\<lparr>cancel_sent := b\<rparr>) = stream_waiting s"
  "stream_inv (s\<lparr>s_easy := a\<rparr>) = stream_inv s" "unread (s\<lparr>s_easy := a\<rparr>) = unread s"
  "stream_waiting (s\<lparr>s_easy := a\<rparr>) = stream_waiting s"
  "stream_inv (s\<lparr>s_headers := a\<rparr>) = stream_inv s" "unread (s\<lparr>s_headers := a\<rparr>) = unread s"
  "stream_waiting (s\<lparr>s_headers := a\<rparr>) = stream_waiting s"
  "stream_inv (s\<lparr>s_metrics := a\<rparr>) = stream_inv s" "unread (s\<lparr>s_metrics := a\<rparr>) = unread s"
  "stream_waiting (s\<lparr>s_metrics := a\<rparr>) = stream_waiting s"
  by (simp_all add: stream_inv_def unread_def pending_def stream_waiting_def)

lemma store_stream:
  assumes inv: "stream_inv s" and room: "s_count s \<noteq> s_capacity s" and open_s: "\<not> s_closed s"
    and d: "d \<noteq> []" "length d \<le> SIZE_MAX"
  shows "\<exists>t. store_chunk d s = Some t \<and> ring_inv t \<and> list_all (chunk_good (kind s)) (queued t)
    \<and> unread t = unread s @ d \<and> s_count t = s_count s + 1 \<and> same_flags s t
    \<and> stream_waiting t = stream_waiting s \<and> \<not> write_waiter_present t"
proof -
  have r: "ring_inv s" using inv by (simp add: stream_inv_def)
  obtain t where t: "store_chunk d s = Some t" "ring_inv t"
    "queued t = queued s @ [\<lparr>chunk_data = Some d, chunk_length = length d, chunk_offset = 0\<rparr>]"
    "s_count t = s_count s + 1" "same_flags s t"
    using store_ring [OF r ring_room [OF r room], of d] by blast
  note f = same_flags_fields [OF t(5)]
  have "\<not> write_waiter_present t" using inv room f by (auto simp: stream_inv_def)
  moreover have "unread t = unread s @ d" by (simp add: unread_def pending_def t(3) chunk_rest_def)
  moreover have "list_all (chunk_good (kind s)) (queued t)"
    using inv d by (auto simp: stream_inv_def t(3) chunk_good_def chunk_ok_def)
  ultimately show ?thesis using t waiting_frame [of t s] f by blast
qed

section \<open>The critical sections keep the invariant\<close>

definition download_wakes :: "download_outcome \<Rightarrow> event list" where
  "download_wakes r = (case r of Stored w e \<Rightarrow> wake_detached w | _ \<Rightarrow> [])"

definition download_bytes :: "byte list \<Rightarrow> download_outcome \<Rightarrow> byte list" where
  "download_bytes d r = (case r of Stored w e \<Rightarrow> d | _ \<Rightarrow> [])"

lemma download_law:
  assumes inv: "stream_inv s" and k: "kind s = HCURL_STREAM_DOWNLOAD"
    and d: "d \<noteq> []" "length d \<le> SIZE_MAX"
  shows "\<exists>r t. download_locked m d s = Some (r, t) \<and> stream_inv t \<and> kind t = kind s
    \<and> s_capacity t = s_capacity s \<and> unread t = unread s @ download_bytes d r
    \<and> mset (stream_waiting s) = mset (put_calls (download_wakes r)) + mset (stream_waiting t)
    \<and> (r = PausedFull \<longrightarrow> s_count s = s_capacity s \<and> paused t)
    \<and> (\<forall>w e. r = Stored w e \<longrightarrow> s_count t = s_count s + 1 \<and> \<not> read_waiter_present t
         \<and> e = (if s_count t = s_capacity t then s_easy s else NULL)
         \<and> paused t = (s_count t = s_capacity t \<or> paused s))"
proof (cases "s_closed s \<or> terminal_set s \<or> s_count s = s_capacity s \<or> \<not> m")
  case True
  let ?full = "\<not> s_closed s \<and> \<not> terminal_set s \<and> s_count s = s_capacity s"
  have "download_locked m d s = Some (if ?full then (PausedFull, s\<lparr>paused := True\<rparr>) else (Refused, s))"
    using True by (auto simp: download_locked_def)
  then show ?thesis
    using inv by (cases ?full) (simp_all add: download_wakes_def download_bytes_def)
next
  case False
  then obtain t1 where t1: "store_chunk d s = Some t1" "ring_inv t1"
    "list_all (chunk_good (kind s)) (queued t1)" "unread t1 = unread s @ d"
    "s_count t1 = s_count s + 1" "same_flags s t1" "stream_waiting t1 = stream_waiting s"
    "\<not> write_waiter_present t1"
    using store_stream [OF inv _ _ d] by blast
  note f = same_flags_fields [OF t1(6)]
  define full where "full = (s_count t1 = s_capacity t1)"
  define t2 where "t2 = (if full then t1\<lparr>paused := True\<rparr> else t1)"
  obtain w t3 where det: "detach_reader t2 = (w, t3)" by (cases "detach_reader t2")
  have t2: "ring_inv t2" "queued t2 = queued t1" "kind t2 = kind s" "s_count t2 = s_count t1"
    "s_capacity t2 = s_capacity s" "s_closed t2 = s_closed s" "terminal_set t2 = terminal_set s"
    "read_waiter_present t2 = read_waiter_present s" "read_waiter t2 = read_waiter s"
    "\<not> write_waiter_present t2" "stream_waiting t2 = stream_waiting s" "s_easy t2 = s_easy s"
    "paused t2 = (full \<or> paused s)"
    using t1 f by (auto simp: t2_def stream_waiting_def)
  have good: "read_waiter_present t2 \<longrightarrow> waker_good (read_waiter t2)"
    using inv t2 by (simp add: stream_inv_def)
  note dl = detach_reader_law [OF good det]
  obtain w' where e3: "t3 = t2\<lparr>read_waiter_present := False, read_waiter := w'\<rparr>" using dl(2) by blast
  have t3: "ring_inv t3" "queued t3 = queued t1" "kind t3 = kind s" "s_count t3 = s_count t1"
    "s_capacity t3 = s_capacity s" "\<not> read_waiter_present t3" "\<not> write_waiter_present t3"
    "s_closed t3 = s_closed s" "paused t3 = (full \<or> paused s)"
    by (simp_all add: e3 t2)
  have "download_locked m d s = Some (Stored w (if full then s_easy s else NULL), t3)"
    using False t1(1) det f(14) by (simp add: download_locked_def Let_def full_def t2_def)
  moreover have "stream_inv t3" using t3 t1(3) False by (simp add: stream_inv_def)
  moreover have "unread t3 = unread s @ d" using t1(4) unread_frame [OF t3(2)] by simp
  ultimately show ?thesis
    using dl(1) t2(11) t3 t1(5) f(2)
    by (simp add: download_wakes_def download_bytes_def full_def)
qed

text \<open>Consuming a part of the first chunk.\<close>

lemma head_ring:
  assumes inv: "ring_inv s" and some: "0 < s_count s" and ok: "chunk_ok c"
  shows "ring_inv (s\<lparr>chunks := (chunks s)[s_head s := c]\<rparr>)"
    and "queued (s\<lparr>chunks := (chunks s)[s_head s := c]\<rparr>) = c # tl (queued s)"
    and "queued s = chunks s ! s_head s # tl (queued s)" and "slot_defined s (s_head s)"
proof -
  let ?n = "s_capacity s" and ?h = "s_head s"
  let ?s = "s\<lparr>chunks := (chunks s)[?h := c]\<rparr>"
  have n: "0 < ?n" "length (chunks s) = ?n" "?h < ?n" "s_count s \<le> ?n"
    and slots: "\<forall>i < ?n. if i \<in> set (occupied s) then chunk_ok (chunks s ! i)
          else chunk_data (chunks s ! i) = None"
    using inv by (auto simp: ring_inv_def)
  show "slot_defined s ?h" using n by (simp add: slot_defined_def)
  obtain k where k: "s_count s = Suc k" using some by (cases "s_count s") auto
  have occ: "occupied s = ?h # ring_slots ?n ((?h + 1) mod ?n) k" "occupied ?s = occupied s"
    using n by (simp_all add: occupied_def k ring_slots_Cons)
  then have dist: "?h \<notin> set (ring_slots ?n ((?h + 1) mod ?n) k)"
    using ring_slots_distinct [OF n(4), of ?h] by (simp add: occupied_def)
  show "queued s = chunks s ! ?h # tl (queued s)" by (simp add: queued_def occ)
  have "map (\<lambda>i. chunks ?s ! i) (ring_slots ?n ((?h + 1) mod ?n) k)
      = map (\<lambda>i. chunks s ! i) (ring_slots ?n ((?h + 1) mod ?n) k)"
  proof (rule map_cong [OF refl])
    fix i assume "i \<in> set (ring_slots ?n ((?h + 1) mod ?n) k)"
    then have "?h \<noteq> i" using dist by blast
    then show "chunks ?s ! i = chunks s ! i" by simp
  qed
  then show "queued ?s = c # tl (queued s)" using n by (simp add: queued_def occ)
  have "if i \<in> set (occupied ?s) then chunk_ok (chunks ?s ! i) else chunk_data (chunks ?s ! i) = None"
    if "i < ?n" for i
    using slots [rule_format, OF that] that n ok unfolding occ(2) by (cases "i = ?h") (auto simp: occ(1))
  then have "\<forall>i < ?n. if i \<in> set (occupied ?s) then chunk_ok (chunks ?s ! i)
      else chunk_data (chunks ?s ! i) = None" by blast
  then show "ring_inv ?s" using inv by (simp add: ring_inv_def)
qed

definition upload_wakes :: "upload_outcome \<Rightarrow> event list" where
  "upload_wakes r = (case r of Copied out w \<Rightarrow> wake_detached w | _ \<Rightarrow> [])"

definition upload_bytes :: "upload_outcome \<Rightarrow> byte list" where
  "upload_bytes r = (case r of Copied out w \<Rightarrow> out | _ \<Rightarrow> [])"

text \<open>What the copying branch does to the ring.\<close>

lemma consume_ring:
  assumes inv: "stream_inv s" and k: "kind s = HCURL_STREAM_UPLOAD" and some: "s_count s \<noteq> 0"
    and cap: "0 < cap"
    and c: "c = chunks s ! s_head s" and rem: "remaining = sz_sub (chunk_length c) (chunk_offset c)"
    and cop: "copied = (if remaining < cap then remaining else cap)"
    and c': "c' = c\<lparr>chunk_offset := sz_add (chunk_offset c) copied\<rparr>"
    and s1: "s1 = s\<lparr>chunks := (chunks s)[s_head s := c']\<rparr>"
  shows "\<exists>d t. chunk_data c = Some d \<and> chunk_offset c + copied \<le> length d \<and> slot_defined s (s_head s)
    \<and> (if chunk_offset c' = chunk_length c' then map_option snd (pop_chunk s1) else Some s1) = Some t
    \<and> ring_inv t \<and> list_all (chunk_good (kind s)) (queued t) \<and> same_flags s t
    \<and> unread s = take copied (drop (chunk_offset c) d) @ unread t
    \<and> 0 < copied \<and> copied \<le> cap \<and> length (take copied (drop (chunk_offset c) d)) = copied
    \<and> (s_count t = s_count s \<or> s_count s = s_count t + 1)"
proof -
  have r: "ring_inv s" and some': "0 < s_count s" using inv some by (auto simp: stream_inv_def)
  define qs where "qs = tl (queued s)"
  obtain d where q: "queued s = c # qs"
    and d: "chunk_data c = Some d" "chunk_length c = length d" "chunk_offset c < length d"
      "length d \<le> SIZE_MAX"
    and good: "list_all (chunk_good (kind s)) qs"
  proof -
    obtain c0 t0 where "queued s = c0 # queued t0" "c0 = chunks s ! s_head s"
      using pop_ring [OF r some'] by blast
    then have "queued s = c # qs" by (simp add: qs_def c)
    moreover from this have "chunk_good (kind s) c" "list_all (chunk_good (kind s)) qs"
      using inv by (auto simp: stream_inv_def)
    ultimately show ?thesis using that by (auto simp: chunk_good_def chunk_ok_def)
  qed
  have rem': "remaining = length d - chunk_offset c" using d by (simp add: rem size_simps)
  have cp: "0 < copied" "copied \<le> cap" "chunk_offset c + copied \<le> length d"
    using d cap by (auto simp: cop rem')
  have off: "chunk_offset c' = chunk_offset c + copied" "chunk_length c' = length d" "chunk_data c' = Some d"
    using cp d by (simp_all add: c' size_simps)
  have ok': "chunk_ok c'" using off cp by (simp add: chunk_ok_def)
  note h = head_ring [OF r some' ok', folded s1]
  have q1: "queued s1 = c' # qs" using h(2) by (simp add: qs_def)
  have fl: "same_flags s s1" by (simp add: s1 same_flags_def no_ring_def)
  have un: "unread s = drop (chunk_offset c) d @ concat (map chunk_rest qs)"
    by (simp add: unread_def pending_def q chunk_rest_def d)
  have out: "drop (chunk_offset c) d = take copied (drop (chunk_offset c) d) @ drop (chunk_offset c + copied) d"
    by (metis append_take_drop_id drop_drop add.commute)
  have base: "chunk_data c = Some d" "chunk_offset c + copied \<le> length d" "slot_defined s (s_head s)"
    "length (take copied (drop (chunk_offset c) d)) = copied" using d cp h by auto
  show ?thesis
  proof (cases "chunk_offset c' = chunk_length c'")
    case True
    have "0 < s_count s1" using some' by (simp add: s1)
    then obtain t where t: "pop_chunk s1 = Some (c', t)" "ring_inv t" "queued s1 = c' # queued t"
      "s_count s1 = s_count t + 1" "same_flags s1 t"
      using pop_ring [OF h(1)] q1 by (metis list.inject)
    have "queued t = qs" using t(3) q1 by simp
    then have "unread s = take copied (drop (chunk_offset c) d) @ unread t"
      using True off cp un out by (simp add: unread_def pending_def)
    with True t base cp good \<open>queued t = qs\<close> same_flags_trans [OF fl t(5)] show ?thesis
      by (simp add: s1)
  next
    case False
    have "chunk_good (kind s) c'" using False ok' off cp d k by (simp add: chunk_good_def)
    moreover have "unread s = take copied (drop (chunk_offset c) d) @ unread s1"
      using un out off by (simp add: unread_def pending_def q1 chunk_rest_def)
    ultimately show ?thesis using False base cp good q1 h(1) fl by (simp add: s1)
  qed
qed

lemma unread_empty: "s_count s = 0 \<Longrightarrow> unread s = []"
  by (metis concat.simps(1) length_0_conv queued_length(2) unread_def)

lemma upload_law:
  assumes inv: "stream_inv s" and k: "kind s = HCURL_STREAM_UPLOAD" and cap: "0 < cap"
  shows "\<exists>r t. upload_locked cap s = Some (r, t) \<and> stream_inv t \<and> kind t = kind s
    \<and> s_capacity t = s_capacity s \<and> unread s = upload_bytes r @ unread t
    \<and> mset (stream_waiting s) = mset (put_calls (upload_wakes r)) + mset (stream_waiting t)
    \<and> (\<forall>out w. r = Copied out w \<longrightarrow> out \<noteq> [] \<and> length out \<le> cap)
    \<and> (r = UploadEof \<longrightarrow> finished s \<and> unread s = [] \<and> t = s)
    \<and> (r = UploadPause \<longrightarrow> \<not> finished s \<and> unread s = [] \<and> paused t)"
proof (cases "s_closed s \<or> (terminal_set s \<and> s_terminal_code s \<noteq> CURLE_OK) \<or> s_count s = 0")
  case True
  let ?ab = "s_closed s \<or> (terminal_set s \<and> s_terminal_code s \<noteq> CURLE_OK)"
  have "upload_locked cap s = Some (if ?ab then (UploadAbort, s)
      else if finished s then (UploadEof, s) else (UploadPause, s\<lparr>paused := True\<rparr>))"
    using True by (auto simp: upload_locked_def)
  moreover have "unread s = []" if "\<not> ?ab" using True that unread_empty by blast
  ultimately show ?thesis using inv
    by (cases ?ab; cases "finished s") (auto simp: upload_wakes_def upload_bytes_def)
next
  case False
  define c where "c = chunks s ! s_head s"
  define remaining where "remaining = sz_sub (chunk_length c) (chunk_offset c)"
  define copied where "copied = (if remaining < cap then remaining else cap)"
  define c' where "c' = c\<lparr>chunk_offset := sz_add (chunk_offset c) copied\<rparr>"
  define s1 where "s1 = s\<lparr>chunks := (chunks s)[s_head s := c']\<rparr>"
  obtain d s2 where d: "chunk_data c = Some d" "chunk_offset c + copied \<le> length d"
      "slot_defined s (s_head s)"
    and s2: "(if chunk_offset c' = chunk_length c' then map_option snd (pop_chunk s1) else Some s1) = Some s2"
    and r2: "ring_inv s2" "list_all (chunk_good (kind s)) (queued s2)" "same_flags s s2"
    and un: "unread s = take copied (drop (chunk_offset c) d) @ unread s2"
    and cp: "0 < copied" "copied \<le> cap" "length (take copied (drop (chunk_offset c) d)) = copied"
    and cnt: "s_count s2 = s_count s \<or> s_count s = s_count s2 + 1"
    using consume_ring [OF inv k _ cap c_def remaining_def copied_def c'_def s1_def] False by blast
  note f = same_flags_fields [OF r2(3)]
  define was_full where "was_full = (s_count s = s_capacity s)"
  obtain w s3 where s3: "(if was_full \<and> s_count s2 < s_capacity s2 then detach_writer s2 else (None, s2)) = (w, s3)"
    by (cases "if was_full \<and> s_count s2 < s_capacity s2 then detach_writer s2 else (None, s2)")
  have up: "upload_locked cap s = Some (Copied (take copied (drop (chunk_offset c) d)) w, s3)"
    unfolding upload_locked_def Let_def c_def [symmetric] remaining_def [symmetric]
      copied_def [symmetric] c'_def [symmetric] s1_def [symmetric] was_full_def [symmetric]
    using False d s2 s3 by simp
  have w2: "stream_waiting s2 = stream_waiting s" using f by (intro waiting_frame) auto
  have good: "write_waiter_present s2 \<longrightarrow> waker_good (write_waiter s2)"
    using inv f by (simp add: stream_inv_def)
  have noread: "\<not> read_waiter_present s2" using inv f k by (auto simp: stream_inv_def)
  have "stream_inv s3 \<and> kind s3 = kind s \<and> s_capacity s3 = s_capacity s \<and> unread s3 = unread s2
      \<and> mset (stream_waiting s) = mset (put_calls (wake_detached w)) + mset (stream_waiting s3)"
  proof (cases "was_full \<and> s_count s2 < s_capacity s2")
    case True
    then have det: "detach_writer s2 = (w, s3)" using s3 by simp
    note dl = detach_writer_law [OF good det]
    obtain w' where e3: "s3 = s2\<lparr>write_waiter_present := False, write_waiter := w'\<rparr>" using dl(2) by blast
    have "unread s3 = unread s2" by (rule unread_frame) (simp add: e3)
    with dl(1) w2 show ?thesis using r2 f False noread by (simp add: e3 stream_inv_def)
  next
    case nodet: False
    then have e: "w = None" "s3 = s2" using s3 by auto
    have "\<not> write_waiter_present s2 \<or> s_count s2 = s_capacity s2"
    proof (cases was_full)
      case True
      have "s_count s2 \<le> s_capacity s2" using r2(1) by (simp add: ring_inv_def)
      with nodet True show ?thesis by simp
    next
      case False
      then show ?thesis using inv f by (auto simp: stream_inv_def was_full_def)
    qed
    then show ?thesis
      using inv r2 f noread False w2 by (auto simp: e stream_inv_def wake_detached_def)
  qed
  moreover have "take copied (drop (chunk_offset c) d) \<noteq> []" using cp by auto
  ultimately show ?thesis using up un cp by (simp add: upload_wakes_def upload_bytes_def)
qed

definition read_bytes :: "read_outcome \<Rightarrow> byte list" where
  "read_bytes r = (case r of GotChunk (Some d) n b \<Rightarrow> d | _ \<Rightarrow> [])"

lemma try_read_law:
  assumes inv: "stream_inv s" and k: "kind s = HCURL_STREAM_DOWNLOAD"
  shows "\<exists>r t. try_read_locked s = Some (r, t) \<and> stream_inv t \<and> unread s = read_bytes r @ unread t
    \<and> stream_waiting t = stream_waiting s \<and> same_flags s t
    \<and> (if s_count s = 0 then read_bytes r = [] \<and> t = s
       else (\<exists>d. r = GotChunk (Some d) (length d) (paused s) \<and> d \<noteq> []) \<and> s_count s = s_count t + 1)"
proof (cases "s_count s = 0")
  case True
  then show ?thesis using inv
    by (simp add: try_read_locked_def read_bytes_def unread_empty same_flags_refl)
next
  case False
  have r: "ring_inv s" using inv by (simp add: stream_inv_def)
  obtain c t where p: "pop_chunk s = Some (c, t)" "ring_inv t" "queued s = c # queued t"
    "s_count s = s_count t + 1" "same_flags s t"
    using pop_ring [OF r] False by auto
  note f = same_flags_fields [OF p(5)]
  have good: "chunk_good (kind s) c" "list_all (chunk_good (kind s)) (queued t)"
    using inv by (auto simp: stream_inv_def p(3))
  obtain d where d: "chunk_data c = Some d" "chunk_length c = length d" "chunk_offset c = 0" "d \<noteq> []"
    using good(1) k by (auto simp: chunk_good_def chunk_ok_def)
  have "\<not> read_waiter_present t" "\<not> write_waiter_present t" "\<not> s_closed t"
    using inv f k False by (auto simp: stream_inv_def)
  then have "stream_inv t" using p(2) good(2) f by (simp add: stream_inv_def)
  moreover have "unread s = d @ unread t" by (simp add: unread_def pending_def p(3) chunk_rest_def d)
  moreover have "stream_waiting t = stream_waiting s" using f by (intro waiting_frame) auto
  ultimately show ?thesis
    using False p(1,4,5) d f(5) by (simp add: try_read_locked_def read_bytes_def)
qed

definition write_bytes :: "byte list \<Rightarrow> write_outcome \<Rightarrow> byte list" where
  "write_bytes d r = (case r of WriteStored b \<Rightarrow> d | _ \<Rightarrow> [])"

lemma try_write_law:
  assumes inv: "stream_inv s" and k: "kind s = HCURL_STREAM_UPLOAD" and d: "length d \<le> SIZE_MAX"
  shows "\<exists>r t. try_write_locked m d s = Some (r, t) \<and> stream_inv t \<and> unread t = unread s @ write_bytes d r
    \<and> stream_waiting t = stream_waiting s \<and> same_flags s t
    \<and> (\<forall>b. r = WriteStored b \<longrightarrow> b = paused s \<and> \<not> finished s \<and> \<not> s_closed s \<and> \<not> terminal_set s)"
proof (cases "s_closed s \<or> terminal_set s \<or> finished s \<or> d = [] \<or> s_count s = s_capacity s \<or> \<not> m")
  case True
  have "\<exists>r. try_write_locked m d s = Some (r, s) \<and> write_bytes d r = [] \<and> (\<forall>b. r \<noteq> WriteStored b)"
    using True by (auto simp: try_write_locked_def write_bytes_def)
  with inv show ?thesis using same_flags_refl by force
next
  case False
  then obtain t where t: "store_chunk d s = Some t" "ring_inv t"
    "list_all (chunk_good (kind s)) (queued t)" "unread t = unread s @ d"
    "same_flags s t" "stream_waiting t = stream_waiting s" "\<not> write_waiter_present t"
    using store_stream [OF inv _ _ _ d] by blast
  note f = same_flags_fields [OF t(5)]
  have "\<not> read_waiter_present t" using inv f k by (auto simp: stream_inv_def)
  then have "stream_inv t" using t f False by (simp add: stream_inv_def)
  with False t f show ?thesis by (simp add: try_write_locked_def write_bytes_def)
qed

lemma finish_law:
  "stream_inv s \<Longrightarrow> finish_locked s = (r, t) \<Longrightarrow>
   stream_inv t \<and> unread t = unread s \<and> stream_waiting t = stream_waiting s \<and> kind t = kind s"
  by (auto simp: finish_locked_def split: if_splits)

lemma resume_law:
  "stream_inv s \<Longrightarrow> resume_begin_locked s = (b, t) \<Longrightarrow>
   stream_inv t \<and> unread t = unread s \<and> stream_waiting t = stream_waiting s \<and> kind t = kind s"
  by (auto simp: resume_begin_locked_def Let_def split: if_splits)

lemma retry_law:
  "stream_inv s \<Longrightarrow> stream_inv (resume_retry_locked s) \<and> unread (resume_retry_locked s) = unread s
     \<and> stream_waiting (resume_retry_locked s) = stream_waiting s \<and> kind (resume_retry_locked s) = kind s"
  "stream_inv s \<Longrightarrow> stream_inv (close_retry_locked s) \<and> unread (close_retry_locked s) = unread s
     \<and> stream_waiting (close_retry_locked s) = stream_waiting s \<and> kind (close_retry_locked s) = kind s"
  by (auto simp: resume_retry_locked_def close_retry_locked_def)

text \<open>Taking both waiters out, whatever the flags say.\<close>

lemma detach_both:
  assumes "read_waiter_present s \<longrightarrow> waker_good (read_waiter s)"
    and "write_waiter_present s \<longrightarrow> waker_good (write_waiter s)"
    and "detach_reader s = (r, s1)" and "detach_writer s1 = (w, t)"
  shows "mset (stream_waiting s) = mset (put_calls (wake_detached r @ wake_detached w))"
    and "stream_waiting t = []"
    and "\<exists>a b. t = s\<lparr>read_waiter_present := False, read_waiter := a, write_waiter_present := False,
          write_waiter := b\<rparr>"
proof -
  note r = detach_reader_law [OF assms(1,3)]
  obtain a where a: "s1 = s\<lparr>read_waiter_present := False, read_waiter := a\<rparr>" using r(2) by blast
  have "write_waiter_present s1 \<longrightarrow> waker_good (write_waiter s1)" using assms(2) by (simp add: a)
  note w = detach_writer_law [OF this assms(4)]
  obtain b where b: "t = s1\<lparr>write_waiter_present := False, write_waiter := b\<rparr>" using w(2) by blast
  show t: "stream_waiting t = []" by (simp add: stream_waiting_def a b)
  show "mset (stream_waiting s) = mset (put_calls (wake_detached r @ wake_detached w))"
    using r(1) w(1) t by simp
  show "\<exists>a b. t = s\<lparr>read_waiter_present := False, read_waiter := a, write_waiter_present := False,
          write_waiter := b\<rparr>" unfolding b a by blast
qed

lemma wakers_good:
  "stream_inv s \<Longrightarrow> (read_waiter_present s \<longrightarrow> waker_good (read_waiter s))
     \<and> (write_waiter_present s \<longrightarrow> waker_good (write_waiter s))"
  by (auto simp: stream_inv_def)

lemma close_law:
  assumes inv: "stream_inv s"
  shows "\<exists>r w n t. close_locked s = Some ((r, w, n), t) \<and> stream_inv t \<and> s_closed t \<and> \<not> paused t
    \<and> unread t = [] \<and> stream_waiting t = [] \<and> cancel_sent t = (cancel_sent s \<or> n)
    \<and> n = (\<not> terminal_set s \<and> \<not> cancel_sent s) \<and> terminal_set t = terminal_set s \<and> kind t = kind s
    \<and> mset (stream_waiting s) = mset (put_calls (wake_detached r @ wake_detached w))
    \<and> (\<forall>c \<in> set (chunks t). chunk_data c = None)"
proof -
  let ?s = "s\<lparr>s_closed := True, paused := False\<rparr>"
  have "ring_inv ?s" using inv by (simp add: stream_inv_def)
  from drop_ring [OF this] obtain s1 where s1: "drop_chunks_locked ?s = Some s1" "ring_inv s1"
    "s_count s1 = 0" "queued s1 = []" "same_flags ?s s1" "\<forall>c \<in> set (chunks s1). chunk_data c = None"
    by blast
  note f = same_flags_fields [OF s1(5), simplified]
  obtain r s2 where d1: "detach_reader s1 = (r, s2)" by (cases "detach_reader s1")
  obtain w s3 where d2: "detach_writer s2 = (w, s3)" by (cases "detach_writer s2")
  have g: "read_waiter_present s1 \<longrightarrow> waker_good (read_waiter s1)"
    "write_waiter_present s1 \<longrightarrow> waker_good (write_waiter s1)"
    using wakers_good [OF inv] f by auto
  note b = detach_both [OF g d1 d2]
  obtain x y where e: "s3 = s1\<lparr>read_waiter_present := False, read_waiter := x,
      write_waiter_present := False, write_waiter := y\<rparr>" using b(3) by blast
  define n where "n = (\<not> terminal_set s \<and> \<not> cancel_sent s)"
  define t where "t = (if n then s3\<lparr>cancel_sent := True\<rparr> else s3)"
  have "close_locked s = Some ((r, w, n), t)"
    using s1(1) d1 d2 f by (simp add: close_locked_def Let_def n_def t_def e)
  moreover have "stream_inv t" using s1 by (simp add: stream_inv_def t_def e)
  moreover have "stream_waiting t = []" using b(2) by (simp add: t_def)
  moreover have "unread t = []" by (rule unread_empty) (simp add: t_def e s1(3))
  moreover have "stream_waiting s1 = stream_waiting s" using f by (intro waiting_frame) auto
  moreover have "s_closed t" "\<not> paused t" "terminal_set t = terminal_set s" "kind t = kind s" "chunks t = chunks s1"
    using f by (simp_all add: t_def e)
  moreover have "cancel_sent t = (cancel_sent s \<or> n)" using f by (simp add: t_def e)
  ultimately show ?thesis
    using b(1) s1(6) n_def by (intro exI [of _ r] exI [of _ w] exI [of _ n] exI [of _ t]) simp
qed

lemma complete_law:
  assumes inv: "stream_inv s" and c: "complete_locked code s = ((r, w), t)"
  shows "stream_inv t" "terminal_set t" "\<not> paused t" "unread t = unread s" "stream_waiting t = []"
    "kind t = kind s" "s_closed t = s_closed s" "cancel_sent t = cancel_sent s" "finished t = finished s"
    "s_terminal_code t = (if terminal_set s then s_terminal_code s else code)" "s_easy t = NULL"
    "mset (stream_waiting s) = mset (put_calls (wake_detached r @ wake_detached w))"
proof -
  define s1 where "s1 = (if \<not> terminal_set s then s\<lparr>terminal_set := True, s_terminal_code := code\<rparr>
      else s)\<lparr>s_easy := NULL, paused := False\<rparr>"
  obtain s2 where d: "detach_reader s1 = (r, s2)" "detach_writer s2 = (w, t)"
    using c by (auto simp: complete_locked_def Let_def s1_def split: prod.splits)
  have s1: "ring_inv s1" "queued s1 = queued s" "kind s1 = kind s" "s_count s1 = s_count s"
    "s_closed s1 = s_closed s" "terminal_set s1" "stream_waiting s1 = stream_waiting s" "\<not> paused s1"
    "cancel_sent s1 = cancel_sent s" "finished s1 = finished s" "s_easy s1 = NULL"
    "s_terminal_code s1 = (if terminal_set s then s_terminal_code s else code)"
    using inv by (auto simp: s1_def stream_inv_def stream_waiting_def)
  have g: "read_waiter_present s1 \<longrightarrow> waker_good (read_waiter s1)"
    "write_waiter_present s1 \<longrightarrow> waker_good (write_waiter s1)"
    using wakers_good [OF inv] by (auto simp: s1_def)
  note b = detach_both [OF g d]
  obtain x y where e: "t = s1\<lparr>read_waiter_present := False, read_waiter := x,
      write_waiter_present := False, write_waiter := y\<rparr>" using b(3) by blast
  show "stream_inv t" using inv s1 by (simp add: e stream_inv_def)
  show "unread t = unread s" by (rule unread_frame) (simp add: e s1)
  show "stream_waiting t = []"
    "mset (stream_waiting s) = mset (put_calls (wake_detached r @ wake_detached w))"
    using b s1(7) by auto
  show "terminal_set t" "\<not> paused t" "kind t = kind s" "s_closed t = s_closed s"
    "cancel_sent t = cancel_sent s" "finished t = finished s" "s_easy t = NULL"
    "s_terminal_code t = (if terminal_set s then s_terminal_code s else code)"
    by (simp_all add: e s1)
qed

lemma destroy_law:
  assumes inv: "stream_inv s"
  shows "\<exists>r w t. destroy_locked s = Some ((r, w), t) \<and> stream_waiting t = []
    \<and> mset (stream_waiting s) = mset (put_calls (wake_detached r @ wake_detached w))
    \<and> (\<forall>c \<in> set (chunks t). chunk_data c = None)"
proof -
  have "ring_inv (s\<lparr>s_closed := True\<rparr>)" using inv by (simp add: stream_inv_def)
  from drop_ring [OF this] obtain s1 where s1: "drop_chunks_locked (s\<lparr>s_closed := True\<rparr>) = Some s1"
    "same_flags (s\<lparr>s_closed := True\<rparr>) s1" "\<forall>c \<in> set (chunks s1). chunk_data c = None" by blast
  note f = same_flags_fields [OF s1(2), simplified]
  obtain r s2 where d1: "detach_reader s1 = (r, s2)" by (cases "detach_reader s1")
  obtain w s3 where d2: "detach_writer s2 = (w, s3)" by (cases "detach_writer s2")
  have g: "read_waiter_present s1 \<longrightarrow> waker_good (read_waiter s1)"
    "write_waiter_present s1 \<longrightarrow> waker_good (write_waiter s1)"
    using wakers_good [OF inv] f by auto
  note b = detach_both [OF g d1 d2]
  have "stream_waiting s1 = stream_waiting s" using f by (intro waiting_frame) auto
  then show ?thesis using s1 d1 d2 b by (auto simp: destroy_locked_def)
qed

lemma wait_read_cases:
  assumes "hcurl_stream_wait_read mv c (Some s) = (r, sp)"
  obtains "r \<noteq> HCURL_STREAM_WAIT_REGISTERED" "sp = Some s"
  | "r = HCURL_STREAM_WAIT_REGISTERED" "mv \<noteq> NULL" "kind s = HCURL_STREAM_DOWNLOAD" "s_count s = 0"
    "\<not> s_closed s" "\<not> terminal_set s" "\<not> read_waiter_present s"
    "sp = Some (s\<lparr>read_waiter := \<lparr>mvar = mv, capability = c, waked = False\<rparr>,
      read_waiter_present := True\<rparr>)"
  using assms by (simp add: hcurl_stream_wait_read_def split: if_splits)

lemma wait_read_law:
  assumes "stream_inv s" and "hcurl_stream_wait_read mv c (Some s) = (r, sp)"
  shows "\<exists>t. sp = Some t \<and> stream_inv t \<and> unread t = unread s \<and> kind t = kind s
    \<and> mset (stream_waiting t)
        = (if r = HCURL_STREAM_WAIT_REGISTERED then {#(mv, c)#} else {#}) + mset (stream_waiting s)"
proof -
  from assms(2) show ?thesis
  proof (cases rule: wait_read_cases)
    case 1
    with assms(1) show ?thesis by simp
  next
    case 2
    let ?t = "s\<lparr>read_waiter := \<lparr>mvar = mv, capability = c, waked = False\<rparr>, read_waiter_present := True\<rparr>"
    have "unread ?t = unread s" by (rule unread_frame) simp
    moreover have "stream_inv ?t" using assms(1) 2 by (simp add: stream_inv_def waker_good_def)
    moreover have "mset (stream_waiting ?t) = {#(mv, c)#} + mset (stream_waiting s)"
      using 2(7) by (simp add: stream_waiting_def)
    ultimately show ?thesis using 2 by simp
  qed
qed

lemma wait_write_cases:
  assumes "hcurl_stream_wait_write mv c (Some s) = (r, sp)"
  obtains "r \<noteq> HCURL_STREAM_WAIT_REGISTERED" "sp = Some s"
  | "r = HCURL_STREAM_WAIT_REGISTERED" "mv \<noteq> NULL" "kind s = HCURL_STREAM_UPLOAD" "\<not> s_count s < s_capacity s"
    "\<not> s_closed s" "\<not> terminal_set s" "\<not> write_waiter_present s"
    "sp = Some (s\<lparr>write_waiter := \<lparr>mvar = mv, capability = c, waked = False\<rparr>,
      write_waiter_present := True\<rparr>)"
  using assms by (simp add: hcurl_stream_wait_write_def split: if_splits)

lemma wait_write_law:
  assumes "stream_inv s" and "hcurl_stream_wait_write mv c (Some s) = (r, sp)"
  shows "\<exists>t. sp = Some t \<and> stream_inv t \<and> unread t = unread s \<and> kind t = kind s
    \<and> mset (stream_waiting t)
        = (if r = HCURL_STREAM_WAIT_REGISTERED then {#(mv, c)#} else {#}) + mset (stream_waiting s)"
proof -
  have le: "s_count s \<le> s_capacity s" using assms(1) by (simp add: stream_inv_def ring_inv_def)
  from assms(2) show ?thesis
  proof (cases rule: wait_write_cases)
    case 1
    with assms(1) show ?thesis by simp
  next
    case 2
    let ?t = "s\<lparr>write_waiter := \<lparr>mvar = mv, capability = c, waked = False\<rparr>, write_waiter_present := True\<rparr>"
    have "unread ?t = unread s" by (rule unread_frame) simp
    moreover have "stream_inv ?t" using assms(1) 2 le by (simp add: stream_inv_def waker_good_def)
    moreover have "mset (stream_waiting ?t) = {#(mv, c)#} + mset (stream_waiting s)"
      using 2(7) by (simp add: stream_waiting_def)
    ultimately show ?thesis using 2 by simp
  qed
qed

lemma cancel_read_law:
  assumes "stream_inv s" and "hcurl_stream_cancel_wait_read mv (Some s) = (b, sp)"
  shows "\<exists>t c. sp = Some t \<and> stream_inv t \<and> unread t = unread s \<and> kind t = kind s
    \<and> mset (stream_waiting s) = (if b then {#(mv, c)#} else {#}) + mset (stream_waiting t)"
proof (cases "kind s = HCURL_STREAM_DOWNLOAD \<and> mv \<noteq> NULL \<and> read_waiter_present s \<and> mvar (read_waiter s) = mv")
  case True
  let ?t = "s\<lparr>read_waiter_present := False, read_waiter := (read_waiter s)\<lparr>mvar := NULL\<rparr>\<rparr>"
  have "b" "sp = Some ?t" using True assms(2) by (auto simp: hcurl_stream_cancel_wait_read_def cancel_waiter_def)
  moreover have "unread ?t = unread s" by (rule unread_frame) simp
  moreover have "stream_inv ?t" using assms(1) by (simp add: stream_inv_def)
  moreover have "mset (stream_waiting s) = {#(mv, capability (read_waiter s))#} + mset (stream_waiting ?t)"
    using True by (simp add: stream_waiting_def)
  ultimately show ?thesis by (intro exI [of _ ?t] exI [of _ "capability (read_waiter s)"]) simp
next
  case False
  then have "\<not> b" "sp = Some s"
    using assms(2) by (auto simp: hcurl_stream_cancel_wait_read_def cancel_waiter_def split: if_splits)
  with assms(1) show ?thesis by simp
qed

lemma cancel_write_law:
  assumes "stream_inv s" and "hcurl_stream_cancel_wait_write mv (Some s) = (b, sp)"
  shows "\<exists>t c. sp = Some t \<and> stream_inv t \<and> unread t = unread s \<and> kind t = kind s
    \<and> mset (stream_waiting s) = (if b then {#(mv, c)#} else {#}) + mset (stream_waiting t)"
proof (cases "kind s = HCURL_STREAM_UPLOAD \<and> mv \<noteq> NULL \<and> write_waiter_present s \<and> mvar (write_waiter s) = mv")
  case True
  let ?t = "s\<lparr>write_waiter_present := False, write_waiter := (write_waiter s)\<lparr>mvar := NULL\<rparr>\<rparr>"
  have "b" "sp = Some ?t" using True assms(2) by (auto simp: hcurl_stream_cancel_wait_write_def cancel_waiter_def)
  moreover have "unread ?t = unread s" by (rule unread_frame) simp
  moreover have "stream_inv ?t" using assms(1) by (simp add: stream_inv_def)
  moreover have "mset (stream_waiting s) = {#(mv, capability (write_waiter s))#} + mset (stream_waiting ?t)"
    using True by (simp add: stream_waiting_def)
  ultimately show ?thesis by (intro exI [of _ ?t] exI [of _ "capability (write_waiter s)"]) simp
next
  case False
  then have "\<not> b" "sp = Some s"
    using assms(2) by (auto simp: hcurl_stream_cancel_wait_write_def cancel_waiter_def split: if_splits)
  with assms(1) show ?thesis by simp
qed

end
