(* ===== verification/Hcurl_World.thy ===== *)
theory Hcurl_World
  imports Hcurl_Stream Header_Data Curl_Metrics Message_Sender Mpscq
begin

text \<open>
  The shared state of one agent: the heap objects the C code reaches through pointers, the message
  queue, and the log of calls that leave the C code; and \<open>enqueue_outer_message\<close> of
  \<open>cbits/message_chan.c\<close>, by which every thread talks to the reactor.

  A pointer is an address, \<open>NULL\<close> is zero. Using a non-null address that is not allocated, or was
  freed, is undefined: the functions return \<open>None\<close>. A function runs here without interference of
  other threads; \<open>Mpscq\<close> and \<open>Message_Sender\<close> show that the queue and the sender behave under
  interleaving as they do here.
\<close>

section \<open>Messages\<close>

datatype outer_message_types = EXECUTE | CANCEL_REQUEST | RESUME_REQUEST | STOP_AGENT

record execute_payload =
  p_transfer_id :: transfer_id
  p_easy :: CURL
  p_result :: addr
  p_metrics :: addr
  p_download_stream :: addr
  p_upload_stream :: addr

datatype outer_message =
  Execute execute_payload | CancelRequest transfer_id | ResumeRequest transfer_id | StopAgent

definition build_message :: "outer_message_types \<Rightarrow> execute_payload \<Rightarrow> outer_message" where
  "build_message tag p =
     (case tag of
        EXECUTE \<Rightarrow> Execute p
      | CANCEL_REQUEST \<Rightarrow> CancelRequest (p_transfer_id p)
      | RESUME_REQUEST \<Rightarrow> ResumeRequest (p_transfer_id p)
      | STOP_AGENT \<Rightarrow> StopAgent)"

datatype enqueue_message_result =
    ENQUEUE_MESSAGE_OK | ENQUEUE_MESSAGE_FULL | ENQUEUE_MESSAGE_OUT_OF_MEMORY
  | ENQUEUE_MESSAGE_CLOSED

section \<open>The world\<close>

record world =
  w_streams :: "addr \<Rightarrow> hcurl_stream option"
  w_headers :: "addr \<Rightarrow> header_data option"
  w_metrics :: "addr \<Rightarrow> curl_metrics_context option"
  w_results :: "addr \<Rightarrow> hs_easy_data option"
  w_senders :: "addr \<Rightarrow> message_sender option"
  w_queue :: "outer_message mpscq"
  w_log :: "event list"

definition log_calls :: "event list \<Rightarrow> world \<Rightarrow> world" where
  "log_calls evs w = w\<lparr>w_log := w_log w @ evs\<rparr>"

text \<open>
  A function on an object, called through a pointer that may be null: it gets \<open>None\<close> for a null
  pointer, and its calls are logged.
\<close>

definition on_headers ::
    "(header_data option \<Rightarrow> event list \<times> header_data option) \<Rightarrow> addr \<Rightarrow> world \<Rightarrow> world option" where
  "on_headers f p w =
     (if p = NULL then Some (log_calls (fst (f None)) w)
      else case w_headers w p of
        None \<Rightarrow> None
      | Some h \<Rightarrow> (case f (Some h) of (evs, hp) \<Rightarrow>
          Some (log_calls evs (w\<lparr>w_headers := (w_headers w)(p := hp)\<rparr>))))"

definition on_metrics ::
    "(curl_metrics_context option \<Rightarrow> curl_metrics_context option) \<Rightarrow> addr \<Rightarrow> world \<Rightarrow> world option" where
  "on_metrics f p w =
     (if p = NULL then Some w
      else case w_metrics w p of
        None \<Rightarrow> None
      | Some m \<Rightarrow> Some (w\<lparr>w_metrics := (w_metrics w)(p := f (Some m))\<rparr>))"

definition put_stream :: "addr \<Rightarrow> hcurl_stream \<Rightarrow> world \<Rightarrow> world" where
  "put_stream p s w = w\<lparr>w_streams := (w_streams w)(p := Some s)\<rparr>"

section \<open>The sender, through its pointer\<close>

definition sender_retain :: "addr \<Rightarrow> world \<Rightarrow> (bool \<times> world) option" where
  "sender_retain p w =
     (if p = NULL then Some (False, w)
      else case w_senders w p of
        None \<Rightarrow> None
      | Some s \<Rightarrow> (case message_sender_retain s of (b, s') \<Rightarrow>
          Some (b, w\<lparr>w_senders := (w_senders w)(p := Some s')\<rparr>)))"

definition sender_release :: "addr \<Rightarrow> world \<Rightarrow> world option" where
  "sender_release p w =
     (if p = NULL then Some w
      else case w_senders w p of
        None \<Rightarrow> None
      | Some s \<Rightarrow> (case message_sender_release s of (freed, s') \<Rightarrow>
          Some (w\<lparr>w_senders := (w_senders w)(p := (if freed then None else Some s'))\<rparr>)))"

section \<open>Sending a message\<close>

definition enqueue_outer_message ::
    "bool \<Rightarrow> addr \<Rightarrow> outer_message_types \<Rightarrow> execute_payload \<Rightarrow> world
     \<Rightarrow> (enqueue_message_result \<times> world) option" where
  "enqueue_outer_message calloc_ok sender tag payload w =
     (if sender = NULL then Some (ENQUEUE_MESSAGE_CLOSED, w)
      else case w_senders w sender of
        None \<Rightarrow> None
      | Some s \<Rightarrow>
          if sender_closed s then Some (ENQUEUE_MESSAGE_CLOSED, w)
          else if \<not> calloc_ok then Some (ENQUEUE_MESSAGE_OUT_OF_MEMORY, w)
          else
            let message = build_message tag payload
            in case message_sender_enter s of
                 (False, s1) \<Rightarrow>
                   Some (ENQUEUE_MESSAGE_CLOSED, w\<lparr>w_senders := (w_senders w)(sender := Some s1)\<rparr>)
               | (True, s1) \<Rightarrow>
                   (case mpscq_enqueue (Some (w_queue w)) (Some message) of
                      None \<Rightarrow> None
                    | Some (False, q) \<Rightarrow>
                        Some (ENQUEUE_MESSAGE_FULL,
                          w\<lparr>w_senders := (w_senders w)(sender := Some (snd (message_sender_leave s1))),
                            w_queue := the q\<rparr>)
                    | Some (True, q) \<Rightarrow>
                        if async_handle s1 = NULL then None
                        else Some (ENQUEUE_MESSAGE_OK,
                          log_calls [UvAsyncSend (async_handle s1)]
                            (w\<lparr>w_senders := (w_senders w)(sender := Some (snd (message_sender_leave s1))),
                              w_queue := the q\<rparr>))))"

text \<open>
  What the callers rely on: the sender is idle and, while open, has its async handle; the queue is
  quiescent.
\<close>

definition channel_ok :: "addr \<Rightarrow> world \<Rightarrow> bool" where
  "channel_ok p w \<longleftrightarrow> quiescent (w_queue w) \<and>
     (\<exists>s. w_senders w p = Some s \<and> sender_idle s \<and> (\<not> sender_closed s \<longrightarrow> async_handle s \<noteq> NULL))"

lemma enqueue_law:
  assumes p: "p \<noteq> NULL" and ok: "channel_ok p w"
  obtains (closed) s where "w_senders w p = Some s" "sender_closed s"
      "enqueue_outer_message c p tag pl w = Some (ENQUEUE_MESSAGE_CLOSED, w)"
  | (nomem) "\<not> c" "enqueue_outer_message c p tag pl w = Some (ENQUEUE_MESSAGE_OUT_OF_MEMORY, w)"
  | (full) "q_put (build_message tag pl) (w_queue w) = None"
      "enqueue_outer_message c p tag pl w = Some (ENQUEUE_MESSAGE_FULL, w)"
  | (sent) s q where "w_senders w p = Some s" "\<not> sender_closed s" "c"
      "q_put (build_message tag pl) (w_queue w) = Some q"
      "enqueue_outer_message c p tag pl w = Some (ENQUEUE_MESSAGE_OK,
        log_calls [UvAsyncSend (async_handle s)] (w\<lparr>w_queue := q\<rparr>))"
proof -
  obtain s where s: "w_senders w p = Some s" "sender_idle s"
    "\<not> sender_closed s \<Longrightarrow> async_handle s \<noteq> NULL" and q: "quiescent (w_queue w)"
    using ok by (auto simp: channel_ok_def)
  show ?thesis
  proof (cases "sender_closed s")
    case True
    then show ?thesis using s(1) p by (intro closed) (simp_all add: enqueue_outer_message_def)
  next
    case open_s: False
    show ?thesis
    proof (cases c)
      case False
      then show ?thesis using s(1) p open_s by (intro nomem) (simp_all add: enqueue_outer_message_def)
    next
      case True
      obtain s1 where e: "message_sender_enter s = (True, s1)"
        using enter_iff(1) [OF s(2)] open_s by (cases "message_sender_enter s") auto
      note l = enter_leave [OF s(2) e]
      have same: "(w_senders w)(p := Some s) = w_senders w" using s(1) by auto
      show ?thesis
      proof (cases "q_put (build_message tag pl) (w_queue w)")
        case None
        then show ?thesis
          using s(1) p open_s True e l same enqueue_quiescent [OF q]
          by (intro full) (simp_all add: enqueue_outer_message_def)
      next
        case (Some q')
        then show ?thesis
          using s p open_s True e l same enqueue_quiescent [OF q]
          by (intro sent [of s q']) (simp_all add: enqueue_outer_message_def)
      qed
    qed
  qed
qed

end
