(* ===== verification/Stream_Api.thy ===== *)
theory Stream_Api
  imports Hcurl_World
begin

text \<open>
  \<open>cbits/stream.c\<close>, second part: the functions themselves, on the world of one agent, composed of the
  critical sections of \<open>Hcurl_Stream\<close> and of what happens outside the mutex: the header data and the
  metrics of the transfer, the control messages to the reactor, and the wake-ups. Outcomes of
  allocations and of libcurl are arguments. The result of a function is \<open>None\<close> if it would touch an
  object that is not allocated, or if a critical section is undefined.
\<close>

section \<open>Constants and results\<close>

text \<open>Values of libcurl's interface.\<close>

definition CURL_WRITEFUNC_PAUSE :: size_t where "CURL_WRITEFUNC_PAUSE = 0x10000001"
definition CURL_READFUNC_ABORT :: size_t where "CURL_READFUNC_ABORT = 0x10000000"
definition CURL_READFUNC_PAUSE :: size_t where "CURL_READFUNC_PAUSE = 0x10000001"
definition CURLPAUSE_RECV :: int where "CURLPAUSE_RECV = 1"

definition chunk_size :: size_t where "chunk_size = 24"

datatype hcurl_stream_read_result =
    HCURL_STREAM_READ_CHUNK | HCURL_STREAM_READ_WOULD_BLOCK | HCURL_STREAM_READ_EOF
  | HCURL_STREAM_READ_ERROR | HCURL_STREAM_READ_CLOSED | HCURL_STREAM_READ_CHUNK_CONTROL_PENDING

datatype hcurl_stream_write_result =
    HCURL_STREAM_WRITE_OK | HCURL_STREAM_WRITE_WOULD_BLOCK | HCURL_STREAM_WRITE_TERMINAL
  | HCURL_STREAM_WRITE_CLOSED | HCURL_STREAM_WRITE_CONTROL_PENDING
  | HCURL_STREAM_WRITE_OUT_OF_MEMORY

datatype hcurl_stream_control_result =
  HCURL_STREAM_CONTROL_OK | HCURL_STREAM_CONTROL_RETRY | HCURL_STREAM_CONTROL_CLOSED

definition HCURL_STREAM_UPLOAD_UNSUPPORTED :: int where "HCURL_STREAM_UPLOAD_UNSUPPORTED = -1"

section \<open>Life cycle\<close>

text \<open>\<open>fresh\<close> is the address \<open>calloc\<close> returns.\<close>

definition hcurl_stream_create ::
    "addr \<Rightarrow> bool \<Rightarrow> bool \<Rightarrow> bool \<Rightarrow> hcurl_stream_kind \<Rightarrow> size_t \<Rightarrow> addr \<Rightarrow> transfer_id \<Rightarrow> world
     \<Rightarrow> (addr \<times> world) option" where
  "hcurl_stream_create fresh calloc_ok chunks_ok mutex_ok k cap sender tid w =
     (if cap = 0 \<or> cap > SIZE_MAX div chunk_size \<or> sender = NULL \<or> tid = 0 then Some (NULL, w)
      else do {
        (retained, w1) \<leftarrow> sender_retain sender w;
        if \<not> retained then Some (NULL, w1)
        else if \<not> calloc_ok then do { w2 \<leftarrow> sender_release sender w1; Some (NULL, w2) }
        else if \<not> chunks_ok \<or> \<not> mutex_ok then do { w2 \<leftarrow> sender_release sender w1; Some (NULL, w2) }
        else Some (fresh, put_stream fresh (new_stream k cap sender tid) w1)
      })"

definition hcurl_stream_destroy :: "addr \<Rightarrow> world \<Rightarrow> world option" where
  "hcurl_stream_destroy p w =
     (if p = NULL then Some w
      else case w_streams w p of
        None \<Rightarrow> None
      | Some s \<Rightarrow> do {
          ((r, wr), s1) \<leftarrow> destroy_locked s;
          w1 \<leftarrow> sender_release (s_sender s1)
                 (log_calls (wake_detached r @ wake_detached wr) (put_stream p s1 w));
          Some (w1\<lparr>w_streams := (w_streams w1)(p := None)\<rparr>)
        })"

datatype stream_option =
  CURLOPT_WRITEDATA addr | CURLOPT_WRITEFUNCTION | CURLOPT_READFUNCTION | CURLOPT_READDATA addr

definition hcurl_stream_install_download ::
    "(stream_option \<Rightarrow> CURLcode) \<Rightarrow> CURL \<Rightarrow> addr \<Rightarrow> addr \<Rightarrow> addr \<Rightarrow> world
     \<Rightarrow> (CURLcode \<times> stream_option list \<times> world) option" where
  "hcurl_stream_install_download setopt easy p hp mp w =
     (if easy = NULL \<or> p = NULL then Some (CURLE_BAD_FUNCTION_ARGUMENT, [], w)
      else case w_streams w p of
        None \<Rightarrow> None
      | Some s \<Rightarrow>
          if kind s \<noteq> HCURL_STREAM_DOWNLOAD \<or> hp = NULL \<or> mp = NULL
          then Some (CURLE_BAD_FUNCTION_ARGUMENT, [], w)
          else do {
            w1 \<leftarrow> on_metrics curl_metrics_streamed_download mp
                   (put_stream p (s\<lparr>s_easy := easy, s_headers := hp, s_metrics := mp\<rparr>) w);
            let (code, made) = setopt_seq setopt [CURLOPT_WRITEDATA p, CURLOPT_WRITEFUNCTION];
            Some (code, made, w1)
          })"

text \<open>\<open>init_code\<close> is the result of \<open>hcurl_global_init_once\<close>, \<open>runtime\<close> the version libcurl reports.\<close>

definition hcurl_stream_upload_supported :: "CURLcode \<Rightarrow> nat option \<Rightarrow> bool" where
  "hcurl_stream_upload_supported init_code runtime =
     (if init_code \<noteq> CURLE_OK then False
      else case runtime of None \<Rightarrow> False | Some version \<Rightarrow> version \<ge> 0x071300)"

definition hcurl_stream_install_upload ::
    "CURLcode \<Rightarrow> nat option \<Rightarrow> (stream_option \<Rightarrow> CURLcode) \<Rightarrow> CURL \<Rightarrow> addr \<Rightarrow> addr \<Rightarrow> world
     \<Rightarrow> (int \<times> stream_option list \<times> world) option" where
  "hcurl_stream_install_upload init_code runtime setopt easy p mp w =
     (if easy = NULL \<or> p = NULL then Some (CURLE_BAD_FUNCTION_ARGUMENT, [], w)
      else case w_streams w p of
        None \<Rightarrow> None
      | Some s \<Rightarrow>
          if kind s \<noteq> HCURL_STREAM_UPLOAD \<or> mp = NULL
          then Some (CURLE_BAD_FUNCTION_ARGUMENT, [], w)
          else if \<not> hcurl_stream_upload_supported init_code runtime
          then Some (HCURL_STREAM_UPLOAD_UNSUPPORTED, [], w)
          else do {
            w1 \<leftarrow> on_metrics curl_metrics_streamed_upload mp
                   (put_stream p (s\<lparr>s_easy := easy, s_metrics := mp\<rparr>) w);
            let (code, made) = setopt_seq setopt [CURLOPT_READFUNCTION, CURLOPT_READDATA p];
            Some (code, made, w1)
          })"

section \<open>Completion\<close>

definition hcurl_stream_complete :: "addr \<Rightarrow> CURLcode \<Rightarrow> world \<Rightarrow> world option" where
  "hcurl_stream_complete p code w =
     (if p = NULL then Some w
      else case w_streams w p of
        None \<Rightarrow> None
      | Some s \<Rightarrow> do {
          w1 \<leftarrow> on_headers (header_data_mark_complete code) (s_headers s) w;
          let ((r, wr), s1) = complete_locked code s;
          Some (log_calls (wake_detached r @ wake_detached wr) (put_stream p s1 w1))
        })"

section \<open>Control messages\<close>

definition control_payload :: "transfer_id \<Rightarrow> execute_payload" where
  "control_payload tid = \<lparr>p_transfer_id = tid, p_easy = NULL, p_result = NULL, p_metrics = NULL,
     p_download_stream = NULL, p_upload_stream = NULL\<rparr>"

definition enqueue_control ::
    "bool \<Rightarrow> hcurl_stream \<Rightarrow> outer_message_types \<Rightarrow> world \<Rightarrow> (hcurl_stream_control_result \<times> world) option" where
  "enqueue_control calloc_ok s tag w = do {
     (result, w1) \<leftarrow> enqueue_outer_message calloc_ok (s_sender s) tag (control_payload (s_transfer_id s)) w;
     Some ((case result of
              ENQUEUE_MESSAGE_OK \<Rightarrow> HCURL_STREAM_CONTROL_OK
            | ENQUEUE_MESSAGE_CLOSED \<Rightarrow> HCURL_STREAM_CONTROL_CLOSED
            | ENQUEUE_MESSAGE_FULL \<Rightarrow> HCURL_STREAM_CONTROL_RETRY
            | ENQUEUE_MESSAGE_OUT_OF_MEMORY \<Rightarrow> HCURL_STREAM_CONTROL_RETRY), w1)
   }"

text \<open>Update the stream object under its mutex.\<close>

definition update_stream :: "(hcurl_stream \<Rightarrow> hcurl_stream) \<Rightarrow> addr \<Rightarrow> world \<Rightarrow> world option" where
  "update_stream f p w = map_option (\<lambda>s. put_stream p (f s) w) (w_streams w p)"

definition hcurl_stream_flush_resume ::
    "bool \<Rightarrow> addr \<Rightarrow> world \<Rightarrow> (hcurl_stream_control_result \<times> world) option" where
  "hcurl_stream_flush_resume calloc_ok p w =
     (if p = NULL then Some (HCURL_STREAM_CONTROL_OK, w)
      else case w_streams w p of
        None \<Rightarrow> None
      | Some s \<Rightarrow>
          let (needs_resume, s1) = resume_begin_locked s; w1 = put_stream p s1 w
          in if \<not> needs_resume then Some (HCURL_STREAM_CONTROL_OK, w1)
             else do {
               (result, w2) \<leftarrow> enqueue_control calloc_ok s1 RESUME_REQUEST w1;
               case result of
                 HCURL_STREAM_CONTROL_CLOSED \<Rightarrow> do {
                   w3 \<leftarrow> hcurl_stream_complete p CURLE_ABORTED_BY_CALLBACK w2;
                   Some (HCURL_STREAM_CONTROL_OK, w3)
                 }
               | HCURL_STREAM_CONTROL_RETRY \<Rightarrow> do {
                   w3 \<leftarrow> update_stream resume_retry_locked p w2;
                   Some (result, w3)
                 }
               | HCURL_STREAM_CONTROL_OK \<Rightarrow> Some (result, w2)
             })"

definition hcurl_stream_close ::
    "bool \<Rightarrow> addr \<Rightarrow> world \<Rightarrow> (hcurl_stream_control_result \<times> world) option" where
  "hcurl_stream_close calloc_ok p w =
     (if p = NULL then Some (HCURL_STREAM_CONTROL_OK, w)
      else case w_streams w p of
        None \<Rightarrow> None
      | Some s \<Rightarrow> do {
          ((r, wr, needs_cancel), s1) \<leftarrow> close_locked s;
          let w1 = log_calls (wake_detached r @ wake_detached wr) (put_stream p s1 w);
          if \<not> needs_cancel then Some (HCURL_STREAM_CONTROL_OK, w1)
          else do {
            (result, w2) \<leftarrow> enqueue_control calloc_ok s1 CANCEL_REQUEST w1;
            case result of
              HCURL_STREAM_CONTROL_CLOSED \<Rightarrow> do {
                w3 \<leftarrow> hcurl_stream_complete p CURLE_ABORTED_BY_CALLBACK w2;
                Some (HCURL_STREAM_CONTROL_OK, w3)
              }
            | HCURL_STREAM_CONTROL_RETRY \<Rightarrow> do {
                w3 \<leftarrow> update_stream close_retry_locked p w2;
                Some (result, w3)
              }
            | HCURL_STREAM_CONTROL_OK \<Rightarrow> Some (result, w2)
          }
        })"

section \<open>The callbacks of libcurl\<close>

definition checked_transfer_size :: "size_t \<Rightarrow> size_t \<Rightarrow> size_t option" where
  "checked_transfer_size sz cnt =
     (if sz \<noteq> 0 \<and> cnt > SIZE_MAX div sz then None else Some (sz_mul sz cnt))"

text \<open>\<open>data\<close> is the memory libcurl passes; \<open>pause_code\<close> what \<open>curl_easy_pause\<close> answers.\<close>

definition hcurl_download_write_callback ::
    "bool \<Rightarrow> CURLcode \<Rightarrow> byte list \<Rightarrow> size_t \<Rightarrow> size_t \<Rightarrow> addr \<Rightarrow> world \<Rightarrow> (size_t \<times> world) option" where
  "hcurl_download_write_callback malloc_ok pause_code data sz cnt p w =
     (if p = NULL then Some (0, w)
      else case w_streams w p of
        None \<Rightarrow> None
      | Some s \<Rightarrow>
          (case (if kind s \<noteq> HCURL_STREAM_DOWNLOAD then None else checked_transfer_size sz cnt) of
             None \<Rightarrow> Some (0, w)
           | Some bytes \<Rightarrow>
               if bytes = 0 then Some (0, w)
               else do {
                 w1 \<leftarrow> on_headers header_data_mark_body_started (s_headers s) w;
                 if length data < bytes then None else do {
                 (outcome, s1) \<leftarrow> download_locked malloc_ok (take bytes data) s;
                 let w2 = put_stream p s1 w1;
                 case outcome of
                   Refused \<Rightarrow> Some (0, w2)
                 | PausedFull \<Rightarrow> Some (CURL_WRITEFUNC_PAUSE, w2)
                 | Stored reader easy_to_pause \<Rightarrow> do {
                     w3 \<leftarrow> on_metrics (curl_metrics_add_downloaded bytes) (s_metrics s1) w2;
                     let w4 = log_calls (wake_detached reader) w3;
                     if easy_to_pause \<noteq> NULL
                     then Some (if pause_code \<noteq> CURLE_OK then 0 else bytes,
                       log_calls [CurlEasyPause easy_to_pause CURLPAUSE_RECV] w4)
                     else Some (bytes, w4)
                   }
                 }
               }))"

text \<open>The bytes copied to libcurl's buffer are part of the result.\<close>

definition hcurl_upload_read_callback ::
    "size_t \<Rightarrow> size_t \<Rightarrow> addr \<Rightarrow> world \<Rightarrow> (size_t \<times> byte list \<times> world) option" where
  "hcurl_upload_read_callback sz cnt p w =
     (if p = NULL then Some (CURL_READFUNC_ABORT, [], w)
      else case w_streams w p of
        None \<Rightarrow> None
      | Some s \<Rightarrow>
          (case (if kind s \<noteq> HCURL_STREAM_UPLOAD then None else checked_transfer_size sz cnt) of
             None \<Rightarrow> Some (CURL_READFUNC_ABORT, [], w)
           | Some cap \<Rightarrow>
               if cap = 0 then Some (0, [], w)
               else do {
                 (outcome, s1) \<leftarrow> upload_locked cap s;
                 let w1 = put_stream p s1 w;
                 case outcome of
                   UploadAbort \<Rightarrow> Some (CURL_READFUNC_ABORT, [], w1)
                 | UploadEof \<Rightarrow> Some (0, [], w1)
                 | UploadPause \<Rightarrow> Some (CURL_READFUNC_PAUSE, [], w1)
                 | Copied out writer \<Rightarrow> do {
                     w2 \<leftarrow> on_metrics (curl_metrics_add_uploaded (length out)) (s_metrics s1) w1;
                     Some (length out, out, log_calls (wake_detached writer) w2)
                   }
               }))"

section \<open>The functions of the Haskell side\<close>

record read_result =
  rr_code :: hcurl_stream_read_result
  rr_data :: "byte list option"
  rr_length :: size_t
  rr_terminal :: int

text \<open>\<open>outputs\<close>: the output pointers are non-null.\<close>

definition hcurl_stream_try_read ::
    "bool \<Rightarrow> bool \<Rightarrow> addr \<Rightarrow> world \<Rightarrow> (hcurl_stream_read_result \<times> read_result option \<times> world) option" where
  "hcurl_stream_try_read calloc_ok outputs p w =
     (if p = NULL then Some (HCURL_STREAM_READ_CLOSED, None, w)
      else case w_streams w p of
        None \<Rightarrow> None
      | Some s \<Rightarrow>
          if kind s \<noteq> HCURL_STREAM_DOWNLOAD \<or> \<not> outputs
          then Some (HCURL_STREAM_READ_CLOSED, None, w)
          else do {
            (outcome, s1) \<leftarrow> try_read_locked s;
            let w1 = put_stream p s1 w;
            let answer = (\<lambda>code d n t. Some \<lparr>rr_code = code, rr_data = d, rr_length = n, rr_terminal = t\<rparr>);
            case outcome of
              GotChunk d n should_resume \<Rightarrow>
                (if should_resume then do {
                   (control, w2) \<leftarrow> hcurl_stream_flush_resume calloc_ok p w1;
                   let code = (if control \<noteq> HCURL_STREAM_CONTROL_OK
                     then HCURL_STREAM_READ_CHUNK_CONTROL_PENDING else HCURL_STREAM_READ_CHUNK);
                   Some (code, answer code d n CURLE_OK, w2)
                 } else Some (HCURL_STREAM_READ_CHUNK, answer HCURL_STREAM_READ_CHUNK d n CURLE_OK, w1))
            | ReadClosed \<Rightarrow>
                Some (HCURL_STREAM_READ_CLOSED,
                  answer HCURL_STREAM_READ_CLOSED None 0 CURLE_ABORTED_BY_CALLBACK, w1)
            | ReadTerminal code \<Rightarrow>
                (let result = (if code = CURLE_OK then HCURL_STREAM_READ_EOF else HCURL_STREAM_READ_ERROR)
                 in Some (result, answer result None 0 code, w1))
            | ReadWouldBlock \<Rightarrow>
                Some (HCURL_STREAM_READ_WOULD_BLOCK,
                  answer HCURL_STREAM_READ_WOULD_BLOCK None 0 CURLE_OK, w1)
          })"

text \<open>\<open>terminal_out\<close>: the pointer for the terminal code is non-null; the second component is its value.\<close>

definition hcurl_stream_try_write ::
    "bool \<Rightarrow> bool \<Rightarrow> bool \<Rightarrow> byte list option \<Rightarrow> size_t \<Rightarrow> addr \<Rightarrow> world
     \<Rightarrow> (hcurl_stream_write_result \<times> int option \<times> world) option" where
  "hcurl_stream_try_write malloc_ok calloc_ok terminal_out data len p w =
     (if p = NULL then Some (HCURL_STREAM_WRITE_CLOSED, None, w)
      else case w_streams w p of
        None \<Rightarrow> None
      | Some s \<Rightarrow>
          if kind s \<noteq> HCURL_STREAM_UPLOAD \<or> \<not> terminal_out \<or> (len > 0 \<and> data = None)
          then Some (HCURL_STREAM_WRITE_CLOSED, None, w)
          else if len > 0 \<and> length (the data) < len then None
          else do {
            (outcome, s1) \<leftarrow> try_write_locked malloc_ok (if len > 0 then take len (the data) else []) s;
            let w1 = put_stream p s1 w;
            case outcome of
              WriteClosed \<Rightarrow> Some (HCURL_STREAM_WRITE_CLOSED, Some CURLE_ABORTED_BY_CALLBACK, w1)
            | WriteTerminal code \<Rightarrow> Some (HCURL_STREAM_WRITE_TERMINAL, Some code, w1)
            | WriteNothing \<Rightarrow> Some (HCURL_STREAM_WRITE_OK, Some CURLE_OK, w1)
            | WriteWouldBlock \<Rightarrow> Some (HCURL_STREAM_WRITE_WOULD_BLOCK, Some CURLE_OK, w1)
            | WriteNoMemory \<Rightarrow> Some (HCURL_STREAM_WRITE_OUT_OF_MEMORY, Some CURLE_OK, w1)
            | WriteStored needs_resume \<Rightarrow>
                (if needs_resume then do {
                   (control, w2) \<leftarrow> hcurl_stream_flush_resume calloc_ok p w1;
                   Some (if control \<noteq> HCURL_STREAM_CONTROL_OK then HCURL_STREAM_WRITE_CONTROL_PENDING
                         else HCURL_STREAM_WRITE_OK, Some CURLE_OK, w2)
                 } else Some (HCURL_STREAM_WRITE_OK, Some CURLE_OK, w1))
          })"

definition hcurl_stream_finish_upload ::
    "bool \<Rightarrow> bool \<Rightarrow> addr \<Rightarrow> world \<Rightarrow> (hcurl_stream_write_result \<times> int option \<times> world) option" where
  "hcurl_stream_finish_upload calloc_ok terminal_out p w =
     (if p = NULL then Some (HCURL_STREAM_WRITE_CLOSED, None, w)
      else case w_streams w p of
        None \<Rightarrow> None
      | Some s \<Rightarrow>
          if kind s \<noteq> HCURL_STREAM_UPLOAD \<or> \<not> terminal_out
          then Some (HCURL_STREAM_WRITE_CLOSED, None, w)
          else
            let (outcome, s1) = finish_locked s; w1 = put_stream p s1 w
            in case outcome of
                 FinishClosed \<Rightarrow> Some (HCURL_STREAM_WRITE_CLOSED, Some CURLE_ABORTED_BY_CALLBACK, w1)
               | FinishTerminal code \<Rightarrow> Some (HCURL_STREAM_WRITE_TERMINAL, Some code, w1)
               | FinishSet needs_resume \<Rightarrow>
                   (if needs_resume then do {
                      (control, w2) \<leftarrow> hcurl_stream_flush_resume calloc_ok p w1;
                      Some (if control \<noteq> HCURL_STREAM_CONTROL_OK then HCURL_STREAM_WRITE_CONTROL_PENDING
                            else HCURL_STREAM_WRITE_OK, Some CURLE_OK, w2)
                    } else Some (HCURL_STREAM_WRITE_OK, Some CURLE_OK, w1)))"

section \<open>A consistent world\<close>

text \<open>The objects a stream points to are allocated and its channel works.\<close>

definition stream_linked :: "world \<Rightarrow> hcurl_stream \<Rightarrow> bool" where
  "stream_linked w s \<longleftrightarrow> s_sender s \<noteq> NULL \<and> channel_ok (s_sender s) w
     \<and> (s_headers s \<noteq> NULL \<longrightarrow> w_headers w (s_headers s) \<noteq> None)
     \<and> (s_metrics s \<noteq> NULL \<longrightarrow> w_metrics w (s_metrics s) \<noteq> None)"

definition world_ok :: "world \<Rightarrow> bool" where
  "world_ok w \<longleftrightarrow> (\<forall>p s. w_streams w p = Some s \<longrightarrow> p \<noteq> NULL \<and> stream_inv s \<and> stream_linked w s)
     \<and> (\<forall>p. header_ok (w_headers w p)) \<and> (\<forall>p m. w_metrics w p = Some m \<longrightarrow> metrics_ok m)"

text \<open>
  The pointers that wait at a stream and at its header data, and the account of all pointers: those
  consumed so far and those that wait.
\<close>

definition headers_of :: "hcurl_stream \<Rightarrow> world \<Rightarrow> header_data option" where
  "headers_of s w = (if s_headers s = NULL then None else w_headers w (s_headers s))"

definition api_waiting :: "addr \<Rightarrow> world \<Rightarrow> (HsStablePtr \<times> int) list" where
  "api_waiting p w = (case w_streams w p of None \<Rightarrow> []
     | Some s \<Rightarrow> stream_waiting s @ waiting_on (headers_of s w))"

definition account :: "addr \<Rightarrow> world \<Rightarrow> (HsStablePtr \<times> int) multiset" where
  "account p w = mset (put_calls (w_log w)) + mset (api_waiting p w)"

text \<open>
  A later state of the same stream: its links are the same, and what was closed, finished or
  terminal, with its code, still is.
\<close>

definition evolves :: "hcurl_stream \<Rightarrow> hcurl_stream \<Rightarrow> bool" where
  "evolves s t \<longleftrightarrow> s_sender t = s_sender s \<and> s_headers t = s_headers s \<and> s_metrics t = s_metrics s
     \<and> s_transfer_id t = s_transfer_id s \<and> (s_closed s \<longrightarrow> s_closed t) \<and> (finished s \<longrightarrow> finished t)
     \<and> (terminal_set s \<longrightarrow> terminal_set t \<and> s_terminal_code t = s_terminal_code s)"

lemma same_flags_evolves: "same_flags s t \<Longrightarrow> evolves s t"
  by (simp add: evolves_def same_flags_fields)

lemma evolves_refl [simp]: "evolves s s"
  by (simp add: evolves_def)

lemma evolves_trans: "evolves s t \<Longrightarrow> evolves t u \<Longrightarrow> evolves s u"
  by (simp add: evolves_def)

lemma world_okD:
  assumes "world_ok w" and "w_streams w p = Some s"
  shows "p \<noteq> NULL" "stream_inv s" "stream_linked w s"
  using assms by (auto simp: world_ok_def)

lemma linked_frame:
  assumes "stream_linked w s" and "evolves s t" and "w_senders w' = w_senders w"
    and "quiescent (w_queue w')" and "\<And>q. w_headers w q \<noteq> None \<Longrightarrow> w_headers w' q \<noteq> None"
    and "\<And>q. w_metrics w q \<noteq> None \<Longrightarrow> w_metrics w' q \<noteq> None"
  shows "stream_linked w' t"
  using assms by (auto simp: stream_linked_def channel_ok_def evolves_def)

lemma queue_quiescent:
  "world_ok w \<Longrightarrow> w_streams w p = Some s \<Longrightarrow> quiescent (w_queue w)"
  using world_okD(3) by (auto simp: stream_linked_def channel_ok_def)

text \<open>The calls that hand an easy handle over or set its private pointer.\<close>

fun owner_calls :: "event list \<Rightarrow> event list" where
  "owner_calls [] = []"
| "owner_calls (CurlEasyCleanup e # evs) = CurlEasyCleanup e # owner_calls evs"
| "owner_calls (CurlEasySetPrivate e p # evs) = CurlEasySetPrivate e p # owner_calls evs"
| "owner_calls (_ # evs) = owner_calls evs"

lemma owner_calls_append [simp]: "owner_calls (xs @ ys) = owner_calls xs @ owner_calls ys"
  by (induction xs rule: owner_calls.induct) auto

lemma owner_calls_wake [simp]: "owner_calls (wake_detached d) = []" "owner_calls (fst (wake_up_waker w)) = []"
  by (auto simp: wake_detached_def wake_up_waker_def split: option.splits)

lemma owner_calls_headers:
  "header_data_mark_complete code hp = (evs, hp') \<Longrightarrow> owner_calls evs = []"
  "header_data_mark_body_started hp = (evs, hp') \<Longrightarrow> owner_calls evs = []"
  by (auto simp: header_data_mark_complete_def header_data_mark_body_started_def mark_ready_def
    fire_waiter_def Let_def split: option.splits if_splits)

text \<open>
  The effect of a step on a world with a stream at \<open>p\<close>, and what it leaves alone; the only messages
  it sends are control messages, which carry an id and no pointers.
\<close>

definition controls :: "outer_message mpscq \<Rightarrow> outer_message mpscq \<Rightarrow> bool" where
  "controls q q' \<longleftrightarrow> (\<exists>ms. messages q' = messages q @ ms
     \<and> (\<forall>m \<in> set ms. \<exists>tag i. m = build_message tag (control_payload i)))"

lemma controls_refl [simp]: "controls q q"
  by (simp add: controls_def)

lemma controls_trans:
  assumes "controls q q'" and "controls q' q''"
  shows "controls q q''"
proof -
  obtain ms ns where "messages q' = messages q @ ms" "messages q'' = messages q' @ ns"
    "\<forall>m \<in> set ms. \<exists>tag i. m = build_message tag (control_payload i)"
    "\<forall>m \<in> set ns. \<exists>tag i. m = build_message tag (control_payload i)"
    using assms by (auto simp: controls_def)
  then show ?thesis unfolding controls_def by (intro exI [of _ "ms @ ns"]) auto
qed

lemma controls_add: "messages q' = messages q @ [build_message tag (control_payload i)] \<Longrightarrow> controls q q'"
  by (auto simp: controls_def)

definition quiet :: "world \<Rightarrow> world \<Rightarrow> bool" where
  "quiet w w' \<longleftrightarrow> take (length (w_log w)) (w_log w') = w_log w \<and> owner_calls (w_log w') = owner_calls (w_log w)
     \<and> w_results w' = w_results w \<and> w_senders w' = w_senders w \<and> controls (w_queue w) (w_queue w')
     \<and> (\<forall>q. w_metrics w' q = None \<longleftrightarrow> w_metrics w q = None)
     \<and> (\<forall>q. w_headers w' q = None \<longleftrightarrow> w_headers w q = None)"

text \<open>A sender that is closed: nothing can be sent through it any more.\<close>

definition sealed :: "addr \<Rightarrow> world \<Rightarrow> bool" where
  "sealed p w \<longleftrightarrow> (\<exists>m. w_senders w p = Some m \<and> sender_closed m)"

definition steps_to :: "addr \<Rightarrow> world \<Rightarrow> hcurl_stream \<Rightarrow> world \<Rightarrow> hcurl_stream \<Rightarrow> bool" where
  "steps_to p w s w' t \<longleftrightarrow> world_ok w' \<and> w_streams w' p = Some t \<and> evolves s t
     \<and> kind t = kind s \<and> account p w' = account p w
     \<and> quiet w w' \<and> (\<forall>q. q \<noteq> p \<longrightarrow> w_streams w' q = w_streams w q)
     \<and> (sealed (s_sender s) w \<longrightarrow> w_queue w' = w_queue w)"

lemma quiet_refl [simp]: "quiet w w"
  by (simp add: quiet_def)

lemma take_prefix_trans: "take (length xs) ys = xs \<Longrightarrow> take (length ys) zs = ys \<Longrightarrow> take (length xs) zs = xs"
  by (metis length_take min.absorb_iff2 min.bounded_iff nat_le_linear take_all_iff take_take)

lemma quiet_trans: "quiet w w' \<Longrightarrow> quiet w' w'' \<Longrightarrow> quiet w w''"
  using take_prefix_trans controls_trans by (simp add: quiet_def) blast

lemma steps_to_refl: "world_ok w \<Longrightarrow> w_streams w p = Some s \<Longrightarrow> steps_to p w s w s"
  by (simp add: steps_to_def)

lemma steps_to_trans:
  assumes a: "steps_to p w s w' t" and b: "steps_to p w' t w'' u"
  shows "steps_to p w s w'' u"
proof -
  have "s_sender t = s_sender s" "w_senders w' = w_senders w" using a by (auto simp: steps_to_def evolves_def quiet_def)
  then have "sealed (s_sender t) w' = sealed (s_sender s) w" by (simp add: sealed_def)
  moreover have "evolves s u" using a b by (auto simp: steps_to_def intro: evolves_trans)
  moreover have "quiet w w''" using a b by (auto simp: steps_to_def intro: quiet_trans)
  ultimately show ?thesis using a b by (simp add: steps_to_def)
qed

lemma log_ok [simp]:
  "world_ok (log_calls evs w) = world_ok w" "w_streams (log_calls evs w) = w_streams w"
  "headers_of s (log_calls evs w) = headers_of s w"
  by (simp_all add: world_ok_def stream_linked_def channel_ok_def log_calls_def headers_of_def)

lemma put_ok:
  assumes ok: "world_ok w" and p: "w_streams w p = Some s" and t: "stream_inv t" "evolves s t"
  shows "world_ok (put_stream p t w)" "headers_of t (put_stream p t w) = headers_of s w"
proof -
  let ?w = "put_stream p t w"
  have linked: "stream_linked ?w u" if "stream_linked w u'" "evolves u' u" for u u'
    using that queue_quiescent [OF ok p]
    by (intro linked_frame [OF that(1,2)]) (simp_all add: put_stream_def)
  have "q \<noteq> NULL \<and> stream_inv u \<and> stream_linked ?w u" if "w_streams ?w q = Some u" for q u
  proof (cases "q = p")
    case True
    then have "u = t" using that by (simp add: put_stream_def)
    then show ?thesis using True t linked world_okD [OF ok p] by blast
  next
    case False
    then have "w_streams w q = Some u" using that by (simp add: put_stream_def)
    then show ?thesis using linked world_okD [OF ok] evolves_refl by blast
  qed
  then show "world_ok ?w" using ok by (simp add: world_ok_def put_stream_def)
  show "headers_of t ?w = headers_of s w"
    using t(2) by (simp add: headers_of_def put_stream_def evolves_def)
qed

lemma put_log_step:
  assumes ok: "world_ok w" and p: "w_streams w p = Some s" and t: "stream_inv t" "evolves s t"
    "kind t = kind s" "mset (stream_waiting s) = mset (put_calls evs) + mset (stream_waiting t)"
    and evs: "owner_calls evs = []"
  shows "steps_to p w s (log_calls evs (put_stream p t w)) t"
proof -
  let ?w = "put_stream p t w"
  note put = put_ok [OF ok p t(1,2)]
  have "w_streams ?w p = Some t" "w_log ?w = w_log w" by (simp_all add: put_stream_def)
  then have "account p (log_calls evs ?w) = account p w"
    using p t(4) put(2) by (simp add: account_def api_waiting_def) (simp add: log_calls_def)
  moreover have "quiet w (log_calls evs ?w)" using evs by (simp add: quiet_def put_stream_def log_calls_def)
  moreover have "w_queue (log_calls evs ?w) = w_queue w" by (simp add: log_calls_def put_stream_def)
  ultimately show ?thesis using put(1) t(2,3) by (simp add: steps_to_def) (simp add: put_stream_def)
qed

lemma log_calls_Nil [simp]: "log_calls [] w = w"
  by (simp add: log_calls_def)

lemma put_step:
  assumes "world_ok w" "w_streams w p = Some s" "stream_inv t" "evolves s t" "kind t = kind s"
    "stream_waiting t = stream_waiting s"
  shows "steps_to p w s (put_stream p t w) t"
  using put_log_step [OF assms(1-5), of "[]"] assms(6) by simp

lemma silent_log_step:
  assumes "world_ok w" "w_streams w p = Some s" "put_calls evs = []" "owner_calls evs = []"
  shows "steps_to p w s (log_calls evs w) s"
proof -
  have "put_stream p s w = w" using assms(2) by (simp add: put_stream_def fun_upd_idem)
  with put_log_step [OF assms(1,2), of s evs] assms world_okD(2) show ?thesis by simp
qed

text \<open>A function on the header data that fires or keeps its waiter.\<close>

lemma headers_step:
  assumes ok: "world_ok w" and p: "w_streams w p = Some s"
    and f: "\<And>hp evs hp'. header_ok hp \<Longrightarrow> f hp = (evs, hp') \<Longrightarrow>
      header_ok hp' \<and> waiting_on hp = put_calls evs @ waiting_on hp' \<and> (hp' = None \<longleftrightarrow> hp = None)
      \<and> owner_calls evs = []"
  shows "\<exists>w'. on_headers f (s_headers s) w = Some w' \<and> steps_to p w s w' s"
proof (cases "s_headers s = NULL")
  case True
  obtain evs hp where e: "f None = (evs, hp)" by (cases "f None")
  then have "put_calls evs = []" "owner_calls evs = []"
    using f [of None evs hp] by (auto simp: header_ok_def waiting_on_def)
  then show ?thesis using True e silent_log_step [OF ok p] by (simp add: on_headers_def)
next
  case False
  let ?q = "s_headers s"
  obtain h where h: "w_headers w ?q = Some h"
    using world_okD(3) [OF ok p] False by (auto simp: stream_linked_def)
  obtain evs hp where e: "f (Some h) = (evs, hp)" by (cases "f (Some h)")
  have hok: "header_ok (Some h)" using ok h by (metis world_ok_def)
  note fl = f [OF hok e]
  let ?w = "log_calls evs (w\<lparr>w_headers := (w_headers w)(?q := hp)\<rparr>)"
  have "stream_linked ?w u" if "stream_linked w u" for u
    using that fl queue_quiescent [OF ok p]
    by (intro linked_frame [OF that evolves_refl]) (auto simp: log_calls_def)
  then have "world_ok ?w" using ok fl by (auto simp: world_ok_def log_calls_def)
  moreover have "account p ?w = account p w"
    using p h fl False by (simp add: account_def api_waiting_def headers_of_def log_calls_def)
  moreover have "on_headers f ?q w = Some ?w" using False h e by (simp add: on_headers_def)
  moreover have "w_streams ?w = w_streams w" "w_queue ?w = w_queue w" "quiet w ?w"
    using fl h by (auto simp: quiet_def log_calls_def)
  ultimately show ?thesis using p by (auto simp: steps_to_def)
qed

lemma metrics_step:
  assumes ok: "world_ok w" and p: "w_streams w p = Some s" 
    and f: "\<And>m. metrics_ok m \<Longrightarrow> f (Some m) \<noteq> None \<and> pred_option metrics_ok (f (Some m))"
  shows "\<exists>w'. on_metrics f (s_metrics s) w = Some w' \<and> steps_to p w s w' s"
proof (cases "s_metrics s = NULL")
  case True
  then show ?thesis using steps_to_refl [OF ok p] by (simp add: on_metrics_def)
next
  case False
  let ?q = "s_metrics s"
  obtain m where m: "w_metrics w ?q = Some m"
    using world_okD(3) [OF ok p] False by (auto simp: stream_linked_def)
  let ?w = "w\<lparr>w_metrics := (w_metrics w)(?q := f (Some m))\<rparr>"
  have mok: "metrics_ok m" using ok m by (auto simp: world_ok_def)
  note fm = f [OF mok]
  have "stream_linked ?w u" if "stream_linked w u" for u
    using that fm queue_quiescent [OF ok p]
    by (intro linked_frame [OF that evolves_refl]) auto
  then have "world_ok ?w" using ok fm by (auto simp: world_ok_def pred_option_def)
  moreover have "quiet w ?w" using m fm by (auto simp: quiet_def)
  moreover have "account p ?w = account p w"
    using p by (simp add: account_def api_waiting_def headers_of_def)
  ultimately show ?thesis using False m p by (simp add: on_metrics_def steps_to_def)
qed

section \<open>The functions keep the world consistent\<close>

lemma complete_step:
  assumes ok: "world_ok w" and p: "w_streams w p = Some s"
  shows "\<exists>w' t. hcurl_stream_complete p code w = Some w' \<and> steps_to p w s w' t \<and> unread t = unread s
    \<and> terminal_set t \<and> \<not> paused t \<and> s_closed t = s_closed s \<and> finished t = finished s
    \<and> cancel_sent t = cancel_sent s \<and> api_waiting p w' = [] \<and> w_queue w' = w_queue w
    \<and> w_senders w' = w_senders w
    \<and> s_terminal_code t = (if terminal_set s then s_terminal_code s else code)"
proof -
  have f: "header_ok hp' \<and> waiting_on hp = put_calls evs @ waiting_on hp' \<and> (hp' = None \<longleftrightarrow> hp = None)
      \<and> owner_calls evs = [] \<and> waiting_on hp' = []"
    if "header_ok hp" "header_data_mark_complete code hp = (evs, hp')" for hp evs hp'
    using mark_complete_law [OF that] owner_calls_headers(1) [OF that(2)] that(2)
    by (auto simp: header_data_mark_complete_def Let_def split: option.splits prod.splits)
  have "\<exists>w1. on_headers (header_data_mark_complete code) (s_headers s) w = Some w1 \<and> steps_to p w s w1 s"
    by (rule headers_step [OF ok p]) (use f in blast)
  then obtain w1 where h: "on_headers (header_data_mark_complete code) (s_headers s) w = Some w1"
    "steps_to p w s w1 s" by blast
  have w1: "world_ok w1" "w_streams w1 p = Some s" using h(2) by (auto simp: steps_to_def)
  have none: "waiting_on (headers_of s w1) = []" "w_queue w1 = w_queue w" "w_senders w1 = w_senders w"
  proof -
    show "w_queue w1 = w_queue w" "w_senders w1 = w_senders w"
      using h(1) by (auto simp: on_headers_def log_calls_def split: if_splits option.splits prod.splits)
    show "waiting_on (headers_of s w1) = []"
    proof (cases "s_headers s = NULL \<or> w_headers w (s_headers s) = None")
      case True
      then show ?thesis using h(1) by (auto simp: headers_of_def waiting_on_def on_headers_def)
    next
      case False
      then obtain hd0 where hd0: "w_headers w (s_headers s) = Some hd0" by blast
      obtain evs hp where e: "header_data_mark_complete code (Some hd0) = (evs, hp)"
        by (cases "header_data_mark_complete code (Some hd0)")
      have "header_ok (Some hd0)" using ok hd0 by (metis world_ok_def)
      then have "waiting_on hp = []" using f e by blast
      moreover have "w_headers w1 (s_headers s) = hp"
        using h(1) False hd0 e by (auto simp: on_headers_def log_calls_def)
      ultimately show ?thesis using False by (simp add: headers_of_def)
    qed
  qed
  obtain r wr t where c: "complete_locked code s = ((r, wr), t)"
    by (metis surj_pair)
  note cl = complete_law [OF world_okD(2) [OF ok p] c]
  have links: "evolves s t"
    using c by (auto simp: complete_locked_def Let_def detach_simps evolves_def split: if_splits)
  let ?w = "log_calls (wake_detached r @ wake_detached wr) (put_stream p t w1)"
  have "steps_to p w1 s ?w t"
    using cl links by (intro put_log_step [OF w1]) auto
  then have st: "steps_to p w s ?w t" using h(2) steps_to_trans by blast
  have "headers_of t ?w = headers_of s w1"
    using links by (simp add: headers_of_def log_calls_def put_stream_def evolves_def)
  then have "api_waiting p ?w = []"
    using none(1) cl(5) by (simp add: api_waiting_def put_stream_def)
  moreover have "w_queue ?w = w_queue w" "w_senders ?w = w_senders w"
    using none by (simp_all add: log_calls_def put_stream_def)
  moreover have "hcurl_stream_complete p code w = Some ?w"
    using world_okD(1) [OF ok p] p h(1) c by (simp add: hcurl_stream_complete_def)
  ultimately show ?thesis using st cl by blast
qed

lemma enqueue_control_step:
  assumes ok: "world_ok w" and p: "w_streams w p = Some s"
  shows "\<exists>r w'. enqueue_control c s tag w = Some (r, w') \<and> steps_to p w s w' s
    \<and> (if r = HCURL_STREAM_CONTROL_OK
       then messages (w_queue w') = messages (w_queue w) @ [build_message tag (control_payload (s_transfer_id s))]
         \<and> w_streams w' = w_streams w
       else w' = w)"
proof -
  have sd: "s_sender s \<noteq> NULL" "channel_ok (s_sender s) w"
    using world_okD(3) [OF ok p] by (auto simp: stream_linked_def)
  have q: "quiescent (w_queue w)" using sd(2) by (simp add: channel_ok_def)
  let ?m = "build_message tag (control_payload (s_transfer_id s))"
  show ?thesis
  proof (rule enqueue_law [OF sd, of c tag "control_payload (s_transfer_id s)"])
    fix snd0 q'
    assume a: "w_senders w (s_sender s) = Some snd0"
      "q_put ?m (w_queue w) = Some q'"
      "enqueue_outer_message c (s_sender s) tag (control_payload (s_transfer_id s)) w =
        Some (ENQUEUE_MESSAGE_OK, log_calls [UvAsyncSend (async_handle snd0)] (w\<lparr>w_queue := q'\<rparr>))"
      "\<not> sender_closed snd0"
    let ?w = "log_calls [UvAsyncSend (async_handle snd0)] (w\<lparr>w_queue := q'\<rparr>)"
    note qp = q_put_quiescent [OF q a(2)]
    have "stream_linked ?w u" if "stream_linked w u" for u
      using that qp by (intro linked_frame [OF that evolves_refl]) (auto simp: log_calls_def)
    then have "world_ok ?w" using ok by (auto simp: world_ok_def log_calls_def)
    moreover have "account p ?w = account p w"
      using p by (simp add: account_def api_waiting_def headers_of_def log_calls_def)
    moreover have "quiet w ?w" using controls_add [OF qp(2)] by (simp add: quiet_def log_calls_def)
    moreover have "\<not> sealed (s_sender s) w" using a(1,4) by (simp add: sealed_def)
    ultimately have "steps_to p w s ?w s" using p by (simp add: steps_to_def)
    with a(3) qp(2) show ?thesis by (simp add: enqueue_control_def) (simp add: log_calls_def)
  qed (use steps_to_refl [OF ok p] in \<open>simp_all add: enqueue_control_def\<close>)
qed

lemma steps_toD:
  assumes "steps_to p w s w' t"
  shows "world_ok w'" "w_streams w' p = Some t" "evolves s t" "kind t = kind s"
    "account p w' = account p w" "take (length (w_log w)) (w_log w') = w_log w"
    "quiet w w'" "q \<noteq> p \<Longrightarrow> w_streams w' q = w_streams w q"
  using assms by (auto simp: steps_to_def quiet_def)

text \<open>
  A resume is either not needed, or sent, or recorded as still pending, or pointless because the
  reactor is gone, which ends the stream.
\<close>

lemma flush_resume_step:
  assumes ok: "world_ok w" and p: "w_streams w p = Some s"
  shows "\<exists>r w' t. hcurl_stream_flush_resume c p w = Some (r, w') \<and> steps_to p w s w' t
    \<and> unread t = unread s \<and> s_closed t = s_closed s \<and> finished t = finished s \<and> s_count t = s_count s
    \<and> (r = HCURL_STREAM_CONTROL_OK \<or> r = HCURL_STREAM_CONTROL_RETRY)
    \<and> (r = HCURL_STREAM_CONTROL_RETRY \<longrightarrow> paused s \<and> paused t)
    \<and> (r = HCURL_STREAM_CONTROL_OK \<and> paused s \<and> \<not> s_closed s \<and> \<not> terminal_set s \<and> \<not> cancel_sent s
        \<longrightarrow> \<not> paused t \<and> (terminal_set t
          \<or> messages (w_queue w') = messages (w_queue w) @ [ResumeRequest (s_transfer_id s)]))"
proof -
  obtain b s1 where b: "resume_begin_locked s = (b, s1)" by (cases "resume_begin_locked s")
  note rl = resume_law [OF world_okD(2) [OF ok p] b]
  have links: "evolves s s1" and same: "s_closed s1 = s_closed s" "finished s1 = finished s"
    "s_count s1 = s_count s" "terminal_set s1 = terminal_set s" "cancel_sent s1 = cancel_sent s"
    "b \<longrightarrow> \<not> paused s1 \<and> paused s \<and> \<not> s_closed s \<and> \<not> terminal_set s \<and> \<not> cancel_sent s"
    "\<not> b \<longrightarrow> s1 = s \<and> \<not> (paused s \<and> \<not> s_closed s \<and> \<not> terminal_set s \<and> \<not> cancel_sent s)"
    using b by (auto simp: resume_begin_locked_def Let_def evolves_def split: if_splits)
  let ?w1 = "put_stream p s1 w"
  have st1: "steps_to p w s ?w1 s1" using rl links by (intro put_step [OF ok p]) auto
  note w1 = steps_toD(1,2) [OF st1]
  have np: "p \<noteq> NULL" using world_okD(1) [OF ok p] .
  show ?thesis
  proof (cases b)
    case False
    then have "hcurl_stream_flush_resume c p w = Some (HCURL_STREAM_CONTROL_OK, ?w1)"
      using np p b by (simp add: hcurl_stream_flush_resume_def)
    with False st1 rl same show ?thesis by auto
  next
    case True
    obtain r w2 where e: "enqueue_control c s1 RESUME_REQUEST ?w1 = Some (r, w2)"
      "steps_to p ?w1 s1 w2 s1"
      "if r = HCURL_STREAM_CONTROL_OK
       then messages (w_queue w2) = messages (w_queue ?w1)
         @ [build_message RESUME_REQUEST (control_payload (s_transfer_id s1))]
         \<and> w_streams w2 = w_streams ?w1 else w2 = ?w1"
      using enqueue_control_step [OF w1, of c RESUME_REQUEST] by blast
    note w2 = steps_toD(1,2) [OF e(2)]
    have st2: "steps_to p w s w2 s1" using st1 e(2) steps_to_trans by blast
    show ?thesis
    proof (cases r)
      case HCURL_STREAM_CONTROL_OK
      then have "hcurl_stream_flush_resume c p w = Some (HCURL_STREAM_CONTROL_OK, w2)"
        using np p b True e(1) by (simp add: hcurl_stream_flush_resume_def)
      moreover have "messages (w_queue w2) = messages (w_queue w) @ [ResumeRequest (s_transfer_id s)]"
        using e(3) HCURL_STREAM_CONTROL_OK links
        by (simp add: build_message_def control_payload_def put_stream_def evolves_def)
      ultimately show ?thesis using st2 rl same True by auto
    next
      case HCURL_STREAM_CONTROL_CLOSED
      obtain w3 t where c3: "hcurl_stream_complete p CURLE_ABORTED_BY_CALLBACK w2 = Some w3"
        "steps_to p w2 s1 w3 t" "unread t = unread s1" "terminal_set t" "\<not> paused t"
        "s_closed t = s_closed s1" "finished t = finished s1"
        using complete_step [OF w2] by blast
      have "s_count t = s_count s1"
      proof -
        have "complete_locked CURLE_ABORTED_BY_CALLBACK s1 = (fst (complete_locked CURLE_ABORTED_BY_CALLBACK s1), t)"
          using c3(1,2) w2(2) np
          by (auto simp: hcurl_stream_complete_def steps_to_def log_calls_def put_stream_def
            split: prod.splits Option.bind_splits)
        then show ?thesis
          by (auto simp: complete_locked_def Let_def detach_simps split: if_splits)
      qed
      moreover have "hcurl_stream_flush_resume c p w = Some (HCURL_STREAM_CONTROL_OK, w3)"
        using np p b True e(1) HCURL_STREAM_CONTROL_CLOSED c3(1)
        by (simp add: hcurl_stream_flush_resume_def)
      moreover have "steps_to p w s w3 t" using st2 c3(2) steps_to_trans by blast
      ultimately show ?thesis using c3 rl same by auto
    next
      case HCURL_STREAM_CONTROL_RETRY
      let ?t = "resume_retry_locked s1"
      have i1: "stream_inv s1" using rl by simp
      have "steps_to p w2 s1 (put_stream p ?t w2) ?t"
        using retry_law(1) [OF i1]
        by (intro put_step [OF w2]) (auto simp: resume_retry_locked_def evolves_def)
      then have "steps_to p w s (put_stream p ?t w2) ?t" using st2 steps_to_trans by blast
      moreover have "hcurl_stream_flush_resume c p w = Some (HCURL_STREAM_CONTROL_RETRY, put_stream p ?t w2)"
        using np p b True e(1) HCURL_STREAM_CONTROL_RETRY w2(2)
        by (simp add: hcurl_stream_flush_resume_def update_stream_def)
      moreover have "paused ?t" "unread ?t = unread s" "s_closed ?t = s_closed s"
        "finished ?t = finished s" "s_count ?t = s_count s"
        using True same rl by (auto simp: resume_retry_locked_def)
      ultimately show ?thesis using True same by blast
    qed
  qed
qed

lemma close_links: "close_locked s = Some (x, t) \<Longrightarrow> stream_inv s \<Longrightarrow> evolves s t"
proof -
  assume c: "close_locked s = Some (x, t)" and inv: "stream_inv s"
  have "ring_inv (s\<lparr>s_closed := True, paused := False\<rparr>)" using inv by (simp add: stream_inv_def)
  from drop_ring [OF this] obtain s1 where s1:
    "drop_chunks_locked (s\<lparr>s_closed := True, paused := False\<rparr>) = Some s1"
    "same_flags (s\<lparr>s_closed := True, paused := False\<rparr>) s1" by blast
  from same_flags_evolves [OF s1(2)] c s1(1) show ?thesis
    by (auto simp: close_locked_def Let_def detach_simps evolves_def split: if_splits)
qed

text \<open>
  Closing discards the chunks, wakes both waiters, and makes sure that the transfer is cancelled:
  the request is sent, was sent before, is not needed any more, or the caller is told to retry.
\<close>

lemma close_step:
  assumes ok: "world_ok w" and p: "w_streams w p = Some s"
  shows "\<exists>r w' t. hcurl_stream_close c p w = Some (r, w') \<and> steps_to p w s w' t
    \<and> unread t = [] \<and> s_closed t \<and> stream_waiting t = []
    \<and> (r = HCURL_STREAM_CONTROL_OK \<or> r = HCURL_STREAM_CONTROL_RETRY)
    \<and> (r = HCURL_STREAM_CONTROL_OK \<longrightarrow> terminal_set t \<or> cancel_sent t)
    \<and> (r = HCURL_STREAM_CONTROL_OK \<and> \<not> terminal_set t \<and> \<not> cancel_sent s
        \<longrightarrow> messages (w_queue w') = messages (w_queue w) @ [CancelRequest (s_transfer_id s)])
    \<and> (r = HCURL_STREAM_CONTROL_RETRY \<longrightarrow> \<not> cancel_sent t)"
proof -
  obtain rd wr n s1 where c: "close_locked s = Some ((rd, wr, n), s1)" and cl: "stream_inv s1"
    "s_closed s1" "unread s1 = []" "stream_waiting s1 = []" "cancel_sent s1 = (cancel_sent s \<or> n)"
    "n = (\<not> terminal_set s \<and> \<not> cancel_sent s)" "terminal_set s1 = terminal_set s" "kind s1 = kind s"
    "mset (stream_waiting s) = mset (put_calls (wake_detached rd @ wake_detached wr))"
    using close_law [OF world_okD(2) [OF ok p]] by blast
  have links: "evolves s s1" using close_links [OF c world_okD(2) [OF ok p]] .
  let ?w1 = "log_calls (wake_detached rd @ wake_detached wr) (put_stream p s1 w)"
  have st1: "steps_to p w s ?w1 s1" using cl links by (intro put_log_step [OF ok p]) auto
  note w1 = steps_toD(1,2) [OF st1]
  have np: "p \<noteq> NULL" using world_okD(1) [OF ok p] .
  show ?thesis
  proof (cases n)
    case False
    then have "hcurl_stream_close c p w = Some (HCURL_STREAM_CONTROL_OK, ?w1)"
      using np p c by (simp add: hcurl_stream_close_def)
    with False st1 cl show ?thesis by auto
  next
    case True
    obtain r w2 where e: "enqueue_control c s1 CANCEL_REQUEST ?w1 = Some (r, w2)"
      "steps_to p ?w1 s1 w2 s1"
      "if r = HCURL_STREAM_CONTROL_OK
       then messages (w_queue w2) = messages (w_queue ?w1)
         @ [build_message CANCEL_REQUEST (control_payload (s_transfer_id s1))]
         \<and> w_streams w2 = w_streams ?w1 else w2 = ?w1"
      using enqueue_control_step [OF w1, of c CANCEL_REQUEST] by blast
    note w2 = steps_toD(1,2) [OF e(2)]
    have st2: "steps_to p w s w2 s1" using st1 e(2) steps_to_trans by blast
    show ?thesis
    proof (cases r)
      case HCURL_STREAM_CONTROL_OK
      then have "hcurl_stream_close c p w = Some (HCURL_STREAM_CONTROL_OK, w2)"
        using np p c True e(1) by (simp add: hcurl_stream_close_def)
      moreover have "messages (w_queue w2) = messages (w_queue w) @ [CancelRequest (s_transfer_id s)]"
        using e(3) HCURL_STREAM_CONTROL_OK links
        by (simp add: build_message_def control_payload_def put_stream_def log_calls_def evolves_def)
      ultimately show ?thesis using st2 cl True by auto
    next
      case HCURL_STREAM_CONTROL_CLOSED
      obtain w3 t where c3: "hcurl_stream_complete p CURLE_ABORTED_BY_CALLBACK w2 = Some w3"
        "steps_to p w2 s1 w3 t" "unread t = unread s1" "terminal_set t" "s_closed t = s_closed s1"
        "api_waiting p w3 = []"
        using complete_step [OF w2] by blast
      have "stream_waiting t = []" using c3(6) steps_toD(2) [OF c3(2)] by (simp add: api_waiting_def)
      moreover have "hcurl_stream_close c p w = Some (HCURL_STREAM_CONTROL_OK, w3)"
        using np p c True e(1) HCURL_STREAM_CONTROL_CLOSED c3(1) by (simp add: hcurl_stream_close_def)
      moreover have "steps_to p w s w3 t" using st2 c3(2) steps_to_trans by blast
      ultimately show ?thesis using c3 cl by auto
    next
      case HCURL_STREAM_CONTROL_RETRY
      let ?t = "close_retry_locked s1"
      have "steps_to p w2 s1 (put_stream p ?t w2) ?t"
        using retry_law(2) [OF cl(1)]
        by (intro put_step [OF w2]) (auto simp: close_retry_locked_def evolves_def)
      then have "steps_to p w s (put_stream p ?t w2) ?t" using st2 steps_to_trans by blast
      moreover have "hcurl_stream_close c p w = Some (HCURL_STREAM_CONTROL_RETRY, put_stream p ?t w2)"
        using np p c True e(1) HCURL_STREAM_CONTROL_RETRY w2(2)
        by (simp add: hcurl_stream_close_def update_stream_def)
      moreover have "\<not> cancel_sent ?t" "unread ?t = []" "s_closed ?t" "stream_waiting ?t = []"
        using True cl by (auto simp: close_retry_locked_def)
      ultimately show ?thesis by blast
    qed
  qed
qed

lemma add_counts:
  "metrics_ok m \<Longrightarrow> curl_metrics_add_downloaded n (Some m) \<noteq> None
     \<and> pred_option metrics_ok (curl_metrics_add_downloaded n (Some m))"
  "metrics_ok m \<Longrightarrow> curl_metrics_add_uploaded n (Some m) \<noteq> None
     \<and> pred_option metrics_ok (curl_metrics_add_uploaded n (Some m))"
  using add_ok [of m n] by (auto simp: curl_metrics_add_downloaded_def curl_metrics_add_uploaded_def)

text \<open>The step shared by both callbacks: the stream is updated, bytes are counted, a waiter is woken.\<close>

lemma counted_step:
  assumes "world_ok w" "w_streams w p = Some s" "stream_inv t" "evolves s t" "kind t = kind s"
    and wk: "mset (stream_waiting s) = mset (put_calls evs) + mset (stream_waiting t)"
    and f: "\<And>m. metrics_ok m \<Longrightarrow> f (Some m) \<noteq> None \<and> pred_option metrics_ok (f (Some m))"
    and evs: "owner_calls evs = []"
  shows "\<exists>w'. on_metrics f (s_metrics t) (put_stream p t w) = Some w' \<and> steps_to p w s (log_calls evs w') t"
proof -
  have st: "steps_to p w s (log_calls evs (put_stream p t w)) t"
    using assms by (intro put_log_step) auto
  obtain w3 where m: "on_metrics f (s_metrics t) (log_calls evs (put_stream p t w)) = Some w3"
    "steps_to p (log_calls evs (put_stream p t w)) t w3 t"
    using metrics_step [OF steps_toD(1,2) [OF st], of f] f by blast
  obtain w' where w': "on_metrics f (s_metrics t) (put_stream p t w) = Some w'" "w3 = log_calls evs w'"
    using m(1) by (auto simp: on_metrics_def log_calls_def split: if_splits option.splits)
  have "steps_to p w s w3 t" using st m(2) steps_to_trans by blast
  with w' show ?thesis by auto
qed

lemma download_links: "download_locked m d s = Some (r, t) \<Longrightarrow> evolves s t"
  by (auto simp: download_locked_def store_chunk_def detach_simps evolves_def Let_def
    split: if_splits Option.bind_splits)

lemma download_step:
  assumes ok: "world_ok w" and p: "w_streams w p = Some s" and k: "kind s = HCURL_STREAM_DOWNLOAD"
    and d: "length d < CURL_WRITEFUNC_PAUSE"
  shows "\<exists>n w' t. hcurl_download_write_callback m CURLE_OK d 1 (length d) p w = Some (n, w')
    \<and> steps_to p w s w' t
    \<and> unread t = unread s @ (if n = length d then d else [])
    \<and> (n = length d \<or> n = 0 \<or> n = CURL_WRITEFUNC_PAUSE)
    \<and> (n = CURL_WRITEFUNC_PAUSE \<longrightarrow> s_count s = s_capacity s \<and> paused t)
    \<and> s_closed t = s_closed s"
proof -
  have small: "length d \<le> SIZE_MAX" using d by (simp add: CURL_WRITEFUNC_PAUSE_def SIZE_MAX_def)
  have size: "checked_transfer_size 1 (length d) = Some (length d)"
    using small by (simp add: checked_transfer_size_def size_simps)
  have np: "p \<noteq> NULL" using world_okD(1) [OF ok p] .
  show ?thesis
  proof (cases "d = []")
    case True
    then show ?thesis using np p k size steps_to_refl [OF ok p]
      by (auto simp: hcurl_download_write_callback_def checked_transfer_size_def sz_mul_def
        CURL_WRITEFUNC_PAUSE_def)
  next
    case False
    have f: "header_ok hp' \<and> waiting_on hp = put_calls evs @ waiting_on hp' \<and> (hp' = None \<longleftrightarrow> hp = None)
        \<and> owner_calls evs = []"
      if "header_ok hp" "header_data_mark_body_started hp = (evs, hp')" for hp evs hp'
      using mark_ready_law [OF that(1)] owner_calls_headers(2) [OF that(2)] that(2)
      by (auto simp: header_data_mark_body_started_def mark_ready_def Let_def
        split: option.splits prod.splits)
    have "\<exists>w1. on_headers header_data_mark_body_started (s_headers s) w = Some w1 \<and> steps_to p w s w1 s"
      by (rule headers_step [OF ok p f])
    then obtain w1 where h: "on_headers header_data_mark_body_started (s_headers s) w = Some w1"
      "steps_to p w s w1 s" by blast
    note w1 = steps_toD(1,2) [OF h(2)]
    obtain r t where l: "download_locked m d s = Some (r, t)" and t: "stream_inv t" "kind t = kind s"
      "unread t = unread s @ download_bytes d r"
      "mset (stream_waiting s) = mset (put_calls (download_wakes r)) + mset (stream_waiting t)"
      "r = PausedFull \<longrightarrow> s_count s = s_capacity s \<and> paused t"
      using download_law [OF world_okD(2) [OF ok p] k False small, of m] by blast
    have links: "evolves s t" using download_links [OF l] .
    have cl: "s_closed t = s_closed s"
      using l by (auto simp: download_locked_def store_chunk_def detach_simps Let_def
        split: if_splits Option.bind_splits)
    show ?thesis
    proof (cases r)
      case Refused
      have "steps_to p w1 s (log_calls [] (put_stream p t w1)) t"
        using t links Refused by (intro put_log_step [OF w1]) (auto simp: download_wakes_def)
      then have "steps_to p w s (put_stream p t w1) t" using h(2) steps_to_trans by auto
      moreover have "hcurl_download_write_callback m CURLE_OK d 1 (length d) p w = Some (0, put_stream p t w1)"
        using np p k size h(1) l Refused False by (simp add: hcurl_download_write_callback_def)
      ultimately show ?thesis using t cl False Refused by (auto simp: download_bytes_def CURL_WRITEFUNC_PAUSE_def)
    next
      case PausedFull
      have "steps_to p w1 s (log_calls [] (put_stream p t w1)) t"
        using t links PausedFull by (intro put_log_step [OF w1]) (auto simp: download_wakes_def)
      then have "steps_to p w s (put_stream p t w1) t" using h(2) steps_to_trans by auto
      moreover have "hcurl_download_write_callback m CURLE_OK d 1 (length d) p w
          = Some (CURL_WRITEFUNC_PAUSE, put_stream p t w1)"
        using np p k size h(1) l PausedFull False by (simp add: hcurl_download_write_callback_def)
      ultimately show ?thesis using t cl d PausedFull by (auto simp: download_bytes_def)
    next
      case (Stored wk e)
      have wk: "mset (stream_waiting s) = mset (put_calls (wake_detached wk)) + mset (stream_waiting t)"
        using t(4) Stored by (simp add: download_wakes_def)
      obtain w3 where m: "on_metrics (curl_metrics_add_downloaded (length d)) (s_metrics t)
          (put_stream p t w1) = Some w3" "steps_to p w1 s (log_calls (wake_detached wk) w3) t"
        using counted_step [OF w1 t(1) links t(2) wk, of "curl_metrics_add_downloaded (length d)",
          OF add_counts(1) owner_calls_wake(1)] by blast
      have st3: "steps_to p w s (log_calls (wake_detached wk) w3) t" using h(2) m(2) steps_to_trans by blast
      define w4 where "w4 = (if e \<noteq> NULL then log_calls [CurlEasyPause e CURLPAUSE_RECV]
        (log_calls (wake_detached wk) w3) else log_calls (wake_detached wk) w3)"
      have "steps_to p (log_calls (wake_detached wk) w3) t w4 t"
        using silent_log_step [OF steps_toD(1,2) [OF st3], of "[CurlEasyPause e CURLPAUSE_RECV]"]
          steps_to_refl [OF steps_toD(1,2) [OF st3]] by (simp add: w4_def)
      then have "steps_to p w s w4 t" using st3 steps_to_trans by blast
      moreover have "hcurl_download_write_callback m CURLE_OK d 1 (length d) p w = Some (length d, w4)"
        using np p k size h(1) l Stored False m(1)
        by (simp add: hcurl_download_write_callback_def w4_def)
      ultimately show ?thesis using t cl d Stored by (auto simp: download_bytes_def)
    qed
  qed
qed

end
