(* ===== verification/Stream_Run.thy ===== *)
theory Stream_Run
  imports Stream_Api
begin

text \<open>
  What a stream promises its two users. The remaining functions of \<open>cbits/stream.c\<close> keep the world
  consistent; a history of calls on one stream, in any order, delivers the accepted bytes in order
  and without loss until the stream is closed; a registered waiter is fired or handed back once; the
  first terminal code stays; and after every call that must reach the reactor, the message is in the
  queue, the stream is terminal, or the caller knows that it has to retry.
\<close>

section \<open>The other functions keep the world consistent\<close>

text \<open>The part of a stream that the data path leaves alone.\<close>

definition fixed_part :: "hcurl_stream \<Rightarrow> (addr \<times> addr \<times> addr \<times> transfer_id) \<times> bool \<times> bool \<times> bool \<times> CURLcode" where
  "fixed_part s = ((s_sender s, s_headers s, s_metrics s, s_transfer_id s), s_closed s, finished s, terminal_set s,
     s_terminal_code s)"

lemma fixed_updates [simp]:
  "fixed_part (s\<lparr>chunks := cs\<rparr>) = fixed_part s" "fixed_part (s\<lparr>paused := b\<rparr>) = fixed_part s"
  by (simp_all add: fixed_part_def)

lemma fixed_pop: "pop_chunk s = Some (c, t) \<Longrightarrow> fixed_part t = fixed_part s"
  by (auto simp: pop_chunk_def fixed_part_def split: if_splits)

lemma fixed_detach: "detach_writer s = (w, t) \<Longrightarrow> fixed_part t = fixed_part s"
  by (auto simp: detach_simps fixed_part_def split: if_splits)

lemma upload_fixed:
  assumes "upload_locked cap s = Some (r, t)"
  shows "fixed_part t = fixed_part s"
proof (cases "s_closed s \<or> (terminal_set s \<and> s_terminal_code s \<noteq> CURLE_OK) \<or> s_count s = 0")
  case True
  then show ?thesis using assms by (auto simp: upload_locked_def split: if_splits)
next
  case False
  then show ?thesis using assms unfolding upload_locked_def Let_def
    by (auto dest!: fixed_pop fixed_detach split: if_splits option.splits Option.bind_splits prod.splits)
qed

lemma upload_frame:
  assumes "upload_locked cap s = Some (r, t)"
  shows "evolves s t \<and> s_closed t = s_closed s \<and> finished t = finished s \<and> terminal_set t = terminal_set s
     \<and> s_terminal_code t = s_terminal_code s"
  using upload_fixed [OF assms] by (simp add: fixed_part_def evolves_def)

lemma checked_one: "n \<le> SIZE_MAX \<Longrightarrow> checked_transfer_size 1 n = Some n"
  by (simp add: checked_transfer_size_def size_simps)

lemma upload_step:
  assumes ok: "world_ok w" and p: "w_streams w p = Some s" and k: "kind s = HCURL_STREAM_UPLOAD"
    and cap: "0 < cap" "cap < CURL_READFUNC_ABORT"
  shows "\<exists>n out w' t. hcurl_upload_read_callback 1 cap p w = Some (n, out, w') \<and> steps_to p w s w' t
    \<and> unread s = out @ unread t \<and> s_closed t = s_closed s \<and> finished t = finished s
    \<and> (out \<noteq> [] \<and> n = length out \<and> n \<le> cap
       \<or> out = [] \<and> n = 0 \<and> finished s \<and> unread s = [] \<and> \<not> s_closed s
       \<or> out = [] \<and> n = CURL_READFUNC_PAUSE \<and> \<not> finished s \<and> unread s = [] \<and> paused t
       \<or> out = [] \<and> n = CURL_READFUNC_ABORT \<and> (s_closed s \<or> terminal_set s))"
proof -
  have np: "p \<noteq> NULL" using world_okD(1) [OF ok p] .
  have "cap \<le> SIZE_MAX" using cap by (simp add: CURL_READFUNC_ABORT_def SIZE_MAX_def)
  note size = checked_one [OF this]
  obtain r t where l: "upload_locked cap s = Some (r, t)" and t: "stream_inv t" "kind t = kind s"
    "unread s = upload_bytes r @ unread t"
    "mset (stream_waiting s) = mset (put_calls (upload_wakes r)) + mset (stream_waiting t)"
    "\<forall>out w. r = Copied out w \<longrightarrow> out \<noteq> [] \<and> length out \<le> cap"
    "r = UploadEof \<longrightarrow> finished s \<and> unread s = [] \<and> t = s"
    "r = UploadPause \<longrightarrow> \<not> finished s \<and> unread s = [] \<and> paused t"
    using upload_law [OF world_okD(2) [OF ok p] k cap(1)] by blast
  note f = upload_frame [OF l]
  have st: "steps_to p w s (put_stream p t w) t" if "upload_wakes r = []"
    using put_log_step [OF ok p t(1), of "[]"] f t that by simp
  have ab: "r = UploadAbort \<Longrightarrow> s_closed s \<or> terminal_set s" "r = UploadEof \<Longrightarrow> \<not> s_closed s"
    using l by (auto simp: upload_locked_def Let_def
      split: if_splits Option.bind_splits option.splits prod.splits)
  show ?thesis
  proof (cases r)
    case (Copied out wr)
    have wk: "mset (stream_waiting s) = mset (put_calls (wake_detached wr)) + mset (stream_waiting t)"
      using t(4) Copied by (simp add: upload_wakes_def)
    have ev: "evolves s t" using f by blast
    obtain w3 where m: "on_metrics (curl_metrics_add_uploaded (length out)) (s_metrics t)
        (put_stream p t w) = Some w3" "steps_to p w s (log_calls (wake_detached wr) w3) t"
      using counted_step [OF ok p t(1) ev t(2) wk, of "curl_metrics_add_uploaded (length out)",
        OF add_counts(2) owner_calls_wake(1)] by blast
    have "hcurl_upload_read_callback 1 cap p w = Some (length out, out, log_calls (wake_detached wr) w3)"
      using np p k size l Copied cap m(1) by (simp add: hcurl_upload_read_callback_def)
    with m(2) t f Copied show ?thesis by (auto simp: upload_bytes_def)
  next
    case UploadAbort
    then have "hcurl_upload_read_callback 1 cap p w = Some (CURL_READFUNC_ABORT, [], put_stream p t w)"
      using np p k size l cap by (simp add: hcurl_upload_read_callback_def)
    with st t f ab UploadAbort show ?thesis by (auto simp: upload_bytes_def upload_wakes_def)
  next
    case UploadEof
    then have "hcurl_upload_read_callback 1 cap p w = Some (0, [], put_stream p t w)"
      using np p k size l cap by (simp add: hcurl_upload_read_callback_def)
    with st t f ab UploadEof show ?thesis by (auto simp: upload_bytes_def upload_wakes_def)
  next
    case UploadPause
    then have "hcurl_upload_read_callback 1 cap p w = Some (CURL_READFUNC_PAUSE, [], put_stream p t w)"
      using np p k size l cap by (simp add: hcurl_upload_read_callback_def)
    with st t f UploadPause show ?thesis by (auto simp: upload_bytes_def upload_wakes_def)
  qed
qed

text \<open>
  A function that ends with \<open>hcurl_stream_flush_resume\<close> when the stream was paused: the reactor was
  told to resume, or the stream ended, or the caller is told that the control message is pending.
\<close>

definition resumed :: "bool \<Rightarrow> hcurl_stream \<Rightarrow> world \<Rightarrow> hcurl_stream \<Rightarrow> world \<Rightarrow> bool" where
  "resumed control_pending s w t w' \<longleftrightarrow>
     (if control_pending then paused t
      else paused s \<and> \<not> s_closed s \<and> \<not> terminal_set s \<and> \<not> cancel_sent s \<longrightarrow>
        \<not> paused t \<and> (terminal_set t
          \<or> messages (w_queue w') = messages (w_queue w) @ [ResumeRequest (s_transfer_id s)]))"

lemma resumed_frame:
  "resumed b t (put_stream p u w) t' w' \<Longrightarrow> paused t = paused s \<Longrightarrow> s_closed t = s_closed s \<Longrightarrow>
   terminal_set t = terminal_set s \<Longrightarrow> cancel_sent t = cancel_sent s \<Longrightarrow>
   s_transfer_id t = s_transfer_id s \<Longrightarrow> resumed b s w t' w'"
  by (auto simp: resumed_def put_stream_def split: if_splits)

lemma resume_step:
  assumes "world_ok w" and "w_streams w p = Some s"
  shows "\<exists>r w' t. hcurl_stream_flush_resume c p w = Some (r, w') \<and> steps_to p w s w' t
    \<and> unread t = unread s \<and> s_closed t = s_closed s \<and> finished t = finished s
    \<and> resumed (r \<noteq> HCURL_STREAM_CONTROL_OK) s w t w'"
proof -
  obtain r w' t where r: "hcurl_stream_flush_resume c p w = Some (r, w')" "steps_to p w s w' t"
    "unread t = unread s" "s_closed t = s_closed s" "finished t = finished s"
    "r = HCURL_STREAM_CONTROL_OK \<or> r = HCURL_STREAM_CONTROL_RETRY"
    "r = HCURL_STREAM_CONTROL_RETRY \<longrightarrow> paused s \<and> paused t"
    "r = HCURL_STREAM_CONTROL_OK \<and> paused s \<and> \<not> s_closed s \<and> \<not> terminal_set s \<and> \<not> cancel_sent s
        \<longrightarrow> \<not> paused t \<and> (terminal_set t
          \<or> messages (w_queue w') = messages (w_queue w) @ [ResumeRequest (s_transfer_id s)])"
    using flush_resume_step [OF assms, of c] by blast
  then show ?thesis by (auto simp: resumed_def)
qed

definition read_data :: "read_result option \<Rightarrow> byte list" where
  "read_data rr = (case rr of None \<Rightarrow> [] | Some r \<Rightarrow> (case rr_data r of None \<Rightarrow> [] | Some d \<Rightarrow> d))"

text \<open>What the reader is told, and why.\<close>

definition read_reason :: "hcurl_stream \<Rightarrow> hcurl_stream_read_result \<Rightarrow> read_result \<Rightarrow> bool" where
  "read_reason s c rr \<longleftrightarrow> rr_code rr = c \<and>
     (case c of
        HCURL_STREAM_READ_CHUNK \<Rightarrow> \<exists>d. rr_data rr = Some d \<and> d \<noteq> [] \<and> rr_length rr = length d
      | HCURL_STREAM_READ_CHUNK_CONTROL_PENDING \<Rightarrow>
          \<exists>d. rr_data rr = Some d \<and> d \<noteq> [] \<and> rr_length rr = length d
      | HCURL_STREAM_READ_WOULD_BLOCK \<Rightarrow> rr_data rr = None \<and> unread s = [] \<and> \<not> s_closed s \<and> \<not> terminal_set s
      | HCURL_STREAM_READ_EOF \<Rightarrow>
          rr_data rr = None \<and> unread s = [] \<and> \<not> s_closed s \<and> terminal_set s \<and> s_terminal_code s = CURLE_OK
      | HCURL_STREAM_READ_ERROR \<Rightarrow> rr_data rr = None \<and> unread s = [] \<and> \<not> s_closed s \<and> terminal_set s
          \<and> rr_terminal rr = s_terminal_code s \<and> s_terminal_code s \<noteq> CURLE_OK
      | HCURL_STREAM_READ_CLOSED \<Rightarrow> rr_data rr = None \<and> s_closed s)"

definition control_pending :: "hcurl_stream_read_result \<Rightarrow> bool" where
  "control_pending c \<longleftrightarrow> c = HCURL_STREAM_READ_CHUNK_CONTROL_PENDING"

lemma read_step:
  assumes ok: "world_ok w" and p: "w_streams w p = Some s" and k: "kind s = HCURL_STREAM_DOWNLOAD"
  shows "\<exists>c rr w' t. hcurl_stream_try_read m True p w = Some (c, Some rr, w') \<and> steps_to p w s w' t
    \<and> unread s = read_data (Some rr) @ unread t \<and> s_closed t = s_closed s \<and> read_reason s c rr
    \<and> (unread s \<noteq> [] \<longrightarrow> resumed (control_pending c) s w t w')"
proof -
  have np: "p \<noteq> NULL" using world_okD(1) [OF ok p] .
  obtain r t where l: "try_read_locked s = Some (r, t)" and t: "stream_inv t"
    "unread s = read_bytes r @ unread t" "stream_waiting t = stream_waiting s" "same_flags s t"
    "if s_count s = 0 then read_bytes r = [] \<and> t = s
       else (\<exists>d. r = GotChunk (Some d) (length d) (paused s) \<and> d \<noteq> []) \<and> s_count s = s_count t + 1"
    using try_read_law [OF world_okD(2) [OF ok p] k] by blast
  note f = same_flags_fields [OF t(4)]
  let ?w1 = "put_stream p t w"
  have st1: "steps_to p w s ?w1 t"
    using t f same_flags_evolves [OF t(4)] by (intro put_step [OF ok p]) auto
  show ?thesis
  proof (cases "s_count s = 0")
    case True
    then have u: "unread s = []" by (rule unread_empty)
    show ?thesis
      using np p k l True st1 u t(5)
      by (auto simp: hcurl_stream_try_read_def try_read_locked_def read_data_def read_reason_def
        split: if_splits)
  next
    case False
    then obtain d where d: "r = GotChunk (Some d) (length d) (paused s)" "d \<noteq> []" using t(5) by auto
    have u: "unread s = d @ unread t" using t(2) d by (simp add: read_bytes_def)
    show ?thesis
    proof (cases "paused s")
      case True
      obtain c w2 t2 where c: "hcurl_stream_flush_resume m p ?w1 = Some (c, w2)" "steps_to p ?w1 t w2 t2"
        "unread t2 = unread t" "s_closed t2 = s_closed t" "resumed (c \<noteq> HCURL_STREAM_CONTROL_OK) t ?w1 t2 w2"
        using resume_step [OF steps_toD(1,2) [OF st1], of m] by blast
      define code where "code = (if c \<noteq> HCURL_STREAM_CONTROL_OK
        then HCURL_STREAM_READ_CHUNK_CONTROL_PENDING else HCURL_STREAM_READ_CHUNK)"
      let ?rr = "\<lparr>rr_code = code, rr_data = Some d, rr_length = length d, rr_terminal = CURLE_OK\<rparr>"
      have "hcurl_stream_try_read m True p w = Some (code, Some ?rr, w2)"
        using np p k l d True c(1) by (simp add: hcurl_stream_try_read_def code_def)
      moreover have "steps_to p w s w2 t2" using st1 c(2) steps_to_trans by blast
      moreover have "resumed (control_pending code) s w t2 w2"
        using resumed_frame [OF c(5), of s] f by (cases "c = HCURL_STREAM_CONTROL_OK")
          (simp_all add: control_pending_def code_def)
      moreover have "read_reason s code ?rr" using d by (simp add: read_reason_def code_def)
      moreover have "unread s = read_data (Some ?rr) @ unread t2" "s_closed t2 = s_closed s"
        using c(3,4) f u by (simp_all add: read_data_def)
      ultimately show ?thesis by blast
    next
      case False
      let ?rr = "\<lparr>rr_code = HCURL_STREAM_READ_CHUNK, rr_data = Some d, rr_length = length d,
        rr_terminal = CURLE_OK\<rparr>"
      have "hcurl_stream_try_read m True p w = Some (HCURL_STREAM_READ_CHUNK, Some ?rr, ?w1)"
        using np p k l d False by (simp add: hcurl_stream_try_read_def)
      moreover have "read_reason s HCURL_STREAM_READ_CHUNK ?rr" using d by (simp add: read_reason_def)
      moreover have "resumed (control_pending HCURL_STREAM_READ_CHUNK) s w t ?w1"
        using False by (simp add: resumed_def control_pending_def)
      ultimately show ?thesis using f u st1 by (auto simp: read_data_def)
    qed
  qed
qed

text \<open>What the writer is told, and why.\<close>

definition write_reason :: "hcurl_stream \<Rightarrow> hcurl_stream_write_result \<Rightarrow> int option \<Rightarrow> bool" where
  "write_reason s c term \<longleftrightarrow>
     (case c of
        HCURL_STREAM_WRITE_OK \<Rightarrow> \<not> s_closed s \<and> \<not> terminal_set s \<and> \<not> finished s
      | HCURL_STREAM_WRITE_CONTROL_PENDING \<Rightarrow> \<not> s_closed s \<and> \<not> terminal_set s \<and> \<not> finished s
      | HCURL_STREAM_WRITE_WOULD_BLOCK \<Rightarrow> s_count s = s_capacity s
      | HCURL_STREAM_WRITE_TERMINAL \<Rightarrow> terminal_set s \<and> term = Some (s_terminal_code s)
      | HCURL_STREAM_WRITE_CLOSED \<Rightarrow> s_closed s \<or> finished s
      | HCURL_STREAM_WRITE_OUT_OF_MEMORY \<Rightarrow> \<not> s_closed s \<and> \<not> terminal_set s)"

definition write_accepts :: "hcurl_stream_write_result \<Rightarrow> bool" where
  "write_accepts c \<longleftrightarrow> c = HCURL_STREAM_WRITE_OK \<or> c = HCURL_STREAM_WRITE_CONTROL_PENDING"

lemma write_step:
  assumes ok: "world_ok w" and p: "w_streams w p = Some s" and k: "kind s = HCURL_STREAM_UPLOAD"
    and d: "length d \<le> SIZE_MAX"
  shows "\<exists>c term w' t. hcurl_stream_try_write m m' True (Some d) (length d) p w = Some (c, term, w')
    \<and> steps_to p w s w' t \<and> unread t = unread s @ (if write_accepts c then d else [])
    \<and> s_closed t = s_closed s \<and> finished t = finished s \<and> write_reason s c term
    \<and> (write_accepts c \<and> d \<noteq> [] \<longrightarrow> resumed (c = HCURL_STREAM_WRITE_CONTROL_PENDING) s w t w')"
proof -
  have np: "p \<noteq> NULL" using world_okD(1) [OF ok p] .
  obtain r t where l: "try_write_locked m d s = Some (r, t)" and t: "stream_inv t"
    "unread t = unread s @ write_bytes d r" "stream_waiting t = stream_waiting s" "same_flags s t"
    "\<forall>b. r = WriteStored b \<longrightarrow> b = paused s \<and> \<not> finished s \<and> \<not> s_closed s \<and> \<not> terminal_set s"
    using try_write_law [OF world_okD(2) [OF ok p] k d] by blast
  note f = same_flags_fields [OF t(4)]
  let ?w1 = "put_stream p t w"
  have st1: "steps_to p w s ?w1 t"
    using t f same_flags_evolves [OF t(4)] by (intro put_step [OF ok p]) auto
  have arg: "(if 0 < length d then take (length d) (the (Some d)) else []) = d" by auto
  show ?thesis
  proof (cases "\<exists>b. r = WriteStored b")
    case False
    define cr where "cr = (case r of WriteTerminal c \<Rightarrow> (HCURL_STREAM_WRITE_TERMINAL, Some c)
      | WriteNothing \<Rightarrow> (HCURL_STREAM_WRITE_OK, Some CURLE_OK)
      | WriteWouldBlock \<Rightarrow> (HCURL_STREAM_WRITE_WOULD_BLOCK, Some CURLE_OK)
      | WriteNoMemory \<Rightarrow> (HCURL_STREAM_WRITE_OUT_OF_MEMORY, Some CURLE_OK)
      | _ \<Rightarrow> (HCURL_STREAM_WRITE_CLOSED, Some CURLE_ABORTED_BY_CALLBACK))"
    have "hcurl_stream_try_write m m' True (Some d) (length d) p w = Some (fst cr, snd cr, ?w1)"
      using np p k l arg False by (cases r) (auto simp: hcurl_stream_try_write_def cr_def)
    moreover have "write_reason s (fst cr) (snd cr) \<and> (write_accepts (fst cr) \<longrightarrow> d = [])"
      using l False by (auto simp: try_write_locked_def write_reason_def write_accepts_def cr_def
        split: if_splits Option.bind_splits)
    moreover have "write_bytes d r = []" using False by (cases r) (auto simp: write_bytes_def)
    ultimately show ?thesis using st1 t(2) f by (intro exI [of _ "fst cr"] exI [of _ "snd cr"]
      exI [of _ ?w1] exI [of _ t]) auto
  next
    case True
    then have r: "r = WriteStored (paused s)" and o: "\<not> finished s" "\<not> s_closed s" "\<not> terminal_set s"
      using t(5) by auto
    have dn: "d \<noteq> []" using l r by (auto simp: try_write_locked_def split: if_splits Option.bind_splits)
    have u: "unread t = unread s @ d" using t(2) r by (simp add: write_bytes_def)
    show ?thesis
    proof (cases "paused s")
      case True
      obtain c w2 t2 where c: "hcurl_stream_flush_resume m' p ?w1 = Some (c, w2)" "steps_to p ?w1 t w2 t2"
        "unread t2 = unread t" "s_closed t2 = s_closed t" "finished t2 = finished t"
        "resumed (c \<noteq> HCURL_STREAM_CONTROL_OK) t ?w1 t2 w2"
        using resume_step [OF steps_toD(1,2) [OF st1], of m'] by blast
      define code where "code = (if c \<noteq> HCURL_STREAM_CONTROL_OK
        then HCURL_STREAM_WRITE_CONTROL_PENDING else HCURL_STREAM_WRITE_OK)"
      have "hcurl_stream_try_write m m' True (Some d) (length d) p w = Some (code, Some CURLE_OK, w2)"
        using np p k l r True c(1) dn by (simp add: hcurl_stream_try_write_def code_def)
      moreover have "steps_to p w s w2 t2" using st1 c(2) steps_to_trans by blast
      moreover have "resumed (code = HCURL_STREAM_WRITE_CONTROL_PENDING) s w t2 w2"
        using resumed_frame [OF c(6), of s] f by (cases "c = HCURL_STREAM_CONTROL_OK") (simp_all add: code_def)
      moreover have "write_accepts code" "write_reason s code (Some CURLE_OK)"
        using o by (simp_all add: write_accepts_def write_reason_def code_def)
      ultimately show ?thesis using c(3-5) f u by auto
    next
      case False
      have "hcurl_stream_try_write m m' True (Some d) (length d) p w
          = Some (HCURL_STREAM_WRITE_OK, Some CURLE_OK, ?w1)"
        using np p k l r False dn by (simp add: hcurl_stream_try_write_def)
      then show ?thesis using st1 f u o False
        by (auto simp: write_accepts_def write_reason_def resumed_def)
    qed
  qed
qed

lemma finish_step:
  assumes ok: "world_ok w" and p: "w_streams w p = Some s" and k: "kind s = HCURL_STREAM_UPLOAD"
  shows "\<exists>c term w' t. hcurl_stream_finish_upload m True p w = Some (c, term, w')
    \<and> steps_to p w s w' t \<and> unread t = unread s \<and> s_closed t = s_closed s
    \<and> (finished t \<longleftrightarrow> finished s \<or> write_accepts c)
    \<and> (write_accepts c \<longleftrightarrow> \<not> s_closed s \<and> \<not> terminal_set s)
    \<and> (write_accepts c \<longrightarrow> resumed (c = HCURL_STREAM_WRITE_CONTROL_PENDING) s w t w')"
proof -
  have np: "p \<noteq> NULL" using world_okD(1) [OF ok p] .
  obtain r t where l: "finish_locked s = (r, t)" by (cases "finish_locked s")
  note fl = finish_law [OF world_okD(2) [OF ok p] l]
  have f: "evolves s t" "s_closed t = s_closed s" "paused t = paused s" "terminal_set t = terminal_set s"
    "cancel_sent t = cancel_sent s" "s_transfer_id t = s_transfer_id s"
    using l by (auto simp: finish_locked_def evolves_def split: if_splits)
  let ?w1 = "put_stream p t w"
  have st1: "steps_to p w s ?w1 t" using fl f by (intro put_step [OF ok p]) auto
  show ?thesis
  proof (cases "s_closed s \<or> terminal_set s \<or> \<not> paused s")
    case True
    then have "\<exists>c term. hcurl_stream_finish_upload m True p w = Some (c, term, ?w1)
        \<and> (finished t \<longleftrightarrow> finished s \<or> write_accepts c) \<and> (write_accepts c \<longleftrightarrow> \<not> s_closed s \<and> \<not> terminal_set s)
        \<and> (write_accepts c \<longrightarrow> \<not> paused s \<and> c = HCURL_STREAM_WRITE_OK)"
      using np p k l by (auto simp: hcurl_stream_finish_upload_def finish_locked_def write_accepts_def
        split: if_splits)
    then obtain c te where c: "hcurl_stream_finish_upload m True p w = Some (c, te, ?w1)"
      "finished t \<longleftrightarrow> finished s \<or> write_accepts c" "write_accepts c \<longleftrightarrow> \<not> s_closed s \<and> \<not> terminal_set s"
      "write_accepts c \<longrightarrow> \<not> paused s \<and> c = HCURL_STREAM_WRITE_OK" by blast
    then show ?thesis using st1 fl f
      by (intro exI [of _ c] exI [of _ te] exI [of _ ?w1] exI [of _ t]) (auto simp: resumed_def)
  next
    case False
    then have r: "r = FinishSet True" "finished t" using l by (auto simp: finish_locked_def)
    obtain c w2 t2 where c: "hcurl_stream_flush_resume m p ?w1 = Some (c, w2)" "steps_to p ?w1 t w2 t2"
      "unread t2 = unread t" "s_closed t2 = s_closed t" "finished t2 = finished t"
      "resumed (c \<noteq> HCURL_STREAM_CONTROL_OK) t ?w1 t2 w2"
      using resume_step [OF steps_toD(1,2) [OF st1], of m] by blast
    define code where "code = (if c \<noteq> HCURL_STREAM_CONTROL_OK
      then HCURL_STREAM_WRITE_CONTROL_PENDING else HCURL_STREAM_WRITE_OK)"
    have "hcurl_stream_finish_upload m True p w = Some (code, Some CURLE_OK, w2)"
      using np p k l r c(1) by (simp add: hcurl_stream_finish_upload_def code_def)
    moreover have "steps_to p w s w2 t2" using st1 c(2) steps_to_trans by blast
    moreover have "resumed (code = HCURL_STREAM_WRITE_CONTROL_PENDING) s w t2 w2"
      using resumed_frame [OF c(6), of s] f by (cases "c = HCURL_STREAM_CONTROL_OK") (simp_all add: code_def)
    moreover have "write_accepts code" by (simp add: write_accepts_def code_def)
    ultimately show ?thesis using c(3-5) f fl r False by auto
  qed
qed

section \<open>Histories of one stream\<close>

text \<open>
  The calls on a stream, by libcurl, by Haskell threads and by the reactor, with the outcomes of
  their allocations. \<open>call_on\<close> answers the bytes the call accepted from its caller and the bytes it
  delivered, as the caller sees them from the result.
\<close>

datatype stream_call =
    Deliver bool "byte list"
  | Demand size_t
  | TryRead bool
  | TryWrite bool bool "byte list"
  | FinishUpload bool
  | FlushResume bool
  | CloseStream bool
  | CompleteStream CURLcode

fun call_on :: "stream_call \<Rightarrow> addr \<Rightarrow> world \<Rightarrow> (byte list \<times> byte list \<times> world) option" where
  "call_on (Deliver m d) p w =
     map_option (\<lambda>(n, w'). (if n = length d then d else [], [], w'))
       (hcurl_download_write_callback m CURLE_OK d 1 (length d) p w)"
| "call_on (Demand cap) p w =
     map_option (\<lambda>(n, out, w'). ([], out, w')) (hcurl_upload_read_callback 1 cap p w)"
| "call_on (TryRead m) p w =
     map_option (\<lambda>(c, rr, w'). ([], read_data rr, w')) (hcurl_stream_try_read m True p w)"
| "call_on (TryWrite m m' d) p w =
     map_option (\<lambda>(c, te, w'). (if write_accepts c then d else [], [], w'))
       (hcurl_stream_try_write m m' True (Some d) (length d) p w)"
| "call_on (FinishUpload m) p w =
     map_option (\<lambda>(c, te, w'). ([], [], w')) (hcurl_stream_finish_upload m True p w)"
| "call_on (FlushResume m) p w = map_option (\<lambda>(c, w'). ([], [], w')) (hcurl_stream_flush_resume m p w)"
| "call_on (CloseStream m) p w = map_option (\<lambda>(c, w'). ([], [], w')) (hcurl_stream_close m p w)"
| "call_on (CompleteStream code) p w = map_option (\<lambda>w'. ([], [], w')) (hcurl_stream_complete p code w)"

text \<open>
  libcurl passes blocks smaller than the special return values, and \<open>curl_easy_pause\<close> of the transfer
  that is being received succeeds (\<open>CURLE_OK\<close> above).
\<close>

fun valid_call :: "stream_call \<Rightarrow> bool" where
  "valid_call (Deliver m d) = (length d < CURL_WRITEFUNC_PAUSE)"
| "valid_call (Demand cap) = (0 < cap \<and> cap < CURL_READFUNC_ABORT)"
| "valid_call (TryWrite m m' d) = (length d \<le> SIZE_MAX)"
| "valid_call _ = True"

fun stream_calls :: "stream_call list \<Rightarrow> addr \<Rightarrow> world \<Rightarrow> (byte list \<times> byte list \<times> world) option" where
  "stream_calls [] p w = Some ([], [], w)"
| "stream_calls (c # cs) p w = do {
     (acc, del, w1) \<leftarrow> call_on c p w;
     (acc', del', w2) \<leftarrow> stream_calls cs p w1;
     Some (acc @ acc', del @ del', w2)
   }"

text \<open>What one call does to the bytes: queued ones come out in order, or closing drops them.\<close>

definition moves :: "hcurl_stream \<Rightarrow> byte list \<Rightarrow> byte list \<Rightarrow> hcurl_stream \<Rightarrow> bool" where
  "moves s acc del t \<longleftrightarrow> (acc = [] \<or> del = []) \<and>
     (unread s @ acc = del @ unread t \<or> s_closed t \<and> acc = [] \<and> del = [])"

lemma closed_unread: "stream_inv s \<Longrightarrow> s_closed s \<Longrightarrow> unread s = []"
  by (rule unread_empty) (simp add: stream_inv_def)

lemma wrong_kind:
  assumes "p \<noteq> NULL" and "w_streams w p = Some s"
  shows "kind s \<noteq> HCURL_STREAM_DOWNLOAD \<Longrightarrow> call_on (Deliver m d) p w = Some ([], [], w)"
    "kind s \<noteq> HCURL_STREAM_DOWNLOAD \<Longrightarrow> call_on (TryRead m) p w = Some ([], [], w)"
    "kind s \<noteq> HCURL_STREAM_UPLOAD \<Longrightarrow> call_on (Demand n) p w = Some ([], [], w)"
    "kind s \<noteq> HCURL_STREAM_UPLOAD \<Longrightarrow> call_on (TryWrite m m' d) p w = Some ([], [], w)"
    "kind s \<noteq> HCURL_STREAM_UPLOAD \<Longrightarrow> call_on (FinishUpload m) p w = Some ([], [], w)"
  using assms by (auto simp: hcurl_download_write_callback_def hcurl_stream_try_read_def read_data_def
    hcurl_upload_read_callback_def hcurl_stream_try_write_def write_accepts_def
    hcurl_stream_finish_upload_def)

lemma call_law:
  assumes ok: "world_ok w" and p: "w_streams w p = Some s" and v: "valid_call c"
  shows "\<exists>acc del w' t. call_on c p w = Some (acc, del, w') \<and> steps_to p w s w' t \<and> moves s acc del t"
proof -
  have np: "p \<noteq> NULL" using world_okD(1) [OF ok p] .
  note idle = wrong_kind [OF np p] steps_to_refl [OF ok p]
  have still: "moves s [] [] s" by (simp add: moves_def)
  show ?thesis
  proof (cases c)
    case (Deliver m d)
    show ?thesis
    proof (cases "kind s = HCURL_STREAM_DOWNLOAD")
      case True
      from v Deliver have "length d < CURL_WRITEFUNC_PAUSE" by simp
      from download_step [OF ok p True this, of m] obtain n w' t where
        "hcurl_download_write_callback m CURLE_OK d 1 (length d) p w = Some (n, w')" "steps_to p w s w' t"
        "unread t = unread s @ (if n = length d then d else [])" "s_closed t = s_closed s" by blast
      with Deliver show ?thesis by (auto simp: moves_def)
    next
      case False
      with Deliver idle still show ?thesis by blast
    qed
  next
    case (Demand n)
    show ?thesis
    proof (cases "kind s = HCURL_STREAM_UPLOAD")
      case True
      from v Demand have n: "0 < n" "n < CURL_READFUNC_ABORT" by auto
      from upload_step [OF ok p True n] obtain r out w' t where
        "hcurl_upload_read_callback 1 n p w = Some (r, out, w')" "steps_to p w s w' t"
        "unread s = out @ unread t" "s_closed t = s_closed s" by blast
      with Demand show ?thesis by (auto simp: moves_def)
    next
      case False
      with Demand idle still show ?thesis by blast
    qed
  next
    case (TryRead m)
    show ?thesis
    proof (cases "kind s = HCURL_STREAM_DOWNLOAD")
      case True
      from read_step [OF ok p True, of m] obtain r rr w' t where
        "hcurl_stream_try_read m True p w = Some (r, Some rr, w')" "steps_to p w s w' t"
        "unread s = read_data (Some rr) @ unread t" "s_closed t = s_closed s" by blast
      with TryRead show ?thesis by (auto simp: moves_def)
    next
      case False
      with TryRead idle still show ?thesis by blast
    qed
  next
    case (TryWrite m m' d)
    show ?thesis
    proof (cases "kind s = HCURL_STREAM_UPLOAD")
      case True
      from v TryWrite have "length d \<le> SIZE_MAX" by simp
      from write_step [OF ok p True this, of m m'] obtain r te w' t where
        "hcurl_stream_try_write m m' True (Some d) (length d) p w = Some (r, te, w')" "steps_to p w s w' t"
        "unread t = unread s @ (if write_accepts r then d else [])" "s_closed t = s_closed s" by blast
      with TryWrite show ?thesis by (auto simp: moves_def)
    next
      case False
      with TryWrite idle still show ?thesis by blast
    qed
  next
    case (FinishUpload m)
    show ?thesis
    proof (cases "kind s = HCURL_STREAM_UPLOAD")
      case True
      from finish_step [OF ok p True, of m] obtain r te w' t where
        "hcurl_stream_finish_upload m True p w = Some (r, te, w')" "steps_to p w s w' t"
        "unread t = unread s" "s_closed t = s_closed s" by blast
      with FinishUpload show ?thesis by (auto simp: moves_def)
    next
      case False
      with FinishUpload idle still show ?thesis by blast
    qed
  next
    case (FlushResume m)
    from resume_step [OF ok p, of m] obtain r w' t where
      "hcurl_stream_flush_resume m p w = Some (r, w')" "steps_to p w s w' t" "unread t = unread s"
      "s_closed t = s_closed s" by blast
    with FlushResume show ?thesis by (auto simp: moves_def)
  next
    case (CloseStream m)
    from close_step [OF ok p, of m] obtain r w' t where
      "hcurl_stream_close m p w = Some (r, w')" "steps_to p w s w' t" "s_closed t" by blast
    with CloseStream show ?thesis by (auto simp: moves_def)
  next
    case (CompleteStream code)
    from complete_step [OF ok p, of code] obtain w' t where
      "hcurl_stream_complete p code w = Some w'" "steps_to p w s w' t" "unread t = unread s"
      "s_closed t = s_closed s" by blast
    with CompleteStream show ?thesis by (auto simp: moves_def)
  qed
qed

lemma calls_law:
  assumes "world_ok w" and "w_streams w p = Some s" and "list_all valid_call cs"
  shows "\<exists>acc del w' t lost. stream_calls cs p w = Some (acc, del, w') \<and> steps_to p w s w' t
    \<and> unread s @ acc = del @ lost \<and> (lost = unread t \<or> s_closed t) \<and> (s_closed s \<longrightarrow> acc = [] \<and> del = [])"
  using assms
proof (induction cs arbitrary: w s)
  case Nil
  then show ?case using steps_to_refl by auto
next
  case (Cons c cs)
  have v: "valid_call c" "list_all valid_call cs" using Cons.prems(3) by simp_all
  from call_law [OF Cons.prems(1,2) v(1)] obtain acc del w1 t1 where
    c: "call_on c p w = Some (acc, del, w1)" "steps_to p w s w1 t1" "moves s acc del t1" by blast
  note w1 = steps_toD(1,2) [OF c(2)]
  have inv: "stream_inv s" "stream_inv t1" using world_okD(2) Cons.prems(1,2) w1 by blast+
  have ev: "s_closed s \<longrightarrow> s_closed t1" using steps_toD(3) [OF c(2)] by (simp add: evolves_def)
  from Cons.IH [OF w1 v(2)] obtain acc' del' w2 t2 lost where
    r: "stream_calls cs p w1 = Some (acc', del', w2)" "steps_to p w1 t1 w2 t2"
    "unread t1 @ acc' = del' @ lost" "lost = unread t2 \<or> s_closed t2"
    "s_closed t1 \<longrightarrow> acc' = [] \<and> del' = []" by blast
  have run: "stream_calls (c # cs) p w = Some (acc @ acc', del @ del', w2)" using c(1) r(1) by simp
  have st: "steps_to p w s w2 t2" using c(2) r(2) steps_to_trans by blast
  have cl2: "s_closed t1 \<longrightarrow> s_closed t2" using steps_toD(3) [OF r(2)] by (simp add: evolves_def)
  have "s_closed s \<longrightarrow> acc = [] \<and> del = []"
    using c(3) ev closed_unread inv by (auto simp: moves_def)
  with ev r(5) have cl: "s_closed s \<longrightarrow> acc @ acc' = [] \<and> del @ del' = []" by simp
  show ?case
  proof (cases "unread s @ acc = del @ unread t1")
    case True
    then have "unread s @ acc @ acc' = (del @ del') @ lost" using r(3) by (metis append.assoc)
    with run st r(4) cl show ?thesis by blast
  next
    case False
    then have "s_closed t1" "acc = []" "del = []" using c(3) by (auto simp: moves_def)
    then have "unread s @ acc @ acc' = (del @ del') @ unread s" "s_closed t2" using r(5) cl2 by auto
    with run st cl show ?thesis by blast
  qed
qed

section \<open>Creation, destruction and the sender's references\<close>

text \<open>
  Every stream holds one reference to its sender; \<open>others\<close> counts the references held elsewhere, by
  the agent's context and by owners of an acquired sender. A sender is freed exactly when the last
  of them is given back.
\<close>

definition holders :: "addr \<Rightarrow> world \<Rightarrow> addr set" where
  "holders p w = {q. \<exists>s. w_streams w q = Some s \<and> s_sender s = p}"

definition refs_ok :: "(addr \<Rightarrow> nat) \<Rightarrow> world \<Rightarrow> bool" where
  "refs_ok others w \<longleftrightarrow> (\<forall>p. finite (holders p w) \<and>
     (case w_senders w p of
        None \<Rightarrow> holders p w = {} \<and> others p = 0
      | Some s \<Rightarrow> unat (references s) = card (holders p w) + others p
          \<and> 0 < card (holders p w) + others p))"

lemma retain_cases:
  "message_sender_retain s = (if references s = 0 \<or> references s = of_nat SIZE_MAX then (False, s)
     else (True, s\<lparr>references := references s + 1\<rparr>))"
  by (simp add: message_sender_retain_def cas_loop.simps retain_value_def)

lemma unat_retain:
  "r \<noteq> of_nat SIZE_MAX \<Longrightarrow> unat (r + 1) = unat r + 1" for r :: "64 word"
proof -
  assume r: "r \<noteq> of_nat SIZE_MAX"
  have "unat r \<noteq> SIZE_MAX" using r by (metis of_nat_unat ucast_id)
  moreover have "unat r < 2 ^ 64" using unsigned_less [of r] by simp
  ultimately have "unat r + 1 < 2 ^ 64" by (simp add: SIZE_MAX_def)
  then show ?thesis by (simp add: unat_word_ariths(1))
qed

lemma holders_put:
  "w_streams w q = None \<Longrightarrow>
   holders p (put_stream q s w) = (if s_sender s = p then insert q (holders p w) else holders p w)"
  by (auto simp: holders_def put_stream_def)

text \<open>Changing a reference count that stays positive.\<close>

lemma references_ok:
  assumes ok: "world_ok w" and s: "w_senders w p = Some s"
  shows "world_ok (w\<lparr>w_senders := (w_senders w)(p := Some (s\<lparr>references := r\<rparr>))\<rparr>)"
proof -
  let ?w = "w\<lparr>w_senders := (w_senders w)(p := Some (s\<lparr>references := r\<rparr>))\<rparr>"
  have "channel_ok q ?w" if "channel_ok q w" for q
    using that s by (auto simp: channel_ok_def)
  then show ?thesis using ok by (auto simp: world_ok_def stream_linked_def)
qed

definition create_ok :: "addr \<Rightarrow> world \<Rightarrow> bool" where
  "create_ok sender w \<longleftrightarrow> (\<exists>s. w_senders w sender = Some s \<and> references s \<noteq> 0
     \<and> references s \<noteq> of_nat SIZE_MAX)"

lemma create_law:
  assumes ok: "world_ok w" and ch: "sender \<noteq> NULL \<longrightarrow> channel_ok sender w"
    and fresh: "fresh \<noteq> NULL" "w_streams w fresh = None" and refs: "refs_ok others w"
  shows "\<exists>q w'. hcurl_stream_create fresh a b c k cap sender tid w = Some (q, w')
    \<and> world_ok w' \<and> refs_ok others w' \<and> w_log w' = w_log w \<and> w_queue w' = w_queue w
    \<and> (if q = NULL then w' = w else q = fresh \<and> sender \<noteq> NULL \<and> tid \<noteq> 0 \<and> 0 < cap
        \<and> w_streams w' = (w_streams w)(fresh \<mapsto> new_stream k cap sender tid))
    \<and> (q \<noteq> NULL \<longleftrightarrow> 0 < cap \<and> cap \<le> SIZE_MAX div chunk_size \<and> sender \<noteq> NULL \<and> tid \<noteq> 0
        \<and> create_ok sender w \<and> a \<and> b \<and> c)"
proof (cases "cap = 0 \<or> cap > SIZE_MAX div chunk_size \<or> sender = NULL \<or> tid = 0 \<or> \<not> create_ok sender w")
  case True
  have "hcurl_stream_create fresh a b c k cap sender tid w = Some (NULL, w)"
  proof (cases "sender = NULL")
    case False
    then obtain s where s: "w_senders w sender = Some s" using ch by (auto simp: channel_ok_def)
    have "(w_senders w)(sender := Some s) = w_senders w" using s by auto
    with False True s show ?thesis
      by (auto simp: hcurl_stream_create_def sender_retain_def retain_cases create_ok_def)
  qed (simp add: hcurl_stream_create_def)
  with True ok refs show ?thesis by auto
next
  case False
  then obtain s where s: "w_senders w sender = Some s" "references s \<noteq> 0" "references s \<noteq> of_nat SIZE_MAX"
    by (auto simp: create_ok_def)
  let ?s = "s\<lparr>references := references s + 1\<rparr>"
  define w1 where "w1 = w\<lparr>w_senders := (w_senders w)(sender := Some ?s)\<rparr>"
  have ret: "sender_retain sender w = Some (True, w1)"
    using False s by (simp add: sender_retain_def retain_cases w1_def)
  have "references s + 1 \<noteq> 1" using s(2) by simp
  moreover have "(w_senders w)(sender := Some s) = w_senders w" using s(1) by auto
  ultimately have rel: "sender_release sender w1 = Some w"
    using False by (simp add: sender_release_def w1_def message_sender_release_def)
  have w1: "world_ok w1" unfolding w1_def by (rule references_ok [OF ok s(1)])
  show ?thesis
  proof (cases "a \<and> b \<and> c")
    case f: False
    then have "hcurl_stream_create fresh a b c k cap sender tid w = Some (NULL, w)"
      using False ret rel by (auto simp: hcurl_stream_create_def)
    with f ok refs show ?thesis by auto
  next
    case True
    let ?n = "new_stream k cap sender tid"
    let ?w2 = "put_stream fresh ?n w1"
    have e: "hcurl_stream_create fresh a b c k cap sender tid w = Some (fresh, ?w2)"
      using False True ret by (simp add: hcurl_stream_create_def)
    have cap: "0 < cap" "cap < SIZE_MAX" using False by (auto simp: chunk_size_def SIZE_MAX_def)
    have ch1: "channel_ok sender w1" using ch False s by (auto simp: channel_ok_def w1_def)
    have "stream_linked ?w2 u" if "stream_linked w1 u" for u
      using that ch1 by (intro linked_frame [OF that evolves_refl])
        (auto simp: put_stream_def channel_ok_def)
    moreover have "stream_linked ?w2 ?n"
      using ch1 False by (simp add: stream_linked_def channel_ok_def put_stream_def new_stream_def)
    ultimately have "world_ok ?w2"
      using w1 new_stream_inv [OF cap] fresh(1) by (auto simp: world_ok_def put_stream_def)
    moreover have "refs_ok others ?w2"
    proof -
      have h: "holders p ?w2 = (if p = sender then insert fresh (holders p w) else holders p w)" for p
        using holders_put [of w1 fresh p ?n] fresh(2)
        by (auto simp: new_stream_def w1_def holders_def)
      have nf: "fresh \<notin> holders sender w" using fresh(2) by (simp add: holders_def)
      show ?thesis
        unfolding refs_ok_def h
        using refs s nf unat_retain [OF s(3)]
        by (auto simp: refs_ok_def put_stream_def w1_def split: option.splits)
    qed
    ultimately show ?thesis
      using e fresh False True s by (auto simp: put_stream_def w1_def create_ok_def)
  qed
qed

lemma destroy_sender:
  assumes "stream_inv s" and "destroy_locked s = Some (x, t)"
  shows "s_sender t = s_sender s"
proof -
  have "ring_inv (s\<lparr>s_closed := True\<rparr>)" using assms(1) by (simp add: stream_inv_def)
  from drop_ring [OF this] obtain s1 where s1: "drop_chunks_locked (s\<lparr>s_closed := True\<rparr>) = Some s1"
    "same_flags (s\<lparr>s_closed := True\<rparr>) s1" by blast
  from same_flags_fields [OF s1(2)] assms(2) s1(1) show ?thesis
    by (auto simp: destroy_locked_def detach_simps split: if_splits)
qed

lemma destroy_step:
  assumes ok: "world_ok w" and p: "w_streams w p = Some s" and refs: "refs_ok others w"
  shows "\<exists>w'. hcurl_stream_destroy p w = Some w' \<and> world_ok w' \<and> refs_ok others w'
    \<and> w_streams w' = (w_streams w)(p := None)
    \<and> mset (put_calls (w_log w')) = mset (put_calls (w_log w)) + mset (stream_waiting s)
    \<and> (w_senders w' (s_sender s) = None \<longleftrightarrow> others (s_sender s) = 0 \<and> holders (s_sender s) w = {p})"
proof -
  let ?q = "s_sender s"
  have np: "p \<noteq> NULL" "?q \<noteq> NULL" "channel_ok ?q w"
    using world_okD [OF ok p] by (auto simp: stream_linked_def)
  obtain m where m: "w_senders w ?q = Some m" "sender_idle m" "\<not> sender_closed m \<longrightarrow> async_handle m \<noteq> NULL"
    and qu: "quiescent (w_queue w)" using np(3) by (auto simp: channel_ok_def)
  obtain r wr t where d: "destroy_locked s = Some ((r, wr), t)"
    "mset (stream_waiting s) = mset (put_calls (wake_detached r @ wake_detached wr))"
    using destroy_law [OF world_okD(2) [OF ok p]] by blast
  have t: "s_sender t = ?q" using destroy_sender [OF world_okD(2) [OF ok p] d(1)] .
  have ph: "p \<in> holders ?q w" using p by (simp add: holders_def)
  have fin: "finite (holders q w)" for q using refs by (simp add: refs_ok_def)
  have "unat (references m) = card (holders ?q w) + others ?q"
    using refs m(1) by (metis (mono_tags, lifting) refs_ok_def option.simps(5))
  then have n: "unat (references m) = Suc (card (holders ?q w - {p}) + others ?q)"
    using card.remove [OF fin ph] by linarith
  have one: "references m = 1 \<longleftrightarrow> others ?q = 0 \<and> holders ?q w = {p}"
  proof -
    have "references m = 1 \<longleftrightarrow> unat (references m) = 1" by (metis unat_1 word_unat_eq_iff)
    also have "\<dots> \<longleftrightarrow> card (holders ?q w - {p}) = 0 \<and> others ?q = 0" using n by simp
    also have "card (holders ?q w - {p}) = 0 \<longleftrightarrow> holders ?q w - {p} = {}"
      by (rule card_0_eq) (simp add: fin)
    also have "\<dots> \<longleftrightarrow> holders ?q w = {p}" using ph by blast
    finally show ?thesis by blast
  qed
  have less: "unat (references m - 1) = card (holders ?q w - {p}) + others ?q"
  proof -
    have "references m \<noteq> 0" using n by auto
    from unat_minus_one [OF this] n show ?thesis by linarith
  qed
  define sd where "sd = (w_senders w)(?q := if references m = 1 then None
    else Some (m\<lparr>references := references m - 1\<rparr>))"
  define w' where "w' = log_calls (wake_detached r @ wake_detached wr)
    (w\<lparr>w_senders := sd, w_streams := (w_streams w)(p := None)\<rparr>)"
  have e: "hcurl_stream_destroy p w = Some w'"
    using np p d(1) m(1) t
    by (simp add: hcurl_stream_destroy_def sender_release_def message_sender_release_def log_calls_def
      put_stream_def w'_def sd_def)
  have h: "holders q w' = holders q w - {p}" for q
    by (auto simp: holders_def w'_def log_calls_def)
  have hq: "holders q w - {p} = holders q w" if "q \<noteq> ?q" for q
    using that p by (auto simp: holders_def)
  have sd': "w_senders w' = sd" by (simp add: w'_def log_calls_def)
  have "refs_ok others w'"
    unfolding refs_ok_def
  proof
    fix q
    show "finite (holders q w') \<and> (case w_senders w' q of None \<Rightarrow> holders q w' = {} \<and> others q = 0
      | Some s \<Rightarrow> unat (references s) = card (holders q w') + others q \<and> 0 < card (holders q w') + others q)"
    proof (cases "q = ?q")
      case True
      have "references m \<noteq> 1 \<Longrightarrow> 0 < card (holders ?q w - {p}) + others ?q"
        using n by (metis One_nat_def gr0I unat_1 word_unat_eq_iff)
      then show ?thesis unfolding h sd' using True fin one less by (auto simp: sd_def)
    next
      case False
      then show ?thesis unfolding h sd' hq [OF False] using refs by (simp add: refs_ok_def sd_def)
    qed
  qed
  moreover have "world_ok w'"
  proof -
    have "channel_ok (s_sender u) w'" if u: "w_streams w q = Some u" "q \<noteq> p" for q u
    proof (cases "s_sender u = ?q")
      case True
      then have "q \<in> holders ?q w" using u by (auto simp: holders_def)
      then have "references m \<noteq> 1" using one u(2) by auto
      then show ?thesis using True m qu by (simp add: channel_ok_def w'_def sd_def log_calls_def)
    next
      case False
      then show ?thesis using world_okD(3) [OF ok u(1)]
        by (simp add: stream_linked_def channel_ok_def w'_def sd_def log_calls_def)
    qed
    then show ?thesis using ok
      by (auto simp: world_ok_def stream_linked_def w'_def log_calls_def split: if_splits)
  qed
  moreover have "w_streams w' = (w_streams w)(p := None)"
    "mset (put_calls (w_log w')) = mset (put_calls (w_log w)) + mset (stream_waiting s)"
    "w_senders w' ?q = None \<longleftrightarrow> references m = 1"
    using d(2) by (simp_all add: w'_def log_calls_def sd_def)
  ultimately show ?thesis using e one by (intro exI [of _ w']) simp
qed

section \<open>The three waiters of a transfer\<close>

text \<open>The slots at which a Haskell thread can wait: for data, for room, for the response headers.\<close>

datatype waiter_slot = AtRead | AtWrite | AtHeaders

definition wait_at :: "addr \<Rightarrow> waiter_slot \<Rightarrow> HsStablePtr \<Rightarrow> int \<Rightarrow> world \<Rightarrow> bool \<times> world" where
  "wait_at p k mv c w =
     (case w_streams w p of
        None \<Rightarrow> (False, w)
      | Some s \<Rightarrow>
          (case k of
             AtRead \<Rightarrow> (case hcurl_stream_wait_read mv c (Some s) of (r, sp) \<Rightarrow>
               (r = HCURL_STREAM_WAIT_REGISTERED, put_stream p (the sp) w))
           | AtWrite \<Rightarrow> (case hcurl_stream_wait_write mv c (Some s) of (r, sp) \<Rightarrow>
               (r = HCURL_STREAM_WAIT_REGISTERED, put_stream p (the sp) w))
           | AtHeaders \<Rightarrow>
               if s_headers s = NULL then (False, w)
               else (case header_data_wait mv c (w_headers w (s_headers s)) of (r, hp) \<Rightarrow>
                 (r = HEADER_WAIT_REGISTERED, w\<lparr>w_headers := (w_headers w)(s_headers s := hp)\<rparr>))))"

definition cancel_at :: "addr \<Rightarrow> waiter_slot \<Rightarrow> HsStablePtr \<Rightarrow> world \<Rightarrow> bool \<times> world" where
  "cancel_at p k mv w =
     (case w_streams w p of
        None \<Rightarrow> (False, w)
      | Some s \<Rightarrow>
          (case k of
             AtRead \<Rightarrow> (case hcurl_stream_cancel_wait_read mv (Some s) of (b, sp) \<Rightarrow>
               (b, put_stream p (the sp) w))
           | AtWrite \<Rightarrow> (case hcurl_stream_cancel_wait_write mv (Some s) of (b, sp) \<Rightarrow>
               (b, put_stream p (the sp) w))
           | AtHeaders \<Rightarrow>
               if s_headers s = NULL then (False, w)
               else (case header_data_cancel_wait mv (w_headers w (s_headers s)) of (b, hp) \<Rightarrow>
                 (b, w\<lparr>w_headers := (w_headers w)(s_headers s := hp)\<rparr>))))"

text \<open>A call, with the calls it made outside.\<close>

definition call_events :: "addr \<Rightarrow> stream_call \<Rightarrow> world \<Rightarrow> event list \<times> world" where
  "call_events p c w =
     (if valid_call c
      then case call_on c p w of
             None \<Rightarrow> ([], w)
           | Some (acc, del, w') \<Rightarrow> (drop (length (w_log w)) (w_log w'), w')
      else ([], w))"

definition waiters_ok :: "addr \<Rightarrow> world \<Rightarrow> bool" where
  "waiters_ok p w \<longleftrightarrow> world_ok w \<and> w_streams w p \<noteq> None"

lemma waiters_okE:
  assumes "waiters_ok p w"
  obtains s where "world_ok w" "w_streams w p = Some s"
  using assms by (auto simp: waiters_ok_def)

lemma put_waiting:
  assumes "world_ok w" "w_streams w p = Some s" "stream_inv t" "evolves s t"
  shows "waiters_ok p (put_stream p t w)"
    "api_waiting p (put_stream p t w) = stream_waiting t @ waiting_on (headers_of s w)"
  using put_ok [OF assms] by (simp_all add: waiters_ok_def api_waiting_def) (simp_all add: put_stream_def)

lemma headers_waiting:
  assumes ok: "world_ok w" and p: "w_streams w p = Some s" and n: "s_headers s \<noteq> NULL"
    and h: "header_ok hp" "hp \<noteq> None"
  shows "waiters_ok p (w\<lparr>w_headers := (w_headers w)(s_headers s := hp)\<rparr>)"
    "api_waiting p (w\<lparr>w_headers := (w_headers w)(s_headers s := hp)\<rparr>) = stream_waiting s @ waiting_on hp"
proof -
  let ?w = "w\<lparr>w_headers := (w_headers w)(s_headers s := hp)\<rparr>"
  have "stream_linked ?w u" if "stream_linked w u" for u
    using that h(2) queue_quiescent [OF ok p] by (intro linked_frame [OF that evolves_refl]) auto
  then show "waiters_ok p ?w" using ok h(1) p by (auto simp: waiters_ok_def world_ok_def)
  show "api_waiting p ?w = stream_waiting s @ waiting_on hp"
    using p n by (simp add: api_waiting_def headers_of_def)
qed

lemma wait_evolves:
  "hcurl_stream_wait_read mv c (Some s) = (r, Some t) \<Longrightarrow> evolves s t"
  "hcurl_stream_wait_write mv c (Some s) = (r, Some t) \<Longrightarrow> evolves s t"
  "hcurl_stream_cancel_wait_read mv (Some s) = (b, Some t) \<Longrightarrow> evolves s t"
  "hcurl_stream_cancel_wait_write mv (Some s) = (b, Some t) \<Longrightarrow> evolves s t"
  by (auto simp: hcurl_stream_wait_read_def hcurl_stream_wait_write_def cancel_waiter_def
    hcurl_stream_cancel_wait_read_def hcurl_stream_cancel_wait_write_def evolves_def split: if_splits)

lemma wait_keeps:
  "header_data_wait m c hp = (r, hp') \<Longrightarrow> hp \<noteq> None \<Longrightarrow> hp' \<noteq> None"
  "header_data_cancel_wait m hp = (b, hp') \<Longrightarrow> hp \<noteq> None \<Longrightarrow> hp' \<noteq> None"
  by (auto simp: header_data_wait_def header_data_cancel_wait_def split: if_splits)

lemma wait_at_law:
  assumes "waiters_ok p w" and e: "wait_at p k m c w = (b, w')"
  shows "waiters_ok p w' \<and> mset (api_waiting p w') = (if b then {#(m, c)#} else {#}) + mset (api_waiting p w)"
proof -
  from assms(1) obtain s where ok: "world_ok w" and p: "w_streams w p = Some s" by (rule waiters_okE)
  have inv: "stream_inv s" using world_okD(2) [OF ok p] .
  have aw: "api_waiting p w = stream_waiting s @ waiting_on (headers_of s w)" using p by (simp add: api_waiting_def)
  show ?thesis
  proof (cases k)
    case AtRead
    obtain r sp where r: "hcurl_stream_wait_read m c (Some s) = (r, sp)" by (cases "hcurl_stream_wait_read m c (Some s)")
    from wait_read_law [OF inv r] obtain t where t: "sp = Some t" "stream_inv t" "mset (stream_waiting t)
        = (if r = HCURL_STREAM_WAIT_REGISTERED then {#(m, c)#} else {#}) + mset (stream_waiting s)" by blast
    have "evolves s t" using wait_evolves(1) r t(1) by blast
    from put_waiting [OF ok p t(2) this] e AtRead p r t show ?thesis by (auto simp: wait_at_def aw)
  next
    case AtWrite
    obtain r sp where r: "hcurl_stream_wait_write m c (Some s) = (r, sp)" by (cases "hcurl_stream_wait_write m c (Some s)")
    from wait_write_law [OF inv r] obtain t where t: "sp = Some t" "stream_inv t" "mset (stream_waiting t)
        = (if r = HCURL_STREAM_WAIT_REGISTERED then {#(m, c)#} else {#}) + mset (stream_waiting s)" by blast
    have "evolves s t" using wait_evolves(2) r t(1) by blast
    from put_waiting [OF ok p t(2) this] e AtWrite p r t show ?thesis by (auto simp: wait_at_def aw)
  next
    case AtHeaders
    show ?thesis
    proof (cases "s_headers s = NULL")
      case True
      with e AtHeaders p assms(1) show ?thesis by (auto simp: wait_at_def)
    next
      case False
      let ?h = "w_headers w (s_headers s)"
      obtain r hp where r: "header_data_wait m c ?h = (r, hp)" by (cases "header_data_wait m c ?h")
      have h: "header_ok ?h" "?h \<noteq> None"
        using ok False world_okD(3) [OF ok p] by (auto simp: world_ok_def stream_linked_def)
      note l = wait_law [OF h(1) r]
      have "hp \<noteq> None" using wait_keeps(1) [OF r] h(2) by blast
      from headers_waiting [OF ok p False _ this] l e AtHeaders False p r show ?thesis
        by (auto simp: wait_at_def aw headers_of_def)
    qed
  qed
qed

lemma cancel_at_law:
  assumes "waiters_ok p w" and e: "cancel_at p k m w = (b, w')"
  shows "waiters_ok p w' \<and> (\<exists>c. mset (api_waiting p w) = (if b then {#(m, c)#} else {#}) + mset (api_waiting p w'))"
proof -
  from assms(1) obtain s where ok: "world_ok w" and p: "w_streams w p = Some s" by (rule waiters_okE)
  have inv: "stream_inv s" using world_okD(2) [OF ok p] .
  have aw: "api_waiting p w = stream_waiting s @ waiting_on (headers_of s w)" using p by (simp add: api_waiting_def)
  show ?thesis
  proof (cases k)
    case AtRead
    obtain b' sp where r: "hcurl_stream_cancel_wait_read m (Some s) = (b', sp)"
      by (cases "hcurl_stream_cancel_wait_read m (Some s)")
    from cancel_read_law [OF inv r] obtain t c where t: "sp = Some t" "stream_inv t"
      "mset (stream_waiting s) = (if b' then {#(m, c)#} else {#}) + mset (stream_waiting t)" by blast
    have "evolves s t" using wait_evolves(3) r t(1) by blast
    from put_waiting [OF ok p t(2) this] e AtRead p r t show ?thesis by (auto simp: cancel_at_def aw)
  next
    case AtWrite
    obtain b' sp where r: "hcurl_stream_cancel_wait_write m (Some s) = (b', sp)"
      by (cases "hcurl_stream_cancel_wait_write m (Some s)")
    from cancel_write_law [OF inv r] obtain t c where t: "sp = Some t" "stream_inv t"
      "mset (stream_waiting s) = (if b' then {#(m, c)#} else {#}) + mset (stream_waiting t)" by blast
    have "evolves s t" using wait_evolves(4) r t(1) by blast
    from put_waiting [OF ok p t(2) this] e AtWrite p r t show ?thesis by (auto simp: cancel_at_def aw)
  next
    case AtHeaders
    show ?thesis
    proof (cases "s_headers s = NULL")
      case True
      with e AtHeaders p assms(1) show ?thesis by (auto simp: cancel_at_def)
    next
      case False
      let ?h = "w_headers w (s_headers s)"
      obtain b' hp where r: "header_data_cancel_wait m ?h = (b', hp)" by (cases "header_data_cancel_wait m ?h")
      have h: "header_ok ?h" "?h \<noteq> None"
        using ok False world_okD(3) [OF ok p] by (auto simp: world_ok_def stream_linked_def)
      note l = cancel_law [OF h(1) r]
      have "hp \<noteq> None" using wait_keeps(2) [OF r] h(2) by blast
      from headers_waiting [OF ok p False _ this] l e AtHeaders False p r show ?thesis
        by (auto simp: cancel_at_def aw headers_of_def split: if_splits)
    qed
  qed
qed

lemma call_events_law:
  assumes "waiters_ok p w" and e: "call_events p c w = (evs, w')"
  shows "waiters_ok p w' \<and> mset (api_waiting p w) = mset (put_calls evs) + mset (api_waiting p w')"
proof (cases "valid_call c")
  case True
  from assms(1) obtain s where ok: "world_ok w" and p: "w_streams w p = Some s" by (rule waiters_okE)
  from call_law [OF ok p True] obtain acc del w1 t where
    c: "call_on c p w = Some (acc, del, w1)" "steps_to p w s w1 t" by blast
  note st = steps_toD [OF c(2)]
  have w1: "w' = w1" "evs = drop (length (w_log w)) (w_log w1)"
    using e True c(1) by (auto simp: call_events_def)
  have "w_log w1 = w_log w @ evs" using st(6) w1(2) by (metis append_take_drop_id)
  with st(1,2,5) w1(1) show ?thesis by (simp add: waiters_ok_def account_def)
next
  case False
  with assms show ?thesis by (simp add: call_events_def)
qed

interpretation sw: one_shot_waiter "api_waiting p" "wait_at p" "cancel_at p" "call_events p" "waiters_ok p" for p
proof unfold_locales
qed (fact wait_at_law cancel_at_law call_events_law)+

end
