(* ===== verification/Stream_Props.thy ===== *)
theory Stream_Props
  imports Stream_Run "HOL-Library.Sublist"
begin

text \<open>
  The properties of the streams of \<open>cbits/stream.c\<close>, each for any history of calls on one stream of a
  consistent world, with a small world on which they are tried.
\<close>

section \<open>A small world\<close>

text \<open>One sender at address 1, a queue of four slots, and a stream at address 2.\<close>

definition sample_world :: world where
  "sample_world = \<lparr>w_streams = Map.empty, w_headers = Map.empty, w_metrics = Map.empty,
     w_results = Map.empty, w_senders = [1 \<mapsto> \<lparr>references = 1, sender_state = 0, async_handle = 5\<rparr>],
     w_queue = the (mpscq_create True True None 4), w_log = []\<rparr>"

definition sample_stream :: "hcurl_stream_kind \<Rightarrow> world" where
  "sample_stream k = snd (the (hcurl_stream_create 2 True True True k 2 1 7 sample_world))"

lemma sample_world_ok:
  "world_ok sample_world" "channel_ok 1 sample_world" "refs_ok (\<lambda>p. if p = 1 then 1 else 0) sample_world"
proof -
  have m: "mpscq_create True True None 4 = Some (the (mpscq_create True True (None :: outer_message mpscq option) 4))"
    by (simp add: mpscq_create_def is_pow2_test_def slot_size_def SIZE_MAX_def)
  have "word_of False 0 0" by (simp add: word_of_def)
  then show "channel_ok 1 sample_world"
    using create_quiescent [OF m] by (auto simp: channel_ok_def sample_world_def sender_idle_def)
  show "world_ok sample_world" by (simp add: world_ok_def sample_world_def header_ok_def)
  show "refs_ok (\<lambda>p. if p = 1 then 1 else 0) sample_world"
    by (simp add: refs_ok_def sample_world_def holders_def)
qed

lemma sample_create:
  "hcurl_stream_create 2 True True True k 2 1 7 sample_world = Some (2, sample_stream k)"
  "world_ok (sample_stream k)" "w_streams (sample_stream k) 2 = Some (new_stream k 2 1 7)"
  "refs_ok (\<lambda>p. if p = 1 then 1 else 0) (sample_stream k)"
proof -
  have f: "(2 :: addr) \<noteq> NULL" "w_streams sample_world 2 = None" by (simp_all add: sample_world_def)
  have c: "create_ok 1 sample_world" by (simp add: create_ok_def sample_world_def SIZE_MAX_def)
  from create_law [OF sample_world_ok(1) _ f sample_world_ok(3), of 1 True True True k 2 7] c sample_world_ok(2)
  obtain w' where w': "hcurl_stream_create 2 True True True k 2 1 7 sample_world = Some (2, w')"
    "world_ok w'" "refs_ok (\<lambda>p. if p = 1 then 1 else 0) w'"
    "w_streams w' = (w_streams sample_world)(2 \<mapsto> new_stream k 2 1 7)"
    by (auto simp: chunk_size_def SIZE_MAX_def split: if_splits)
  then have "sample_stream k = w'" by (simp add: sample_stream_def)
  with w' show "hcurl_stream_create 2 True True True k 2 1 7 sample_world = Some (2, sample_stream k)"
    "world_ok (sample_stream k)" "w_streams (sample_stream k) 2 = Some (new_stream k 2 1 7)"
    "refs_ok (\<lambda>p. if p = 1 then 1 else 0) (sample_stream k)" by simp_all
qed

lemma sample_empty: "unread (new_stream k 2 1 7) = []" "stream_waiting (new_stream k 2 1 7) = []"
  using new_stream_inv [of 2 k 1 7] by (simp_all add: SIZE_MAX_def)

section \<open>Control messages with room in the queue\<close>

lemma control_not_retry:
  assumes ok: "world_ok w" and p: "w_streams w p = Some s"
    and room: "length (messages (w_queue w)) < q_max (w_queue w)"
    and e: "enqueue_control True s tag w = Some (r, w')"
  shows "r \<noteq> HCURL_STREAM_CONTROL_RETRY"
proof -
  have sd: "s_sender s \<noteq> NULL" "channel_ok (s_sender s) w"
    using world_okD(3) [OF ok p] by (auto simp: stream_linked_def)
  have "quiescent (w_queue w)" using sd(2) by (simp add: channel_ok_def)
  then have put: "q_put (build_message tag (control_payload (s_transfer_id s))) (w_queue w) \<noteq> None"
    using mq.put_full room by (metis less_not_refl)
  show ?thesis
    using e put by (cases rule: enqueue_law [OF sd, of True tag "control_payload (s_transfer_id s)"])
      (auto simp: enqueue_control_def)
qed

lemma flush_with_room:
  assumes ok: "world_ok w" and p: "w_streams w p = Some s"
    and room: "length (messages (w_queue w)) < q_max (w_queue w)"
    and e: "hcurl_stream_flush_resume True p w = Some (r, w')"
  shows "r = HCURL_STREAM_CONTROL_OK"
proof -
  obtain b s1 where b: "resume_begin_locked s = (b, s1)" by (cases "resume_begin_locked s")
  have "evolves s s1" using b by (auto simp: resume_begin_locked_def evolves_def Let_def split: if_splits)
  moreover have "stream_inv s1" using resume_law [OF world_okD(2) [OF ok p] b] by blast
  ultimately have ok1: "world_ok (put_stream p s1 w)" using put_ok(1) [OF ok p] by blast
  have p1: "w_streams (put_stream p s1 w) p = Some s1" by (simp add: put_stream_def)
  have "x \<noteq> HCURL_STREAM_CONTROL_RETRY" if "enqueue_control True s1 RESUME_REQUEST (put_stream p s1 w) = Some (x, v)" for x v
    using control_not_retry [OF ok1 p1 _ that] room by (simp add: put_stream_def)
  then show ?thesis using e b p world_okD(1) [OF ok p]
    by (auto simp: hcurl_stream_flush_resume_def Let_def split: if_splits Option.bind_splits
      hcurl_stream_control_result.splits)
qed

section \<open>Properties\<close>


definition sample_calls :: "stream_call list" where
  "sample_calls = [Deliver True ''ab'', TryRead True, Deliver True ''cd'', Deliver False ''ef'']"





definition full_calls :: "stream_call list" where
  "full_calls = [Deliver True ''ab'', Deliver True ''cd'']"

text \<open>The small world after both slots of the download were filled.\<close>

lemma full_sample:
  obtains acc del w s where "stream_calls full_calls 2 (sample_stream HCURL_STREAM_DOWNLOAD) = Some (acc, del, w)"
    "world_ok w" "w_streams w 2 = Some s" "paused s" "\<not> s_closed s" "\<not> terminal_set s" "\<not> cancel_sent s"
    "s_transfer_id s = 7" "messages (w_queue w) = []" "q_max (w_queue w) = 4"
proof -
  have v: "list_all valid_call full_calls" by (simp add: full_calls_def CURL_WRITEFUNC_PAUSE_def)
  from calls_law [OF sample_create(2,3) v, of HCURL_STREAM_DOWNLOAD] obtain acc del w t where
    c: "stream_calls full_calls 2 (sample_stream HCURL_STREAM_DOWNLOAD) = Some (acc, del, w)"
    "steps_to 2 (sample_stream HCURL_STREAM_DOWNLOAD) (new_stream HCURL_STREAM_DOWNLOAD 2 1 7) w t" by blast
  have "map_option (\<lambda>(a, d, w). (map_option (\<lambda>s. (paused s, s_closed s, terminal_set s, cancel_sent s,
        s_transfer_id s)) (w_streams w 2), q_count (w_queue w), q_max (w_queue w)))
      (stream_calls full_calls 2 (sample_stream HCURL_STREAM_DOWNLOAD))
    = Some (Some (True, False, False, False, 7), 0, 4)" by code_simp
  then show ?thesis using that [OF c(1) steps_toD(1,2) [OF c(2)]] c(1) steps_toD(2) [OF c(2)]
    by (simp add: messages_def)
qed




text \<open>
  C9. Waiters of a transfer: a pointer registered for data, for room or for the headers is fired by
  exactly one wake-up, or handed back by exactly one successful cancellation, or still waits, over
  any history of registrations, cancellations and calls. Completing the transfer wakes all that
  wait, exactly once.
\<close>

theorem stream_waiter_consumed_once:
  assumes "world_ok w" and "w_streams w p = Some s" and "api_waiting p w = []"
    and run: "waiter_run (wait_at p) (cancel_at p) (call_events p) ops w no_log = (l, w1)"
  shows "mset (registered l) = mset (returned l) + mset (fired l) + mset (map fst (api_waiting p w1))
    \<and> (\<exists>w2. hcurl_stream_complete p code w1 = Some w2 \<and> api_waiting p w2 = []
        \<and> mset (registered l) = mset (returned l) + mset (fired l)
            + mset (map fst (put_calls (drop (length (w_log w1)) (w_log w2)))))"
proof -
  have "waiters_ok p w" using assms(1,2) by (simp add: waiters_ok_def)
  moreover have "balanced no_log (api_waiting p w)" by (simp add: assms(3) balanced_def no_log_def)
  ultimately have fin: "waiters_ok p w1" "balanced l (api_waiting p w1)"
    using sw.waiter_conserved [OF _ _ run] by blast+
  from fin(1) obtain t where t: "world_ok w1" "w_streams w1 p = Some t" by (rule waiters_okE)
  from complete_step [OF t, of code] obtain w2 u where
    c: "hcurl_stream_complete p code w1 = Some w2" "steps_to p w1 t w2 u" "api_waiting p w2 = []" by blast
  have "w_log w2 = w_log w1 @ drop (length (w_log w1)) (w_log w2)"
    using steps_toD(6) [OF c(2)] by (metis append_take_drop_id)
  then have "put_calls (w_log w2) = put_calls (w_log w1) @ put_calls (drop (length (w_log w1)) (w_log w2))"
    by (metis put_calls_append)
  with steps_toD(5) [OF c(2)] c(3)
  have "mset (put_calls (drop (length (w_log w1)) (w_log w2))) = mset (api_waiting p w1)"
    by (simp add: account_def)
  then have "mset (map fst (put_calls (drop (length (w_log w1)) (w_log w2)))) = mset (map fst (api_waiting p w1))"
    by (metis mset_map)
  with fin(2) c(1,3) show ?thesis by (simp add: balanced_def)
qed

theorem stream_waiter_consumed_once_witness:
  "\<exists>l w1. waiter_run (wait_at 2) (cancel_at 2) (call_events 2)
      [Register AtRead 31 0, Cancel AtRead 31, Register AtRead 32 1, Act (Deliver True ''ab'')]
      (sample_stream HCURL_STREAM_DOWNLOAD) no_log = (l, w1)
    \<and> registered l = [32, 31] \<and> returned l = [31] \<and> fired l = [32]
    \<and> mset (registered l) = mset (returned l) + mset (fired l) + mset (map fst (api_waiting 2 w1))"
proof -
  let ?ops = "[Register AtRead 31 0, Cancel AtRead 31, Register AtRead 32 1, Act (Deliver True ''ab'')]"
  let ?w = "sample_stream HCURL_STREAM_DOWNLOAD"
  obtain l w1 where r: "waiter_run (wait_at 2) (cancel_at 2) (call_events 2) ?ops ?w no_log = (l, w1)"
    by (cases "waiter_run (wait_at 2) (cancel_at 2) (call_events 2) ?ops ?w no_log")
  have "fst (waiter_run (wait_at 2) (cancel_at 2) (call_events 2) ?ops ?w no_log)
    = \<lparr>registered = [32, 31], returned = [31], fired = [32]\<rparr>" by code_simp
  with r have l: "l = \<lparr>registered = [32, 31], returned = [31], fired = [32]\<rparr>" by simp
  have n: "api_waiting 2 ?w = []"
    using sample_create(3) [of HCURL_STREAM_DOWNLOAD] sample_empty(2)
    by (simp add: api_waiting_def headers_of_def waiting_on_def) (simp add: new_stream_def)
  from stream_waiter_consumed_once [OF sample_create(2,3) n r] r l show ?thesis by auto
qed

text \<open>
  C23. A stream never uses a freed sender: with one reference per stream, destroying a stream wakes
  both waiters and gives back its reference, and the sender is freed exactly if this was the last
  one; every stream that is left still has its sender allocated.
\<close>

theorem stream_sender_lifetime:
  assumes "world_ok w" and "w_streams w p = Some s" and "refs_ok others w"
  shows "\<exists>w'. hcurl_stream_destroy p w = Some w' \<and> world_ok w' \<and> refs_ok others w'
    \<and> w_streams w' = (w_streams w)(p := None)
    \<and> mset (put_calls (w_log w')) = mset (put_calls (w_log w)) + mset (stream_waiting s)
    \<and> (w_senders w' (s_sender s) = None \<longleftrightarrow> others (s_sender s) = 0 \<and> holders (s_sender s) w = {p})
    \<and> (\<forall>q u. w_streams w' q = Some u \<longrightarrow> w_senders w' (s_sender u) \<noteq> None)"
proof -
  from destroy_step [OF assms] obtain w' where d: "hcurl_stream_destroy p w = Some w'" "world_ok w'"
    "refs_ok others w'" "w_streams w' = (w_streams w)(p := None)"
    "mset (put_calls (w_log w')) = mset (put_calls (w_log w)) + mset (stream_waiting s)"
    "w_senders w' (s_sender s) = None \<longleftrightarrow> others (s_sender s) = 0 \<and> holders (s_sender s) w = {p}"
    by (elim exE conjE) (rule that; assumption)
  have "w_senders w' (s_sender u) \<noteq> None" if "w_streams w' q = Some u" for q u
    using world_okD(3) [OF d(2) that] by (auto simp: stream_linked_def channel_ok_def)
  with d show ?thesis by (intro exI [of _ w'] conjI) simp_all
qed

theorem stream_sender_lifetime_witness:
  "\<exists>w'. hcurl_stream_destroy 2 (sample_stream HCURL_STREAM_DOWNLOAD) = Some w'
     \<and> w_streams w' 2 = None \<and> w_senders w' 1 \<noteq> None"
proof -
  let ?w = "sample_stream HCURL_STREAM_DOWNLOAD"
  let ?s = "new_stream HCURL_STREAM_DOWNLOAD 2 1 7"
  obtain w' where w': "hcurl_stream_destroy 2 ?w = Some w'" "w_streams w' = (w_streams ?w)(2 := None)"
    "w_senders w' (s_sender ?s) = None \<longleftrightarrow>
       (if s_sender ?s = 1 then 1 else 0 :: nat) = 0 \<and> holders (s_sender ?s) ?w = {2}"
    using stream_sender_lifetime [OF sample_create(2,3,4), of HCURL_STREAM_DOWNLOAD]
    by (elim exE conjE) (rule that; assumption)
  have "s_sender ?s = 1" by (simp add: new_stream_def)
  with w' show ?thesis by simp
qed

text \<open>
  C26. Creating a stream is all or nothing: it fails, leaving the world as it was, exactly if an
  argument is out of range, the sender cannot be retained or an allocation fails; otherwise the new
  stream is empty, open and holds a reference to its sender.
\<close>

theorem stream_create_all_or_nothing:
  assumes "world_ok w" and "sender \<noteq> NULL \<longrightarrow> channel_ok sender w" and "fresh \<noteq> NULL"
    and "w_streams w fresh = None" and "refs_ok others w"
  shows "\<exists>q w'. hcurl_stream_create fresh a b c k cap sender tid w = Some (q, w')
    \<and> world_ok w' \<and> refs_ok others w'
    \<and> (if q = NULL then w' = w
       else w_streams w' = (w_streams w)(fresh \<mapsto> new_stream k cap sender tid) \<and> q = fresh
         \<and> unread (new_stream k cap sender tid) = [])
    \<and> (q \<noteq> NULL \<longleftrightarrow> 0 < cap \<and> cap \<le> SIZE_MAX div chunk_size \<and> sender \<noteq> NULL \<and> tid \<noteq> 0
        \<and> create_ok sender w \<and> a \<and> b \<and> c)"
proof -
  from create_law [OF assms, of a b c k cap tid]
  obtain q w' where c: "hcurl_stream_create fresh a b c k cap sender tid w = Some (q, w')"
    "world_ok w'" "refs_ok others w'"
    "if q = NULL then w' = w else q = fresh \<and> sender \<noteq> NULL \<and> tid \<noteq> 0 \<and> 0 < cap
        \<and> w_streams w' = (w_streams w)(fresh \<mapsto> new_stream k cap sender tid)"
    "q \<noteq> NULL \<longleftrightarrow> 0 < cap \<and> cap \<le> SIZE_MAX div chunk_size \<and> sender \<noteq> NULL \<and> tid \<noteq> 0
        \<and> create_ok sender w \<and> a \<and> b \<and> c" by (elim exE conjE) (rule that; assumption)
  have u: "unread (new_stream k cap sender tid) = []"
    by (rule unread_empty) (simp add: new_stream_def)
  show ?thesis
  proof (intro exI [of _ q] exI [of _ w'] conjI)
    show "if q = NULL then w' = w
       else w_streams w' = (w_streams w)(fresh \<mapsto> new_stream k cap sender tid) \<and> q = fresh
         \<and> unread (new_stream k cap sender tid) = []"
      using c(4) u by (auto split: if_splits)
  qed (fact c)+
qed

theorem stream_create_all_or_nothing_witness:
  "\<exists>q w'. hcurl_stream_create 2 True True True HCURL_STREAM_UPLOAD 2 1 7 sample_world = Some (q, w')
     \<and> q \<noteq> NULL \<and> w_streams w' = (w_streams sample_world)(2 \<mapsto> new_stream HCURL_STREAM_UPLOAD 2 1 7)"
proof -
  have c: "create_ok 1 sample_world" by (simp add: create_ok_def sample_world_def SIZE_MAX_def)
  have ch: "(1 :: addr) \<noteq> NULL \<longrightarrow> channel_ok 1 sample_world" using sample_world_ok(2) by simp
  have f: "(2 :: addr) \<noteq> NULL" "w_streams sample_world 2 = None" by (simp_all add: sample_world_def)
  from stream_create_all_or_nothing [OF sample_world_ok(1) ch f sample_world_ok(3),
    of True True True HCURL_STREAM_UPLOAD 2 7] c show ?thesis
    by (auto simp: chunk_size_def SIZE_MAX_def split: if_splits)
qed

text \<open>
  C24. The first completion decides: once a transfer completed with a code, no later completion,
  close, read or write changes the terminal code, and the waiters that were woken by it are the last
  ones: none is left.
\<close>

theorem stream_first_completion_wins:
  assumes "world_ok w" and "w_streams w p = Some s" and "\<not> terminal_set s" and "list_all valid_call calls"
  shows "\<exists>w1 acc del w2 t. hcurl_stream_complete p code w = Some w1 \<and> api_waiting p w1 = []
    \<and> stream_calls calls p w1 = Some (acc, del, w2) \<and> w_streams w2 p = Some t
    \<and> terminal_set t \<and> s_terminal_code t = code"
proof -
  obtain w1 s1 where
    c: "hcurl_stream_complete p code w = Some w1" "steps_to p w s w1 s1" "api_waiting p w1 = []"
      "terminal_set s1" "s_terminal_code s1 = (if terminal_set s then s_terminal_code s else code)"
    using complete_step [OF assms(1,2), of code] by blast
  from calls_law [OF steps_toD(1,2) [OF c(2)] assms(4)] obtain acc del w2 t where
    r: "stream_calls calls p w1 = Some (acc, del, w2)" "steps_to p w1 s1 w2 t" by blast
  have "terminal_set t \<and> s_terminal_code t = code"
    using steps_toD(3) [OF r(2)] c(4,5) assms(3) by (simp add: evolves_def)
  with c r(1) steps_toD(2) [OF r(2)] show ?thesis by blast
qed

theorem stream_first_completion_wins_witness:
  "\<exists>w1 acc del w2 t. hcurl_stream_complete 2 56 (sample_stream HCURL_STREAM_DOWNLOAD) = Some w1
     \<and> stream_calls [CompleteStream 0, CloseStream True] 2 w1 = Some (acc, del, w2)
     \<and> w_streams w2 2 = Some t \<and> s_terminal_code t = 56"
proof -
  have n: "\<not> terminal_set (new_stream HCURL_STREAM_DOWNLOAD 2 1 7)" by (simp add: new_stream_def)
  have v: "list_all valid_call [CompleteStream 0, CloseStream True]" by simp
  from stream_first_completion_wins [OF sample_create(2,3) n v, of 56] show ?thesis by blast
qed

text \<open>
  C25. A stream stays well formed: over any history of calls its ring indices stay in range, an
  occupied slot owns data and a free slot owns none, no more chunks are queued than its capacity,
  which never changes, a reader waits only while there is nothing to read and the stream is neither
  closed nor terminal, and a writer only while the ring is full.
\<close>

theorem stream_stays_wellformed:
  assumes "world_ok w" and "w_streams w p = Some s" and "list_all valid_call calls"
  shows "\<exists>acc del w' t. stream_calls calls p w = Some (acc, del, w') \<and> w_streams w' p = Some t \<and> kind t = kind s
    \<and> s_head t < length (chunks t) \<and> s_tail t < length (chunks t)
    \<and> s_count t \<le> s_capacity t \<and> length (chunks t) = s_capacity t
    \<and> (\<forall>i < s_capacity t. i \<in> set (occupied t) \<longleftrightarrow> chunk_data (chunks t ! i) \<noteq> None)
    \<and> (read_waiter_present t \<longrightarrow> s_count t = 0 \<and> \<not> s_closed t \<and> \<not> terminal_set t)
    \<and> (write_waiter_present t \<longrightarrow> s_count t = s_capacity t \<and> \<not> s_closed t \<and> \<not> terminal_set t)"
proof -
  from calls_law [OF assms] obtain acc del w' t where
    r: "stream_calls calls p w = Some (acc, del, w')" "steps_to p w s w' t" by blast
  note st = steps_toD [OF r(2)]
  have inv: "stream_inv t" using world_okD(2) [OF st(1,2)] .
  have ring: "0 < s_capacity t" "length (chunks t) = s_capacity t" "s_head t < s_capacity t"
    "s_count t \<le> s_capacity t" "s_tail t = (s_head t + s_count t) mod s_capacity t"
    and slots: "\<forall>i < s_capacity t. if i \<in> set (occupied t) then chunk_ok (chunks t ! i)
          else chunk_data (chunks t ! i) = None"
    using inv by (auto simp: stream_inv_def ring_inv_def)
  have "\<forall>i < s_capacity t. i \<in> set (occupied t) \<longleftrightarrow> chunk_data (chunks t ! i) \<noteq> None"
    using slots by (auto simp: chunk_ok_def split: if_splits)
  moreover have "s_tail t < length (chunks t)" using ring by simp
  ultimately show ?thesis using r(1) st(2,4) ring inv
    by (intro exI [of _ acc] exI [of _ del] exI [of _ w'] exI [of _ t]) (simp add: stream_inv_def)
qed

theorem stream_stays_wellformed_witness:
  "\<exists>acc del w' t. stream_calls full_calls 2 (sample_stream HCURL_STREAM_DOWNLOAD) = Some (acc, del, w')
     \<and> w_streams w' 2 = Some t \<and> s_count t \<le> s_capacity t \<and> length (chunks t) = s_capacity t"
proof -
  have v: "list_all valid_call full_calls" by (simp add: full_calls_def CURL_WRITEFUNC_PAUSE_def)
  from stream_stays_wellformed [OF sample_create(2,3) v, of HCURL_STREAM_DOWNLOAD] show ?thesis by blast
qed

end
