(* ===== verification/Message_Chan.thy ===== *)
theory Message_Chan
  imports Stream_Run
begin

text \<open>
  The reactor side of \<open>cbits/message_chan.c\<close>: the transfers an agent owns, from the message that
  submits one to the release of its easy handle, and the loop that dispatches messages; with
  \<open>check_multi_info\<close> of \<open>cbits/curl_uv.c\<close>, by which libcurl reports finished transfers.

  libcurl is a parameter: \<open>curl_env\<close> holds its answers and the callbacks it makes during a call. What
  it keeps for the code, the private pointer of an easy handle, is a function of the calls made so
  far. \<open>None\<close> is undefined behaviour, or a call of libcurl that does not return.
\<close>

section \<open>Transfers\<close>

record transfer =
  t_id :: transfer_id
  t_easy :: CURL
  t_result :: addr
  t_metrics :: addr
  t_download :: addr
  t_upload :: addr
  t_active :: bool

text \<open>The context of an agent, with the heap of its transfers.\<close>

record agent =
  ag_world :: world
  ag_transfers :: "addr \<Rightarrow> transfer option"
  ag_registry :: transfer_registry
  ag_sender :: addr
  ag_multi :: addr

section \<open>libcurl\<close>

type_synonym CURLMcode = int

definition CURLM_CALL_MULTI_PERFORM :: CURLMcode where "CURLM_CALL_MULTI_PERFORM = -1"
definition CURLM_OK :: CURLMcode where "CURLM_OK = 0"
definition CURLM_BAD_SOCKET :: CURLMcode where "CURLM_BAD_SOCKET = 5"
definition CURLPAUSE_CONT :: int where "CURLPAUSE_CONT = 0"

text \<open>A callback libcurl makes: body data, a request for upload data, or a header line.\<close>

datatype curl_callback =
    WriteCb addr bool CURLcode "byte list"
  | ReadCb addr size_t
  | HeaderCb addr bool "byte list"

datatype curl_msg = MsgDone CURL CURLcode | MsgOther

record curl_env =
  en_version :: nat
  en_runtime :: nat
  en_answers :: "CURL \<Rightarrow> curl_answers"
  en_status :: "CURL \<Rightarrow> CURLcode \<times> int"
  en_set_private :: "CURL \<Rightarrow> CURLcode"
  en_get_private :: "event list \<Rightarrow> CURL \<Rightarrow> CURLcode \<times> addr"
  en_add_handle :: "CURL \<Rightarrow> CURLMcode"
  en_pause :: "CURL \<Rightarrow> curl_callback list \<times> CURLcode"
  en_socket_all :: "(curl_callback list \<times> CURLMcode) list"
  en_info :: "curl_msg list"
  en_transfer :: "(addr \<Rightarrow> transfer option) \<Rightarrow> addr"
  en_resize :: bool

fun run_callback :: "curl_callback \<Rightarrow> world \<Rightarrow> world option" where
  "run_callback (WriteCb p m pc d) w =
     map_option snd (hcurl_download_write_callback m pc d 1 (length d) p w)"
| "run_callback (ReadCb p cap) w = map_option (snd \<circ> snd) (hcurl_upload_read_callback 1 cap p w)"
| "run_callback (HeaderCb p m line) w =
     (if p = NULL then Some w
      else case w_headers w p of
        None \<Rightarrow> None
      | Some h \<Rightarrow> map_option (\<lambda>(n, evs, hp). log_calls evs (w\<lparr>w_headers := (w_headers w)(p := hp)\<rparr>))
          (header_callback m line 1 (length line) (Some h)))"

fun run_callbacks :: "curl_callback list \<Rightarrow> world \<Rightarrow> world option" where
  "run_callbacks [] w = Some w"
| "run_callbacks (c # cs) w = Option.bind (run_callback c w) (run_callbacks cs)"

text \<open>
  The private pointer set last. libcurl documents that \<open>CURLINFO_PRIVATE\<close> answers it.
\<close>

fun last_private :: "CURL \<Rightarrow> event list \<Rightarrow> addr \<Rightarrow> addr" where
  "last_private e [] p = p"
| "last_private e (CurlEasySetPrivate e' q # evs) p = last_private e evs (if e' = e then q else p)"
| "last_private e (_ # evs) p = last_private e evs p"

text \<open>
  The loop of \<open>drive_legacy_multi\<close> over the answers of \<open>curl_multi_socket_all\<close>; \<open>None\<close> if it never
  answers anything else than \<open>CURLM_CALL_MULTI_PERFORM\<close>.
\<close>

fun drive_legacy_multi :: "(curl_callback list \<times> CURLMcode) list \<Rightarrow> world \<Rightarrow> (CURLMcode \<times> world) option" where
  "drive_legacy_multi [] w = None"
| "drive_legacy_multi ((cbs, code) # answers) w = do {
     w1 \<leftarrow> run_callbacks cbs w;
     if code = CURLM_CALL_MULTI_PERFORM then drive_legacy_multi answers w1 else Some (code, w1)
   }"

section \<open>Objects through their pointers\<close>

definition normalize_completion :: "addr \<Rightarrow> CURLcode \<Rightarrow> world \<Rightarrow> CURLcode option" where
  "normalize_completion p code w =
     (if p = NULL then Some (hcurl_stream_normalize_completion None code)
      else map_option (\<lambda>s. hcurl_stream_normalize_completion (Some s) code) (w_streams w p))"

definition finish_metrics :: "curl_env \<Rightarrow> addr \<Rightarrow> CURL \<Rightarrow> world \<Rightarrow> world option" where
  "finish_metrics env p easy w =
     (if p = NULL then Some w
      else case w_metrics w p of
        None \<Rightarrow> None
      | Some m \<Rightarrow> map_option (\<lambda>mp. w\<lparr>w_metrics := (w_metrics w)(p := mp)\<rparr>)
          (curl_metrics_finish (en_version env) (en_runtime env) (en_answers env easy) easy (Some m)))"

definition set_result :: "curl_env \<Rightarrow> addr \<Rightarrow> CURL \<Rightarrow> CURLcode \<Rightarrow> world \<Rightarrow> world option" where
  "set_result env p easy code w =
     (if p = NULL then Some w
      else map_option (\<lambda>d. w\<lparr>w_results := (w_results w)(p \<mapsto>
          hs_easy_data_set_result (en_status env easy) d easy code)\<rparr>) (w_results w p))"

definition wake_result :: "addr \<Rightarrow> world \<Rightarrow> world option" where
  "wake_result p w =
     (if p = NULL then Some w
      else map_option (\<lambda>d. case hs_easy_data_wake d of (evs, d') \<Rightarrow>
          log_calls evs (w\<lparr>w_results := (w_results w)(p \<mapsto> d')\<rparr>)) (w_results w p))"

section \<open>The end of a transfer\<close>

definition finish_detached_transfer :: "curl_env \<Rightarrow> addr \<Rightarrow> CURLcode \<Rightarrow> agent \<Rightarrow> agent option" where
  "finish_detached_transfer env tp code ag =
     (if tp = NULL then Some ag
      else case ag_transfers ag tp of
        None \<Rightarrow> None
      | Some t \<Rightarrow> do {
          let w0 = (if t_active t then log_calls [CurlMultiRemoveHandle (t_easy t)] (ag_world ag)
                    else ag_world ag);
          code1 \<leftarrow> normalize_completion (t_download t) code w0;
          code2 \<leftarrow> normalize_completion (t_upload t) code1 w0;
          w1 \<leftarrow> finish_metrics env (t_metrics t) (t_easy t) w0;
          w2 \<leftarrow> set_result env (t_result t) (t_easy t) code2 w1;
          let w3 = log_calls [CurlEasySetPrivate (t_easy t) NULL] w2;
          w4 \<leftarrow> hcurl_stream_complete (t_download t) code2 w3;
          w5 \<leftarrow> hcurl_stream_complete (t_upload t) code2 w4;
          w6 \<leftarrow> wake_result (t_result t) (log_calls [CurlEasyCleanup (t_easy t)] w5);
          Some (ag\<lparr>ag_world := w6, ag_transfers := (ag_transfers ag)(tp := None)\<rparr>)
        })"

definition complete_transfer :: "curl_env \<Rightarrow> CURL \<Rightarrow> CURLcode \<Rightarrow> agent \<Rightarrow> agent option" where
  "complete_transfer env easy code ag =
     (if easy = NULL then Some ag
      else (case en_get_private env (w_log (ag_world ag)) easy of (info, private_data) \<Rightarrow>
        if info \<noteq> CURLE_OK \<or> private_data = NULL then Some ag
        else (case ag_transfers ag private_data of
          None \<Rightarrow> None
        | Some t \<Rightarrow>
            (case registry_remove (ag_registry ag) (t_id t) of (found, r) \<Rightarrow>
               if found \<noteq> private_data then Some (ag\<lparr>ag_registry := r\<rparr>)
               else finish_detached_transfer env private_data code (ag\<lparr>ag_registry := r\<rparr>)))))"

text \<open>\<open>check_multi_info\<close> over the answers of \<open>curl_multi_info_read\<close> up to the first null pointer.\<close>

fun multi_info_loop :: "curl_env \<Rightarrow> curl_msg list \<Rightarrow> agent \<Rightarrow> agent option" where
  "multi_info_loop env [] ag = Some ag"
| "multi_info_loop env (MsgDone easy code # ms) ag =
     Option.bind (complete_transfer env easy code ag) (multi_info_loop env ms)"
| "multi_info_loop env (MsgOther # ms) ag = multi_info_loop env ms ag"

definition check_multi_info :: "curl_env \<Rightarrow> agent \<Rightarrow> agent option" where
  "check_multi_info env ag = (if ag_multi ag = NULL then Some ag else multi_info_loop env (en_info env) ag)"

definition fail_unregistered_transfer ::
    "curl_env \<Rightarrow> CURL \<Rightarrow> addr \<Rightarrow> addr \<Rightarrow> addr \<Rightarrow> addr \<Rightarrow> CURLcode \<Rightarrow> world \<Rightarrow> world option" where
  "fail_unregistered_transfer env easy result metrics download upload code w = do {
     w1 \<leftarrow> finish_metrics env metrics easy w;
     w2 \<leftarrow> set_result env result easy code w1;
     w3 \<leftarrow> hcurl_stream_complete download code w2;
     w4 \<leftarrow> hcurl_stream_complete upload code w3;
     wake_result result (if easy \<noteq> NULL then log_calls [CurlEasyCleanup easy] w4 else w4)
   }"

section \<open>Messages\<close>

definition fail_payload :: "curl_env \<Rightarrow> execute_payload \<Rightarrow> CURLcode \<Rightarrow> agent \<Rightarrow> agent option" where
  "fail_payload env pl code ag =
     map_option (\<lambda>w. ag\<lparr>ag_world := w\<rparr>)
       (fail_unregistered_transfer env (p_easy pl) (p_result pl) (p_metrics pl) (p_download_stream pl)
         (p_upload_stream pl) code (ag_world ag))"

definition new_transfer :: "execute_payload \<Rightarrow> transfer" where
  "new_transfer pl = \<lparr>t_id = p_transfer_id pl, t_easy = p_easy pl, t_result = p_result pl,
     t_metrics = p_metrics pl, t_download = p_download_stream pl, t_upload = p_upload_stream pl,
     t_active = False\<rparr>"

text \<open>\<open>en_transfer\<close> is what \<open>calloc\<close> returns for the transfer, given those that are allocated.\<close>

definition execute_transfer :: "curl_env \<Rightarrow> execute_payload \<Rightarrow> agent \<Rightarrow> agent option" where
  "execute_transfer env pl ag =
     (if p_easy pl = NULL \<or> p_result pl = NULL \<or> p_transfer_id pl = 0 then
        (if p_easy pl \<noteq> NULL \<or> p_result pl \<noteq> NULL \<or> p_download_stream pl \<noteq> NULL \<or> p_upload_stream pl \<noteq> NULL
         then fail_payload env pl CURLE_FAILED_INIT ag else Some ag)
      else if en_transfer env (ag_transfers ag) = NULL then fail_payload env pl CURLE_OUT_OF_MEMORY ag
      else
        let tp = en_transfer env (ag_transfers ag); t = new_transfer pl
        in case registry_insert (en_resize env) (ag_registry ag) (t_id t) tp of
             (False, r) \<Rightarrow> fail_payload env pl CURLE_FAILED_INIT (ag\<lparr>ag_registry := r\<rparr>)
           | (True, r) \<Rightarrow>
               let ag1 = ag\<lparr>ag_registry := r\<rparr>
               in if en_set_private env (t_easy t) \<noteq> CURLE_OK
                  then fail_payload env pl CURLE_FAILED_INIT
                    (ag1\<lparr>ag_registry := snd (registry_remove r (t_id t))\<rparr>)
                  else
                    let ag2 = ag1\<lparr>ag_world := log_calls [CurlEasySetPrivate (t_easy t) tp] (ag_world ag),
                      ag_transfers := (ag_transfers ag)(tp \<mapsto> t)\<rparr>
                    in if en_add_handle env (t_easy t) \<noteq> CURLM_OK
                       then finish_detached_transfer env tp CURLE_FAILED_INIT
                         (ag2\<lparr>ag_registry := snd (registry_remove r (t_id t))\<rparr>)
                       else
                         let ag3 = ag2\<lparr>ag_world := log_calls [CurlMultiAddHandle (t_easy t)] (ag_world ag2),
                           ag_transfers := (ag_transfers ag2)(tp \<mapsto> t\<lparr>t_active := True\<rparr>)\<rparr>
                         in if en_version env < 0x071301
                            then do {
                              (code, w) \<leftarrow> drive_legacy_multi (en_socket_all env) (ag_world ag3);
                              let ag4 = ag3\<lparr>ag_world := w\<rparr>;
                              if code \<noteq> CURLM_OK
                              then (case registry_remove (ag_registry ag4) (t_id t) of (removed, r') \<Rightarrow>
                                finish_detached_transfer env removed CURLE_RECV_ERROR (ag4\<lparr>ag_registry := r'\<rparr>))
                              else check_multi_info env ag4
                            }
                            else Some ag3)"

definition cancel_transfer :: "curl_env \<Rightarrow> transfer_id \<Rightarrow> agent \<Rightarrow> agent option" where
  "cancel_transfer env tid ag =
     (case registry_remove (ag_registry ag) tid of (tp, r) \<Rightarrow>
        if tp \<noteq> NULL
        then finish_detached_transfer env tp CURLE_ABORTED_BY_CALLBACK (ag\<lparr>ag_registry := r\<rparr>)
        else Some (ag\<lparr>ag_registry := r\<rparr>))"

definition resume_transfer :: "curl_env \<Rightarrow> transfer_id \<Rightarrow> agent \<Rightarrow> agent option" where
  "resume_transfer env tid ag =
     (let tp = registry_find (ag_registry ag) tid
      in if tp = NULL then Some ag
         else case ag_transfers ag tp of
           None \<Rightarrow> None
         | Some t \<Rightarrow>
             if \<not> t_active t then Some ag
             else case en_pause env (t_easy t) of (cbs, code) \<Rightarrow> do {
               w1 \<leftarrow> run_callbacks cbs (log_calls [CurlEasyPause (t_easy t) CURLPAUSE_CONT] (ag_world ag));
               let ag1 = ag\<lparr>ag_world := w1\<rparr>;
               if code \<noteq> CURLE_OK
               then (case registry_remove (ag_registry ag1) tid of (removed, r) \<Rightarrow>
                 finish_detached_transfer env removed code (ag1\<lparr>ag_registry := r\<rparr>))
               else if en_version env < 0x072000
               then do {
                 (mcode, w2) \<leftarrow> drive_legacy_multi (en_socket_all env) w1;
                 let ag2 = ag1\<lparr>ag_world := w2\<rparr>;
                 if mcode \<noteq> CURLM_OK
                 then (case registry_remove (ag_registry ag2) tid of (removed, r) \<Rightarrow>
                   finish_detached_transfer env removed CURLE_RECV_ERROR (ag2\<lparr>ag_registry := r\<rparr>))
                 else check_multi_info env ag2
               }
               else check_multi_info env ag1
             })"

section \<open>Shutdown\<close>

text \<open>The loops of \<open>shutdown_message_context\<close> over the buckets and along a chain.\<close>

fun finish_chain :: "curl_env \<Rightarrow> CURLcode \<Rightarrow> node list \<Rightarrow> agent \<Rightarrow> agent option" where
  "finish_chain env code [] ag = Some ag"
| "finish_chain env code ((i, tp) # ns) ag =
     Option.bind (finish_detached_transfer env tp code ag) (finish_chain env code ns)"

definition clear_bucket :: "nat \<Rightarrow> transfer_registry \<Rightarrow> transfer_registry" where
  "clear_bucket i r = r\<lparr>buckets := map_option (\<lambda>bs. bs[i := []]) (buckets r)\<rparr>"

fun finish_buckets :: "curl_env \<Rightarrow> CURLcode \<Rightarrow> nat \<Rightarrow> node list list \<Rightarrow> agent \<Rightarrow> agent option" where
  "finish_buckets env code i [] ag = Some ag"
| "finish_buckets env code i (c # cs) ag =
     Option.bind (finish_chain env code c (ag\<lparr>ag_registry := clear_bucket i (ag_registry ag)\<rparr>))
       (finish_buckets env code (Suc i) cs)"

definition dequeue_message :: "agent \<Rightarrow> (outer_message option \<times> agent) option" where
  "dequeue_message ag =
     map_option (\<lambda>(m, q). (m, ag\<lparr>ag_world := (ag_world ag)\<lparr>w_queue := the q\<rparr>\<rparr>))
       (mpscq_dequeue (Some (w_queue (ag_world ag))))"

text \<open>Messages accepted before the shutdown are owned by the agent: submissions among them fail.\<close>

partial_function (option) drain_queue :: "curl_env \<Rightarrow> CURLcode \<Rightarrow> agent \<Rightarrow> agent option" where
  [code]: "drain_queue env code ag =
     Option.bind (dequeue_message ag) (\<lambda>(m, ag1).
       case m of
         None \<Rightarrow> Some ag1
       | Some msg \<Rightarrow>
           Option.bind (case msg of Execute pl \<Rightarrow> fail_payload env pl code ag1 | _ \<Rightarrow> Some ag1)
             (drain_queue env code))"

definition close_sender :: "addr \<Rightarrow> world \<Rightarrow> world option" where
  "close_sender p w =
     (if p = NULL then Some w
      else case w_senders w p of
        None \<Rightarrow> None
      | Some s \<Rightarrow> map_option (\<lambda>s'. w\<lparr>w_senders := (w_senders w)(p \<mapsto> s')\<rparr>) (message_sender_close s))"

definition shutdown_message_context :: "curl_env \<Rightarrow> CURLcode \<Rightarrow> agent \<Rightarrow> agent option" where
  "shutdown_message_context env code ag = do {
     w \<leftarrow> close_sender (ag_sender ag) (ag_world ag);
     let ag1 = ag\<lparr>ag_world := w\<rparr>;
     case buckets (ag_registry ag1) of
       None \<Rightarrow> Some ag1
     | Some bs \<Rightarrow> do {
         ag2 \<leftarrow> finish_buckets env code 0 bs ag1;
         ag3 \<leftarrow> drain_queue env code (ag2\<lparr>ag_registry := (ag_registry ag2)\<lparr>reg_count := 0\<rparr>\<rparr>);
         Some (ag3\<lparr>ag_registry := registry_destroy (ag_registry ag3)\<rparr>)
       }
   }"

section \<open>Dispatch\<close>

definition handle_message :: "curl_env \<Rightarrow> outer_message \<Rightarrow> agent \<Rightarrow> agent option" where
  "handle_message env msg ag =
     (case msg of
        Execute pl \<Rightarrow> execute_transfer env pl ag
      | CancelRequest tid \<Rightarrow> cancel_transfer env tid ag
      | ResumeRequest tid \<Rightarrow> resume_transfer env tid ag
      | StopAgent \<Rightarrow> map_option (\<lambda>ag. ag\<lparr>ag_world := log_calls [UvStop] (ag_world ag)\<rparr>)
          (shutdown_message_context env CURLE_ABORTED_BY_CALLBACK ag))"

text \<open>
  \<open>async_check_outer_messages\<close>: the loop over the queue; \<open>envs k\<close> answers for the \<open>k\<close>-th message.
\<close>

partial_function (option) dispatch_loop :: "(nat \<Rightarrow> curl_env) \<Rightarrow> nat \<Rightarrow> agent \<Rightarrow> agent option" where
  [code]: "dispatch_loop envs k ag =
     Option.bind (dequeue_message ag) (\<lambda>(m, ag1).
       case m of
         None \<Rightarrow> Some ag1
       | Some msg \<Rightarrow> Option.bind (handle_message (envs k) msg ag1) (dispatch_loop envs (Suc k)))"

definition async_check_outer_messages :: "(nat \<Rightarrow> curl_env) \<Rightarrow> agent option \<Rightarrow> agent option option" where
  "async_check_outer_messages envs context =
     (case context of None \<Rightarrow> Some None | Some ag \<Rightarrow> map_option Some (dispatch_loop envs 0 ag))"

section \<open>Life cycle of the context\<close>

text \<open>
  \<open>async\<close> and \<open>sender\<close> are the addresses \<open>malloc\<close> and \<open>calloc\<close> return, zero on failure; \<open>queue\<close> tells
  whether a queue is passed, the world's.
\<close>

definition init_async_check_messages ::
    "addr \<Rightarrow> bool \<Rightarrow> addr \<Rightarrow> bool \<Rightarrow> bool \<Rightarrow> bool \<Rightarrow> bool \<Rightarrow> addr \<Rightarrow> bool \<Rightarrow> addr \<Rightarrow> world
     \<Rightarrow> (agent option \<times> world) option" where
  "init_async_check_messages async context_ok sender mutex_ok cond_ok registry_ok uv_ok loop queue multi w =
     (if loop = NULL \<or> \<not> queue \<or> multi = NULL then Some (None, w)
      else
        let created = (if queue then message_sender_create (sender \<noteq> NULL) mutex_ok cond_ok else None);
            sp = (if created = None then NULL else sender);
            w1 = (case created of None \<Rightarrow> w | Some s \<Rightarrow> w\<lparr>w_senders := (w_senders w)(sender \<mapsto> s)\<rparr>);
            (initialised, r) = registry_init registry_ok
        in if async = NULL \<or> \<not> context_ok \<or> created = None
           then do { w2 \<leftarrow> sender_release sp w1; Some (None, w2) }
           else if \<not> initialised then do { w2 \<leftarrow> sender_release sp w1; Some (None, w2) }
           else if \<not> uv_ok
           then do { w2 \<leftarrow> close_sender sp w1; w3 \<leftarrow> sender_release sp w2; Some (None, w3) }
           else
             let w2 = w1\<lparr>w_senders := (w_senders w1)(sender \<mapsto> (the created)\<lparr>async_handle := async\<rparr>)\<rparr>
             in Some (Some \<lparr>ag_world = w2, ag_transfers = Map.empty, ag_registry = r, ag_sender = sender,
               ag_multi = multi\<rparr>, w2))"

definition message_sender_acquire :: "agent option \<Rightarrow> world \<Rightarrow> (addr \<times> world) option" where
  "message_sender_acquire context w =
     (case context of
        None \<Rightarrow> Some (NULL, w)
      | Some ag \<Rightarrow> do {
          (retained, w1) \<leftarrow> sender_retain (ag_sender ag) w;
          Some (if retained then ag_sender ag else NULL, w1)
        })"

definition destroy_message_context :: "agent option \<Rightarrow> world \<Rightarrow> world option" where
  "destroy_message_context context w =
     (case context of None \<Rightarrow> Some w | Some ag \<Rightarrow> sender_release (ag_sender ag) w)"

end
