(* ===== verification/Curl_Uv.thy ===== *)
theory Curl_Uv
  imports Message_Chan
begin

text \<open>
  \<open>cbits/curl_uv.c\<close>: the libuv loop of an agent. libcurl asks for sockets to be watched and for a
  timeout; libuv reports ready sockets and the timeout; libcurl then moves data and finishes
  transfers. The state is the heap of socket contexts, each with its poll handle, what libuv still
  has to call back for closed handles, and what libcurl keeps for the code: the multi options and
  the pointer assigned to each socket.

  libcurl and libuv are parameters: their answers, and the callbacks libcurl makes during a call, are
  arguments. \<open>None\<close> is undefined behaviour: use of freed memory, a second \<open>free\<close>, an operation on a
  closing handle that libuv forbids, or a loop in which libcurl never stops asking to be called.
\<close>

section \<open>Constants\<close>

type_synonym curl_socket = int

definition UV_READABLE :: int where "UV_READABLE = 1"
definition UV_WRITABLE :: int where "UV_WRITABLE = 2"
definition CURL_CSELECT_IN :: int where "CURL_CSELECT_IN = 1"
definition CURL_CSELECT_OUT :: int where "CURL_CSELECT_OUT = 2"
definition CURL_CSELECT_ERR :: int where "CURL_CSELECT_ERR = 4"
definition CURL_POLL_IN :: int where "CURL_POLL_IN = 1"
definition CURL_POLL_OUT :: int where "CURL_POLL_OUT = 2"
definition CURL_POLL_INOUT :: int where "CURL_POLL_INOUT = 3"
definition CURL_POLL_REMOVE :: int where "CURL_POLL_REMOVE = 4"
definition CURL_SOCKET_TIMEOUT :: curl_socket where "CURL_SOCKET_TIMEOUT = -1"

lemmas uv_consts = UV_READABLE_def UV_WRITABLE_def CURL_CSELECT_IN_def CURL_CSELECT_OUT_def
  CURL_CSELECT_ERR_def CURL_POLL_IN_def CURL_POLL_OUT_def CURL_POLL_INOUT_def CURL_POLL_REMOVE_def
  CURL_SOCKET_TIMEOUT_def

section \<open>State\<close>

text \<open>
  A socket context. Its poll handle is its first member, so both have one address; \<open>poll_data\<close> is
  the handle's data pointer.
\<close>

record socket_context =
  socket_fd :: curl_socket
  context_multi :: addr
  poll_data :: addr
  poll_events :: "int option"
  poll_closing :: bool

datatype multi_option = SocketFunctionOpt | SocketDataOpt | TimerFunctionOpt | TimerDataOpt

datatype multi_value = NoValue | SocketFunction | TimerFunction | Context addr

fun value_pointer :: "multi_value \<Rightarrow> addr" where
  "value_pointer (Context p) = p"
| "value_pointer _ = NULL"

text \<open>
  \<open>re_context\<close> is the multi context, the data pointer of the loop; \<open>re_polls\<close> are the poll handles
  of the loop, \<open>re_closes\<close> those whose close callback is still to be run; \<open>re_options\<close> and
  \<open>re_assigned\<close> are kept by libcurl.
\<close>

record reactor =
  re_agent :: agent
  re_context :: addr
  re_sockets :: "addr \<Rightarrow> socket_context option"
  re_polls :: "addr list"
  re_closes :: "addr list"
  re_timer :: "nat option"
  timer_closing :: bool
  async_closing :: bool
  re_options :: "multi_option \<Rightarrow> multi_value"
  re_assigned :: "curl_socket \<Rightarrow> addr"

text \<open>The answers to the calls one socket or timer callback makes; \<open>ua_calloc\<close> is what \<open>calloc\<close> returns.\<close>

record uv_answers =
  ua_calloc :: "(addr \<Rightarrow> socket_context option) \<Rightarrow> addr"
  ua_poll_init :: int
  ua_assign :: CURLMcode
  ua_poll_start :: int
  ua_timer :: int

section \<open>libuv handles\<close>

definition uv_close :: "addr \<Rightarrow> reactor \<Rightarrow> reactor option" where
  "uv_close p r =
     (case re_sockets r p of
        None \<Rightarrow> None
      | Some c \<Rightarrow>
          if poll_closing c then None
          else Some (r\<lparr>re_sockets := (re_sockets r)(p \<mapsto> c\<lparr>poll_closing := True, poll_events := None\<rparr>),
            re_closes := re_closes r @ [p]\<rparr>))"

definition uv_poll_stop :: "addr \<Rightarrow> reactor \<Rightarrow> reactor option" where
  "uv_poll_stop p r =
     (case re_sockets r p of
        None \<Rightarrow> None
      | Some c \<Rightarrow>
          if poll_closing c then None
          else Some (r\<lparr>re_sockets := (re_sockets r)(p \<mapsto> c\<lparr>poll_events := None\<rparr>)\<rparr>))"

definition uv_poll_start :: "addr \<Rightarrow> int \<Rightarrow> int \<Rightarrow> reactor \<Rightarrow> (int \<times> reactor) option" where
  "uv_poll_start p events answer r =
     (case re_sockets r p of
        None \<Rightarrow> None
      | Some c \<Rightarrow>
          if poll_closing c then None
          else Some (answer, if answer = 0
            then r\<lparr>re_sockets := (re_sockets r)(p \<mapsto> c\<lparr>poll_events := Some events\<rparr>)\<rparr> else r))"

section \<open>Socket contexts\<close>

definition destroy_socket_context_cb :: "addr \<Rightarrow> reactor \<Rightarrow> reactor option" where
  "destroy_socket_context_cb handle r =
     (if handle = NULL then Some r
      else case re_sockets r handle of
        None \<Rightarrow> None
      | Some c \<Rightarrow>
          if poll_data c = NULL then Some r
          else if re_sockets r (poll_data c) = None then None
          else Some (r\<lparr>re_sockets := (re_sockets r)(poll_data c := None)\<rparr>))"

definition destroy_socket_context :: "addr \<Rightarrow> reactor \<Rightarrow> reactor option" where
  "destroy_socket_context p r =
     (if p = NULL then Some r
      else case re_sockets r p of
        None \<Rightarrow> None
      | Some c \<Rightarrow> if poll_closing c then Some r else uv_close p r)"

definition new_socket_context :: "addr \<Rightarrow> curl_socket \<Rightarrow> uv_answers \<Rightarrow> reactor \<Rightarrow> addr \<times> reactor" where
  "new_socket_context multi_context fd ua r =
     (let p = ua_calloc ua (re_sockets r)
      in if p = NULL \<or> ua_poll_init ua \<noteq> 0 then (NULL, r)
         else (p, r\<lparr>re_sockets := (re_sockets r)(p \<mapsto> \<lparr>socket_fd = fd, context_multi = multi_context,
             poll_data = p, poll_events = None, poll_closing = False\<rparr>), re_polls := re_polls r @ [p]\<rparr>))"

section \<open>Callbacks of libcurl\<close>

definition curl_timer_function :: "int \<Rightarrow> addr \<Rightarrow> uv_answers \<Rightarrow> reactor \<Rightarrow> (int \<times> reactor) option" where
  "curl_timer_function timeout_ms userdata ua r =
     (if userdata = NULL then Some (-1, r)
      else if userdata \<noteq> re_context r then None
      else if timeout_ms < 0
      then Some (if ua_timer ua = 0 then (0, r\<lparr>re_timer := None\<rparr>) else (-1, r))
      else Some (if ua_timer ua = 0 then (0, r\<lparr>re_timer := Some (nat timeout_ms)\<rparr>) else (-1, r)))"

definition poll_mask :: "int \<Rightarrow> int" where
  "poll_mask action = (if action \<noteq> CURL_POLL_IN then UV_WRITABLE else 0)
     OR (if action \<noteq> CURL_POLL_OUT then UV_READABLE else 0)"

definition curl_socket_function ::
    "curl_socket \<Rightarrow> int \<Rightarrow> addr \<Rightarrow> addr \<Rightarrow> uv_answers \<Rightarrow> reactor \<Rightarrow> (int \<times> reactor) option" where
  "curl_socket_function fd action userdata socket_data ua r =
     (if userdata = NULL then Some (-1, r)
      else if userdata \<noteq> re_context r then None
      else if action = CURL_POLL_IN \<or> action = CURL_POLL_OUT \<or> action = CURL_POLL_INOUT
      then do {
        gone \<leftarrow> (if socket_data = NULL then Some True else map_option poll_closing (re_sockets r socket_data));
        (context, failed, r1) \<leftarrow>
          (if gone
           then (case new_socket_context userdata fd ua r of (context, r1) \<Rightarrow>
             if context = NULL \<or> ua_assign ua \<noteq> CURLM_OK
             then do { r2 \<leftarrow> destroy_socket_context context r1; Some (context, True, r2) }
             else Some (context, False, r1\<lparr>re_assigned := (re_assigned r1)(fd := context)\<rparr>))
           else Some (socket_data, False, r));
        if failed then Some (-1, r1)
        else do {
          (code, r2) \<leftarrow> uv_poll_start context (poll_mask action) (ua_poll_start ua) r1;
          Some (if code = 0 then 0 else -1, r2)
        }
      }
      else if action = CURL_POLL_REMOVE
      then (if socket_data = NULL then Some (0, r)
        else do {
          r1 \<leftarrow> uv_poll_stop socket_data r;
          let r2 = (if ua_assign ua = CURLM_OK then r1\<lparr>re_assigned := (re_assigned r1)(fd := NULL)\<rparr> else r1);
          r3 \<leftarrow> destroy_socket_context socket_data r2;
          Some (0, r3)
        })
      else Some (-1, r))"

text \<open>
  libcurl calls back with the pointer assigned to the socket, or with a null pointer if it has a new
  entry for the socket (\<open>known\<close> is false). After \<open>CURL_POLL_REMOVE\<close> it has none.
\<close>

datatype multi_callback =
    DataCb curl_callback
  | SocketCb curl_socket int bool uv_answers
  | TimerCb int uv_answers

fun run_multi_callback :: "multi_callback \<Rightarrow> reactor \<Rightarrow> reactor option" where
  "run_multi_callback (DataCb cb) r =
     map_option (\<lambda>w. r\<lparr>re_agent := (re_agent r)\<lparr>ag_world := w\<rparr>\<rparr>) (run_callback cb (ag_world (re_agent r)))"
| "run_multi_callback (SocketCb fd action known ua) r =
     (if re_options r SocketFunctionOpt \<noteq> SocketFunction then Some r
      else map_option (\<lambda>(answer, r1). if action = CURL_POLL_REMOVE
          then r1\<lparr>re_assigned := (re_assigned r1)(fd := NULL)\<rparr> else r1)
        (curl_socket_function fd action (value_pointer (re_options r SocketDataOpt))
          (if known then re_assigned r fd else NULL) ua r))"
| "run_multi_callback (TimerCb timeout_ms ua) r =
     (if re_options r TimerFunctionOpt \<noteq> TimerFunction then Some r
      else map_option snd (curl_timer_function timeout_ms (value_pointer (re_options r TimerDataOpt)) ua r))"

fun run_multi_callbacks :: "multi_callback list \<Rightarrow> reactor \<Rightarrow> reactor option" where
  "run_multi_callbacks [] r = Some r"
| "run_multi_callbacks (c # cs) r = Option.bind (run_multi_callback c r) (run_multi_callbacks cs)"

section \<open>Callbacks of libuv\<close>

text \<open>
  What libcurl does in one event: the answers of \<open>curl_multi_socket_action\<close> to a socket and flags, and
  of \<open>curl_multi_socket_all\<close>, each with the callbacks made during the call.
\<close>

record uv_env =
  ue_curl :: curl_env
  ue_action :: "curl_socket \<Rightarrow> int \<Rightarrow> (multi_callback list \<times> CURLMcode) list"
  ue_all :: "(multi_callback list \<times> CURLMcode) list"

text \<open>The loop \<open>do code = ... while (code == CURLM_CALL_MULTI_PERFORM)\<close> over the answers.\<close>

fun perform_loop :: "(multi_callback list \<times> CURLMcode) list \<Rightarrow> reactor \<Rightarrow> (CURLMcode \<times> reactor) option" where
  "perform_loop [] r = None"
| "perform_loop ((cbs, code) # answers) r = do {
     r1 \<leftarrow> run_multi_callbacks cbs r;
     if code = CURLM_CALL_MULTI_PERFORM then perform_loop answers r1 else Some (code, r1)
   }"

text \<open>\<open>CURLM_BAD_SOCKET\<close> means that libcurl does not know the socket: it has no pointer for it.\<close>

definition drive_multi_socket :: "uv_env \<Rightarrow> curl_socket \<Rightarrow> int \<Rightarrow> reactor \<Rightarrow> (CURLMcode \<times> reactor) option" where
  "drive_multi_socket env fd flags r =
     map_option (\<lambda>(code, r1). (code, if code = CURLM_BAD_SOCKET
         then r1\<lparr>re_assigned := (re_assigned r1)(fd := NULL)\<rparr> else r1))
       (perform_loop (ue_action env fd flags) r)"

definition check_reactor :: "uv_env \<Rightarrow> reactor \<Rightarrow> reactor option" where
  "check_reactor env r = map_option (\<lambda>ag. r\<lparr>re_agent := ag\<rparr>) (check_multi_info (ue_curl env) (re_agent r))"

definition fail_reactor :: "uv_env \<Rightarrow> CURLcode \<Rightarrow> reactor \<Rightarrow> reactor option" where
  "fail_reactor env code r =
     map_option (\<lambda>ag. r\<lparr>re_agent := ag\<lparr>ag_world := log_calls [UvStop] (ag_world ag)\<rparr>\<rparr>)
       (shutdown_message_context (ue_curl env) code (re_agent r))"

definition select_flags :: "int \<Rightarrow> int \<Rightarrow> int" where
  "select_flags status events =
     (if status < 0 then CURL_CSELECT_ERR
      else (if events AND UV_READABLE \<noteq> 0 then CURL_CSELECT_IN else 0)
        OR (if events AND UV_WRITABLE \<noteq> 0 then CURL_CSELECT_OUT else 0))"

definition socket_callback :: "uv_env \<Rightarrow> addr \<Rightarrow> int \<Rightarrow> int \<Rightarrow> reactor \<Rightarrow> reactor option" where
  "socket_callback env poll status events r =
     (if poll = NULL then Some r
      else case re_sockets r poll of
        None \<Rightarrow> None
      | Some handle \<Rightarrow>
          if poll_data handle = NULL then Some r
          else case re_sockets r (poll_data handle) of
            None \<Rightarrow> None
          | Some c \<Rightarrow>
              if context_multi c = NULL then Some r
              else if context_multi c \<noteq> re_context r then None
              else do {
                (code, r1) \<leftarrow> drive_multi_socket env (socket_fd c) (select_flags status events) r;
                if code = CURLM_BAD_SOCKET
                then do {
                  closing \<leftarrow> map_option poll_closing (re_sockets r1 poll);
                  r2 \<leftarrow> (if closing then Some r1
                    else Option.bind (uv_poll_stop poll r1) (destroy_socket_context (poll_data handle)));
                  if en_version (ue_curl env) < 0x071301
                  then do {
                    (code2, r3) \<leftarrow> perform_loop (ue_all env) r2;
                    if code2 \<noteq> CURLM_OK then fail_reactor env CURLE_RECV_ERROR r3 else check_reactor env r3
                  }
                  else check_reactor env r2
                }
                else if code \<noteq> CURLM_OK then fail_reactor env CURLE_RECV_ERROR r1
                else check_reactor env r1
              })"

text \<open>\<open>data\<close> is the data pointer of the timer handle.\<close>

definition on_timeout :: "uv_env \<Rightarrow> addr \<Rightarrow> reactor \<Rightarrow> reactor option" where
  "on_timeout env data r =
     (if data = NULL then Some r
      else if data \<noteq> re_context r then None
      else do {
        (code, r1) \<leftarrow> drive_multi_socket env CURL_SOCKET_TIMEOUT 0 r;
        if code \<noteq> CURLM_OK then fail_reactor env CURLE_OPERATION_TIMEDOUT r1 else check_reactor env r1
      })"

section \<open>Binding and tearing down\<close>

text \<open>\<open>ok\<close> tells which options \<open>curl_multi_setopt\<close> accepts.\<close>

definition curl_multi_setopt ::
    "(multi_option \<Rightarrow> bool) \<Rightarrow> multi_option \<Rightarrow> multi_value \<Rightarrow> reactor \<Rightarrow> bool \<times> reactor" where
  "curl_multi_setopt ok opt v r =
     (if ok opt then (True, r\<lparr>re_options := (re_options r)(opt := v)\<rparr>) else (False, r))"

fun set_options ::
    "(multi_option \<Rightarrow> bool) \<Rightarrow> (multi_option \<times> multi_value) list \<Rightarrow> reactor \<Rightarrow> bool \<times> reactor" where
  "set_options ok [] r = (True, r)"
| "set_options ok ((opt, v) # os) r =
     (case curl_multi_setopt ok opt v r of
        (False, r1) \<Rightarrow> (False, r1)
      | (True, r1) \<Rightarrow> set_options ok os r1)"

fun reset_options :: "(multi_option \<Rightarrow> bool) \<Rightarrow> multi_option list \<Rightarrow> reactor \<Rightarrow> reactor" where
  "reset_options ok [] r = r"
| "reset_options ok (opt # os) r = reset_options ok os (snd (curl_multi_setopt ok opt NoValue r))"

definition all_options :: "multi_option list" where
  "all_options = [SocketFunctionOpt, SocketDataOpt, TimerFunctionOpt, TimerDataOpt]"

text \<open>\<open>context\<close> is what \<open>calloc\<close> returns; \<open>has_messages\<close> tells whether the agent's context is passed.\<close>

definition bind_uv_curl_multi ::
    "addr \<Rightarrow> (multi_option \<Rightarrow> bool) \<Rightarrow> bool \<Rightarrow> addr \<Rightarrow> addr \<Rightarrow> bool \<Rightarrow> reactor \<Rightarrow> bool \<times> reactor" where
  "bind_uv_curl_multi context ok timer_ok loop multi has_messages r =
     (if loop = NULL \<or> multi = NULL \<or> \<not> has_messages then (False, r)
      else if context = NULL then (False, r)
      else case set_options ok [(SocketFunctionOpt, SocketFunction), (SocketDataOpt, Context context),
               (TimerFunctionOpt, TimerFunction), (TimerDataOpt, Context context)] r of
        (False, r1) \<Rightarrow> (False, reset_options ok all_options r1)
      | (True, r1) \<Rightarrow>
          if \<not> timer_ok then (False, reset_options ok all_options r1)
          else (True, r1\<lparr>re_context := context\<rparr>))"

text \<open>The handles of the loop, as \<open>uv_walk\<close> visits them.\<close>

datatype uv_handle = PollHandle addr | TimerHandle | AsyncHandle

fun close_handle_cb :: "uv_handle \<Rightarrow> reactor \<Rightarrow> reactor option" where
  "close_handle_cb (PollHandle p) r =
     (case re_sockets r p of
        None \<Rightarrow> None
      | Some c \<Rightarrow> if poll_closing c then Some r else uv_close p r)"
| "close_handle_cb TimerHandle r = Some (r\<lparr>timer_closing := True, re_timer := None\<rparr>)"
| "close_handle_cb AsyncHandle r = Some (r\<lparr>async_closing := True\<rparr>)"

fun uv_walk :: "uv_handle list \<Rightarrow> reactor \<Rightarrow> reactor option" where
  "uv_walk [] r = Some r"
| "uv_walk (h # hs) r = Option.bind (close_handle_cb h r) (uv_walk hs)"

text \<open>
  One close callback: libuv has removed the handle from the loop. The callback of every poll handle
  is \<open>destroy_socket_context_cb\<close>.
\<close>

definition finish_close :: "addr \<Rightarrow> reactor \<Rightarrow> reactor option" where
  "finish_close p r = destroy_socket_context_cb p (r\<lparr>re_polls := remove1 p (re_polls r)\<rparr>)"

fun finish_closes :: "addr list \<Rightarrow> reactor \<Rightarrow> reactor option" where
  "finish_closes [] r = Some r"
| "finish_closes (p # ps) r = Option.bind (finish_close p r) (finish_closes ps)"

definition run_closing :: "reactor \<Rightarrow> reactor option" where
  "run_closing r = finish_closes (re_closes r) (r\<lparr>re_closes := []\<rparr>)"

text \<open>
  \<open>agent_shutdown\<close>. \<open>async\<close> tells whether an async handle is passed, \<open>cleanup\<close> are the callbacks made
  by \<open>curl_multi_cleanup\<close>, after which libcurl keeps nothing. Every handle of the loop is closing
  when the loop runs for the last time, so all that runs are close callbacks.
\<close>

definition agent_shutdown ::
    "curl_env \<Rightarrow> multi_callback list \<Rightarrow> addr \<Rightarrow> bool \<Rightarrow> addr \<Rightarrow> reactor \<Rightarrow> reactor option" where
  "agent_shutdown env cleanup loop async multi r =
     (if loop = NULL then Some r
      else do {
        ag \<leftarrow> (if async then shutdown_message_context env CURLE_ABORTED_BY_CALLBACK (re_agent r)
              else Some (re_agent r));
        let r1 = r\<lparr>re_agent := ag\<rparr>;
        r2 \<leftarrow> (if multi \<noteq> NULL
          then map_option (\<lambda>r. r\<lparr>re_options := \<lambda>_. NoValue, re_assigned := \<lambda>_. NULL\<rparr>) (run_multi_callbacks cleanup r1)
          else Some r1);
        r3 \<leftarrow> uv_walk (map PollHandle (re_polls r2) @ (if re_context r2 = NULL then [] else [TimerHandle])
          @ (if async then [AsyncHandle] else [])) r2;
        r4 \<leftarrow> run_closing r3;
        w \<leftarrow> (if async then destroy_message_context (Some (re_agent r4)) (ag_world (re_agent r4))
             else Some (ag_world (re_agent r4)));
        Some (r4\<lparr>re_context := NULL, re_agent := (re_agent r4)\<lparr>ag_world := w\<rparr>\<rparr>)
      })"

end
