(* ===== verification/Agent_Laws.thy ===== *)
theory Agent_Laws
  imports Message_Chan
begin

text \<open>
  What the functions of \<open>Message_Chan\<close> do to the objects a transfer points to: its streams, headers,
  metrics and result. A step is \<open>calm\<close> if it frees nothing, leaves the queue and the senders alone and
  undoes no completion; the callbacks of libcurl and the sequence that ends a transfer are.
\<close>

section \<open>Steps on the objects of a transfer\<close>

text \<open>A result that is complete and whose waker was fired.\<close>

definition settled :: "world \<Rightarrow> addr \<Rightarrow> bool" where
  "settled w r \<longleftrightarrow> (\<exists>d. w_results w r = Some d \<and> completed d \<and> waker_fired d)"

definition stream_done :: "world \<Rightarrow> addr \<Rightarrow> bool" where
  "stream_done w p \<longleftrightarrow> p = NULL \<or> (\<exists>s. w_streams w p = Some s \<and> terminal_set s)"

text \<open>
  A step that frees nothing, leaves the queue and the senders alone, undoes no completion, and makes
  the calls \<open>evs\<close> that concern the ownership of easy handles.
\<close>

definition calm :: "event list \<Rightarrow> world \<Rightarrow> world \<Rightarrow> bool" where
  "calm evs w w' \<longleftrightarrow> world_ok w' \<and> w_queue w' = w_queue w \<and> w_senders w' = w_senders w
     \<and> dom (w_streams w') = dom (w_streams w) \<and> dom (w_headers w') = dom (w_headers w)
     \<and> dom (w_metrics w') = dom (w_metrics w) \<and> dom (w_results w') = dom (w_results w)
     \<and> (\<forall>r. settled w r \<longrightarrow> settled w' r) \<and> (\<forall>p. stream_done w p \<longrightarrow> stream_done w' p)
     \<and> owner_calls (w_log w') = owner_calls (w_log w) @ evs"

lemma calmD:
  assumes "calm evs w w'"
  shows "world_ok w'" "w_queue w' = w_queue w" "w_senders w' = w_senders w"
    "dom (w_streams w') = dom (w_streams w)" "dom (w_headers w') = dom (w_headers w)"
    "dom (w_metrics w') = dom (w_metrics w)" "dom (w_results w') = dom (w_results w)"
    "settled w r \<Longrightarrow> settled w' r" "stream_done w p \<Longrightarrow> stream_done w' p"
    "owner_calls (w_log w') = owner_calls (w_log w) @ evs"
  using assms by (auto simp: calm_def)

lemma calm_refl: "world_ok w \<Longrightarrow> calm [] w w"
  by (simp add: calm_def)

lemma calm_trans: "calm xs w w' \<Longrightarrow> calm ys w' w'' \<Longrightarrow> calm (xs @ ys) w w''"
  by (simp add: calm_def)

lemma calm_silent: "calm [] w w' \<Longrightarrow> calm ys w' w'' \<Longrightarrow> calm ys w w''"
  "calm ys w w' \<Longrightarrow> calm [] w' w'' \<Longrightarrow> calm ys w w''"
  using calm_trans [of "[]" w w' ys w''] calm_trans [of ys w w' "[]" w''] by auto

lemma calm_log: "world_ok w \<Longrightarrow> calm (owner_calls evs) w (log_calls evs w)"
  by (simp add: calm_def settled_def stream_done_def) (simp add: log_calls_def)

text \<open>A step of a stream that leaves the queue alone is calm.\<close>

lemma steps_calm:
  assumes st: "steps_to p w s w' t" and p: "w_streams w p = Some s" and q: "w_queue w' = w_queue w"
  shows "calm [] w w'"
proof -
  note d = steps_toD [OF st]
  have str: "w_streams w' r = (if r = p then Some t else w_streams w r)" for r using d(2) d(8) by auto
  have "dom (w_streams w') = dom (w_streams w)" using p by (auto simp: dom_def str)
  moreover have "stream_done w r \<longrightarrow> stream_done w' r" for r
    using d(3) p by (auto simp: stream_done_def str evolves_def)
  moreover have "dom (w_headers w') = dom (w_headers w)" "dom (w_metrics w') = dom (w_metrics w)"
    using d(7) by (simp_all only: quiet_def dom_def)
  moreover have "w_results w' = w_results w" "w_senders w' = w_senders w"
    "owner_calls (w_log w') = owner_calls (w_log w)" using d(7) by (simp_all add: quiet_def)
  ultimately show ?thesis using d(1) q by (simp add: calm_def settled_def)
qed

lemma calm_complete:
  assumes ok: "world_ok w" and p: "p = NULL \<or> w_streams w p \<noteq> None"
  shows "\<exists>w'. hcurl_stream_complete p code w = Some w' \<and> calm [] w w' \<and> stream_done w' p"
proof (cases "p = NULL")
  case True
  then show ?thesis using calm_refl [OF ok] by (simp add: hcurl_stream_complete_def stream_done_def)
next
  case False
  with p obtain s where s: "w_streams w p = Some s" by blast
  from complete_step [OF ok s, of code] obtain w' t where c: "hcurl_stream_complete p code w = Some w'"
    "steps_to p w s w' t" "terminal_set t" "w_queue w' = w_queue w" by blast
  then show ?thesis using steps_calm [OF c(2) s c(4)] steps_toD(2) [OF c(2)] by (auto simp: stream_done_def)
qed

lemma calm_metrics:
  assumes ok: "world_ok w" and p: "p = NULL \<or> w_metrics w p \<noteq> None" and a: "answers_ok (en_answers env easy)"
  shows "\<exists>w'. finish_metrics env p easy w = Some w' \<and> calm [] w w'"
proof (cases "p = NULL")
  case True
  then show ?thesis using calm_refl [OF ok] by (simp add: finish_metrics_def)
next
  case False
  with p obtain m where m: "w_metrics w p = Some m" by blast
  have mok: "metrics_ok m" using ok m by (auto simp: world_ok_def)
  obtain m' where m': "curl_metrics_finish (en_version env) (en_runtime env) (en_answers env easy) easy (Some m)
      = Some (Some m')" "metrics_ok m'" using finish_ok [OF mok a] by blast
  let ?w = "w\<lparr>w_metrics := (w_metrics w)(p \<mapsto> m')\<rparr>"
  have "stream_linked ?w u" if "stream_linked w u" for u
    using that by (auto simp: stream_linked_def channel_ok_def)
  then have "world_ok ?w" using ok m'(2) by (auto simp: world_ok_def)
  then have "calm [] w ?w" using m by (auto simp: calm_def settled_def stream_done_def)
  then show ?thesis using False m m'(1) by (simp add: finish_metrics_def)
qed

lemma results_ok [simp]: "world_ok (w\<lparr>w_results := f\<rparr>) = world_ok w"
  by (simp add: world_ok_def stream_linked_def channel_ok_def)

lemma calm_set_result:
  assumes ok: "world_ok w" and p: "p = NULL \<or> w_results w p \<noteq> None"
  shows "\<exists>w'. set_result env p easy code w = Some w' \<and> calm [] w w'
    \<and> (p \<noteq> NULL \<longrightarrow> (\<exists>d d'. w_results w p = Some d \<and> w_results w' p = Some d' \<and> completed d'
         \<and> (\<not> completed d \<longrightarrow> curl_code d' = code) \<and> waker_fired d' = waker_fired d))"
proof (cases "p = NULL")
  case True
  then show ?thesis using calm_refl [OF ok] by (simp add: set_result_def)
next
  case False
  with p obtain d where d: "w_results w p = Some d" by blast
  let ?d = "hs_easy_data_set_result (en_status env easy) d easy code"
  let ?w = "w\<lparr>w_results := (w_results w)(p \<mapsto> ?d)\<rparr>"
  have c: "completed ?d" "waker_fired ?d = waker_fired d" "\<not> completed d \<longrightarrow> curl_code ?d = code"
    by (auto simp: hs_easy_data_set_result_def Let_def)
  have "calm [] w ?w" using ok d c by (auto simp: calm_def settled_def stream_done_def)
  then show ?thesis using False d c by (simp add: set_result_def)
qed

lemma calm_wake:
  assumes ok: "world_ok w" and p: "p = NULL \<or> (\<exists>d. w_results w p = Some d \<and> completed d)"
  shows "\<exists>w'. wake_result p w = Some w' \<and> calm [] w w'
    \<and> (p \<noteq> NULL \<longrightarrow> settled w' p \<and> map_option curl_code (w_results w' p) = map_option curl_code (w_results w p))"
proof (cases "p = NULL")
  case True
  then show ?thesis using calm_refl [OF ok] by (simp add: wake_result_def)
next
  case False
  with p obtain d where d: "w_results w p = Some d" "completed d" by blast
  obtain evs d' where e: "hs_easy_data_wake d = (evs, d')" by (cases "hs_easy_data_wake d")
  have d': "completed d'" "waker_fired d'" "curl_code d' = curl_code d" "owner_calls evs = []"
    using e d(2) by (auto simp: hs_easy_data_wake_def wake_up_waker_def split: if_splits)
  let ?w = "w\<lparr>w_results := (w_results w)(p \<mapsto> d')\<rparr>"
  have "calm [] w ?w" using ok d d' by (auto simp: calm_def settled_def stream_done_def)
  moreover have "calm [] ?w (log_calls evs ?w)" using calm_log [of ?w evs] ok d'(4) by simp
  ultimately have "calm [] w (log_calls evs ?w)" using calm_silent by blast
  then show ?thesis using False d e d' by (simp add: wake_result_def settled_def) (simp add: log_calls_def)
qed

section \<open>Callbacks of libcurl\<close>

text \<open>
  libcurl calls back with the pointers it was given and with blocks below its special values.
\<close>

fun callback_ok :: "world \<Rightarrow> curl_callback \<Rightarrow> bool" where
  "callback_ok w (WriteCb p m pc d) \<longleftrightarrow> p \<in> dom (w_streams w) \<and> length d < CURL_WRITEFUNC_PAUSE"
| "callback_ok w (ReadCb p cap) \<longleftrightarrow> p \<in> dom (w_streams w) \<and> 0 < cap \<and> cap < CURL_READFUNC_ABORT"
| "callback_ok w (HeaderCb p m line) \<longleftrightarrow> p = NULL \<or> p \<in> dom (w_headers w)"

lemma callback_ok_calm: "calm evs w w' \<Longrightarrow> callback_ok w' = callback_ok w"
proof (rule ext)
  fix cb
  assume "calm evs w w'"
  then show "callback_ok w' cb = callback_ok w cb" by (cases cb) (simp_all only: callback_ok.simps calm_def)
qed

text \<open>The answer to \<open>curl_easy_pause\<close> decides what libcurl is told, not what happens to the stream.\<close>

lemma write_cb_pause:
  "map_option snd (hcurl_download_write_callback m pc d sz n p w)
   = map_option snd (hcurl_download_write_callback m CURLE_OK d sz n p w)"
  by (auto simp: hcurl_download_write_callback_def Let_def split: option.splits download_outcome.splits
    Option.bind_splits)

lemma data_cb_queue:
  "hcurl_download_write_callback m pc d sz n p w = Some (r, w') \<Longrightarrow> w_queue w' = w_queue w"
  "hcurl_upload_read_callback sz n p w = Some (r, out, w') \<Longrightarrow> w_queue w' = w_queue w"
  by (auto simp: hcurl_download_write_callback_def hcurl_upload_read_callback_def Let_def on_headers_def
    on_metrics_def put_stream_def log_calls_def split: option.splits download_outcome.splits
    upload_outcome.splits Option.bind_splits if_splits prod.splits)

lemma header_line_owner: "header_line m line h = Some (b, evs, h') \<Longrightarrow> owner_calls evs = []"
  by (auto simp: header_line_def finish_block_def fire_waiter_def Let_def
    split: Option.bind_splits if_splits prod.splits)

lemma header_cb_owner:
  "header_callback m line sz n hp = Some (r, evs, hp') \<Longrightarrow> owner_calls evs = []"
  using header_line_owner
  by (auto simp: header_callback_def Let_def split: option.splits Option.bind_splits if_splits prod.splits)

lemma calm_headers:
  assumes ok: "world_ok w" and h: "header_ok hp" "hp \<noteq> None" "w_headers w p \<noteq> None" and evs: "owner_calls evs = []"
  shows "calm [] w (log_calls evs (w\<lparr>w_headers := (w_headers w)(p := hp)\<rparr>))"
proof -
  let ?w = "w\<lparr>w_headers := (w_headers w)(p := hp)\<rparr>"
  have "stream_linked ?w u" if "stream_linked w u" for u
    using that h(2) by (auto simp: stream_linked_def channel_ok_def)
  then have wok: "world_ok ?w" using ok h(1) by (auto simp: world_ok_def)
  have "calm [] w ?w" using wok h by (auto simp: calm_def settled_def stream_done_def)
  moreover have "calm [] ?w (log_calls evs ?w)" using calm_log [OF wok, of evs] evs by simp
  ultimately show ?thesis using calm_silent by blast
qed

lemma calm_callback:
  assumes ok: "world_ok w" and cb: "callback_ok w cb"
  shows "\<exists>w'. run_callback cb w = Some w' \<and> calm [] w w'"
proof (cases cb)
  case (WriteCb p m pc d)
  then obtain s where s: "w_streams w p = Some s" and d: "length d < CURL_WRITEFUNC_PAUSE" using cb by auto
  have v: "valid_call (Deliver m d)" using d by simp
  obtain acc del w' t where c: "call_on (Deliver m d) p w = Some (acc, del, w')" "steps_to p w s w' t"
    using call_law [OF ok s v] by blast
  then obtain r where r: "hcurl_download_write_callback m CURLE_OK d 1 (length d) p w = Some (r, w')" by auto
  have "run_callback cb w = Some w'" using WriteCb write_cb_pause [of m pc d 1 "length d" p w] r by simp
  then show ?thesis using steps_calm [OF c(2) s data_cb_queue(1) [OF r]] by blast
next
  case (ReadCb p cap)
  then obtain s where s: "w_streams w p = Some s" and v: "valid_call (Demand cap)" using cb by auto
  obtain acc del w' t where c: "call_on (Demand cap) p w = Some (acc, del, w')" "steps_to p w s w' t"
    using call_law [OF ok s v] by blast
  then obtain r out where r: "hcurl_upload_read_callback 1 cap p w = Some (r, out, w')" by auto
  then show ?thesis using ReadCb steps_calm [OF c(2) s data_cb_queue(2) [OF r]] by simp
next
  case (HeaderCb p m line)
  show ?thesis
  proof (cases "p = NULL")
    case True
    then show ?thesis using HeaderCb calm_refl [OF ok] by simp
  next
    case False
    then obtain h where h: "w_headers w p = Some h" using cb HeaderCb by auto
    have "header_ok (Some h)" using ok h by (metis world_ok_def)
    from callback_safe [OF this, of m line] obtain n evs hp' where
      e: "header_callback m line 1 (length line) (Some h) = Some (n, evs, hp')" "header_ok hp'" "hp' \<noteq> None"
      by blast
    then show ?thesis using HeaderCb False h calm_headers [OF ok e(2,3) _ header_cb_owner [OF e(1)], of p] by simp
  qed
qed

lemma calm_callbacks:
  "world_ok w \<Longrightarrow> list_all (callback_ok w) cbs \<Longrightarrow> \<exists>w'. run_callbacks cbs w = Some w' \<and> calm [] w w'"
proof (induction cbs arbitrary: w)
  case Nil
  then show ?case using calm_refl by simp
next
  case (Cons c cs)
  from calm_callback [OF Cons.prems(1), of c] Cons.prems(2) obtain w1 where
    w1: "run_callback c w = Some w1" "calm [] w w1" by auto
  have "list_all (callback_ok w1) cs" using Cons.prems(2) callback_ok_calm [OF w1(2)] by simp
  from Cons.IH [OF calmD(1) [OF w1(2)] this] obtain w2 where
    w2: "run_callbacks cs w1 = Some w2" "calm [] w1 w2" by blast
  then show ?case using w1(1) calm_silent(1) [OF w1(2) w2(2)] by simp
qed

lemma calm_drive:
  assumes "world_ok w" and "\<forall>(cbs, code) \<in> set answers. list_all (callback_ok w) cbs"
    and "\<exists>(cbs, code) \<in> set answers. code \<noteq> CURLM_CALL_MULTI_PERFORM"
  shows "\<exists>code w'. drive_legacy_multi answers w = Some (code, w') \<and> calm [] w w'
    \<and> code \<noteq> CURLM_CALL_MULTI_PERFORM"
  using assms
proof (induction answers arbitrary: w)
  case (Cons a answers)
  obtain cbs code where a: "a = (cbs, code)" by (cases a)
  from calm_callbacks [OF Cons.prems(1), of cbs] Cons.prems(2) a obtain w1 where
    w1: "run_callbacks cbs w = Some w1" "calm [] w w1" by auto
  show ?case
  proof (cases "code = CURLM_CALL_MULTI_PERFORM")
    case True
    have "\<forall>(cbs, code) \<in> set answers. list_all (callback_ok w1) cbs"
      using Cons.prems(2) callback_ok_calm [OF w1(2)] by auto
    moreover have "\<exists>(cbs, code) \<in> set answers. code \<noteq> CURLM_CALL_MULTI_PERFORM"
      using Cons.prems(3) a True by auto
    ultimately obtain code' w2 where w2: "drive_legacy_multi answers w1 = Some (code', w2)" "calm [] w1 w2"
      "code' \<noteq> CURLM_CALL_MULTI_PERFORM" using Cons.IH [OF calmD(1) [OF w1(2)]] by blast
    then show ?thesis using a True w1(1) calm_silent(1) [OF w1(2) w2(2)] by simp
  next
    case False
    then show ?thesis using a w1 by auto
  qed
qed simp

section \<open>Ending a transfer\<close>

definition points_to :: "addr \<Rightarrow> (addr \<Rightarrow> 'a option) \<Rightarrow> bool" where
  "points_to p m \<longleftrightarrow> p = NULL \<or> p \<in> dom m"

definition payload_ok :: "world \<Rightarrow> execute_payload \<Rightarrow> bool" where
  "payload_ok w pl \<longleftrightarrow> points_to (p_result pl) (w_results w) \<and> points_to (p_metrics pl) (w_metrics w)
     \<and> points_to (p_download_stream pl) (w_streams w) \<and> points_to (p_upload_stream pl) (w_streams w)"

definition transfer_ok :: "world \<Rightarrow> transfer \<Rightarrow> bool" where
  "transfer_ok w t \<longleftrightarrow> t_easy t \<noteq> NULL \<and> t_result t \<in> dom (w_results w) \<and> t_result t \<noteq> NULL
     \<and> points_to (t_metrics t) (w_metrics w) \<and> points_to (t_download t) (w_streams w)
     \<and> points_to (t_upload t) (w_streams w)"

lemma objects_calm:
  assumes "calm evs w w'"
  shows "payload_ok w' = payload_ok w" "transfer_ok w' = transfer_ok w"
  using assms by (simp_all add: calm_def payload_ok_def transfer_ok_def points_to_def fun_eq_iff)

text \<open>
  What is documented of libcurl and of \<open>calloc\<close>: the answers are numbers, the private pointer
  answered is the one set last, the callbacks are the installed ones, a new transfer is at an
  address that is not in use, and \<open>curl_multi_socket_all\<close> does not ask to be called again for ever.
\<close>

definition env_ok :: "world \<Rightarrow> curl_env \<Rightarrow> bool" where
  "env_ok w env \<longleftrightarrow> (\<forall>e. answers_ok (en_answers env e))
     \<and> (\<forall>evs e p. en_get_private env evs e = (CURLE_OK, p) \<longrightarrow> p = NULL \<or> p = last_private e evs NULL)
     \<and> (\<forall>e. list_all (callback_ok w) (fst (en_pause env e)))
     \<and> (\<forall>(cbs, code) \<in> set (en_socket_all env). list_all (callback_ok w) cbs)
     \<and> (\<exists>(cbs, code) \<in> set (en_socket_all env). code \<noteq> CURLM_CALL_MULTI_PERFORM)
     \<and> (\<forall>T. en_transfer env T = NULL \<or> T (en_transfer env T) = None)"

lemma env_calm: "calm evs w w' \<Longrightarrow> env_ok w' = env_ok w"
  by (intro ext) (simp only: env_ok_def callback_ok_calm)

lemma env_okD:
  assumes "env_ok w env"
  shows "answers_ok (en_answers env e)"
    "en_get_private env evs e = (CURLE_OK, p) \<Longrightarrow> p = NULL \<or> p = last_private e evs NULL"
    "list_all (callback_ok w) (fst (en_pause env e))"
    "\<forall>(cbs, code) \<in> set (en_socket_all env). list_all (callback_ok w) cbs"
    "\<exists>(cbs, code) \<in> set (en_socket_all env). code \<noteq> CURLM_CALL_MULTI_PERFORM"
    "en_transfer env T = NULL \<or> T (en_transfer env T) = None"
proof -
  note d = assms [unfolded env_ok_def]
  note d2 = d [THEN conjunct2] note d3 = d2 [THEN conjunct2] note d4 = d3 [THEN conjunct2]
  note d5 = d4 [THEN conjunct2] note d6 = d5 [THEN conjunct2]
  show "answers_ok (en_answers env e)" using d [THEN conjunct1] ..
  show "en_get_private env evs e = (CURLE_OK, p) \<Longrightarrow> p = NULL \<or> p = last_private e evs NULL"
    using d2 [THEN conjunct1] by blast
  show "list_all (callback_ok w) (fst (en_pause env e))" using d3 [THEN conjunct1] ..
  show "\<forall>(cbs, code) \<in> set (en_socket_all env). list_all (callback_ok w) cbs" using d4 [THEN conjunct1] .
  show "\<exists>(cbs, code) \<in> set (en_socket_all env). code \<noteq> CURLM_CALL_MULTI_PERFORM" using d5 [THEN conjunct1] .
  show "en_transfer env T = NULL \<or> T (en_transfer env T) = None" using d6 ..
qed

text \<open>The result that is reported: the streams' normalisation of the code.\<close>

definition reported_code :: "world \<Rightarrow> addr \<Rightarrow> addr \<Rightarrow> CURLcode \<Rightarrow> CURLcode" where
  "reported_code w d u code =
     (if (\<exists>p \<in> {d, u}. p \<noteq> NULL \<and> (\<exists>s. w_streams w p = Some s \<and> (s_closed s \<or> cancel_sent s)))
      then CURLE_ABORTED_BY_CALLBACK else code)"

lemma normalize_defined:
  assumes "points_to d (w_streams w)" "points_to u (w_streams w)"
  shows "\<exists>c. normalize_completion d code w = Some c
    \<and> normalize_completion u c w = Some (reported_code w d u code)"
  using assms by (auto simp: normalize_completion_def points_to_def reported_code_def
    hcurl_stream_normalize_completion_def)

text \<open>Both ways to end a transfer share this sequence of steps.\<close>

lemma end_objects:
  assumes ok: "world_ok w" and a: "answers_ok (en_answers env easy)"
    and pts: "points_to r (w_results w)" "points_to m (w_metrics w)" "points_to d (w_streams w)"
      "points_to u (w_streams w)"
  shows "\<exists>w1 w2 w4 w5 w6. finish_metrics env m easy w = Some w1 \<and> set_result env r easy code w1 = Some w2
    \<and> hcurl_stream_complete d code (log_calls xs w2) = Some w4 \<and> hcurl_stream_complete u code w4 = Some w5
    \<and> wake_result r (log_calls ys w5) = Some w6 \<and> calm (owner_calls xs @ owner_calls ys) w w6
    \<and> stream_done w6 d \<and> stream_done w6 u
    \<and> (r \<noteq> NULL \<longrightarrow> settled w6 r \<and> (\<forall>e. w_results w r = Some e \<and> \<not> completed e \<longrightarrow>
          map_option curl_code (w_results w6 r) = Some code))"
proof -
  from calm_metrics [OF ok _ a, of m] pts(2) obtain w1 where w1: "finish_metrics env m easy w = Some w1" "calm [] w w1"
    by (auto simp: points_to_def)
  have r1: "r = NULL \<or> w_results w1 r \<noteq> None" using pts(1) calmD(7) [OF w1(2)] by (auto simp: points_to_def)
  from calm_set_result [OF calmD(1) [OF w1(2)] r1, of env easy code] obtain w2 where
    w2: "set_result env r easy code w1 = Some w2" "calm [] w1 w2"
    "r \<noteq> NULL \<longrightarrow> (\<exists>d d'. w_results w1 r = Some d \<and> w_results w2 r = Some d' \<and> completed d'
         \<and> (\<not> completed d \<longrightarrow> curl_code d' = code) \<and> waker_fired d' = waker_fired d)" by blast
  have same1: "w_results w1 = w_results w"
    using w1(1) by (auto simp: finish_metrics_def split: if_splits option.splits)
  let ?w3 = "log_calls xs w2"
  note l3 = calm_log [OF calmD(1) [OF w2(2)], of xs]
  have c13: "calm (owner_calls xs) w ?w3" using calm_silent(1) [OF w1(2) calm_silent(1) [OF w2(2) l3]] .
  have d3: "d = NULL \<or> w_streams ?w3 d \<noteq> None" "u = NULL \<or> w_streams ?w3 u \<noteq> None"
    using pts(3,4) calmD(4) [OF c13] by (auto simp: points_to_def)
  from calm_complete [OF calmD(1) [OF c13] d3(1), of code] obtain w4 where
    w4: "hcurl_stream_complete d code ?w3 = Some w4" "calm [] ?w3 w4" "stream_done w4 d" by blast
  have d4: "u = NULL \<or> w_streams w4 u \<noteq> None" using d3(2) calmD(4) [OF w4(2)] by auto
  from calm_complete [OF calmD(1) [OF w4(2)] d4, of code] obtain w5 where
    w5: "hcurl_stream_complete u code w4 = Some w5" "calm [] w4 w5" "stream_done w5 u" by blast
  let ?w6 = "log_calls ys w5"
  note l6 = calm_log [OF calmD(1) [OF w5(2)], of ys]
  have keep: "w_results w4 = w_results ?w3" "w_results w5 = w_results w4"
    using w4(1) w5(1) by (auto simp: hcurl_stream_complete_def on_headers_def log_calls_def put_stream_def
      split: if_splits option.splits Option.bind_splits prod.splits)
  then have res: "w_results ?w6 = w_results w2" by (simp add: log_calls_def)
  have r6: "r = NULL \<or> (\<exists>d. w_results ?w6 r = Some d \<and> completed d)" using w2(3) res by auto
  from calm_wake [OF calmD(1) [OF l6] r6] obtain w7 where
    w7: "wake_result r ?w6 = Some w7" "calm [] ?w6 w7"
    "r \<noteq> NULL \<longrightarrow> settled w7 r \<and> map_option curl_code (w_results w7 r) = map_option curl_code (w_results ?w6 r)"
    by blast
  have c67: "calm (owner_calls ys) w5 w7" using calm_silent(2) [OF l6 w7(2)] .
  have c47: "calm (owner_calls ys) ?w3 w7" using calm_silent(1) [OF w4(2) calm_silent(1) [OF w5(2) c67]] .
  have calm: "calm (owner_calls xs @ owner_calls ys) w w7" using calm_trans [OF c13 c47] .
  have ended: "stream_done w7 d" "stream_done w7 u"
    using calmD(9) [OF c67 calmD(9) [OF w5(2) w4(3)]] calmD(9) [OF c67 w5(3)] by blast+
  have "r \<noteq> NULL \<longrightarrow> settled w7 r \<and> (\<forall>e. w_results w r = Some e \<and> \<not> completed e \<longrightarrow>
          map_option curl_code (w_results w7 r) = Some code)"
    using w7(3) w2(3) res same1 by auto
  with w1(1) w2(1) w4(1) w5(1) w7(1) calm ended show ?thesis by blast
qed

end
