(* ===== verification/Agent_Inv.thy ===== *)
theory Agent_Inv
  imports Agent_Laws
begin

text \<open>
  The invariant of an agent and its preservation by every function of the reactor. The registry maps
  exactly the ids of the allocated transfers to their addresses; a private pointer that is not null
  points to the transfer that owns the easy handle. The account of easy handles, those released,
  those of registered transfers and those in submissions still queued, is the same before and after.
\<close>

section \<open>Easy handles in the log\<close>

fun cleaned :: "event list \<Rightarrow> CURL list" where
  "cleaned [] = []"
| "cleaned (CurlEasyCleanup e # evs) = e # cleaned evs"
| "cleaned (_ # evs) = cleaned evs"

lemma cleaned_append [simp]: "cleaned (xs @ ys) = cleaned xs @ cleaned ys"
  by (induction xs rule: cleaned.induct) auto

lemma last_private_append [simp]: "last_private e (xs @ ys) p = last_private e ys (last_private e xs p)"
  by (induction e xs p rule: last_private.induct) auto

lemma owner_calls_log [simp]:
  "cleaned (owner_calls evs) = cleaned evs" "last_private e (owner_calls evs) p = last_private e evs p"
  by (induction evs arbitrary: p rule: owner_calls.induct) auto

lemma calm_logs:
  assumes "calm evs w w'"
  shows "cleaned (w_log w') = cleaned (w_log w) @ cleaned evs"
    "last_private e (w_log w') p = last_private e evs (last_private e (w_log w) p)"
proof -
  note o = calmD(10) [OF assms]
  show "cleaned (w_log w') = cleaned (w_log w) @ cleaned evs"
    using arg_cong [OF o, of cleaned] by simp
  show "last_private e (w_log w') p = last_private e evs (last_private e (w_log w) p)"
    using arg_cong [OF o, of "\<lambda>l. last_private e l p"] by simp
qed

section \<open>The invariant\<close>

fun message_ok :: "world \<Rightarrow> outer_message \<Rightarrow> bool" where
  "message_ok w (Execute pl) = payload_ok w pl"
| "message_ok w _ = True"

definition agent_core :: "agent \<Rightarrow> bool" where
  "agent_core ag \<longleftrightarrow> world_ok (ag_world ag) \<and> ag_sender ag \<noteq> NULL \<and> channel_ok (ag_sender ag) (ag_world ag)
     \<and> (\<forall>p t. ag_transfers ag p = Some t \<longrightarrow> p \<noteq> NULL \<and> transfer_ok (ag_world ag) t)
     \<and> (\<forall>e. let p = last_private e (w_log (ag_world ag)) NULL
             in p = NULL \<or> (\<exists>t. ag_transfers ag p = Some t \<and> t_easy t = e))
     \<and> (\<forall>m \<in> set (messages (w_queue (ag_world ag))). message_ok (ag_world ag) m)"

definition registered_exactly :: "transfer_registry \<Rightarrow> (addr \<Rightarrow> transfer option) \<Rightarrow> bool" where
  "registered_exactly r T \<longleftrightarrow> reg_inv r
     \<and> (\<forall>i p. reg_map r i = Some p \<longleftrightarrow> (\<exists>t. T p = Some t \<and> t_id t = i))"

definition agent_inv :: "agent \<Rightarrow> bool" where
  "agent_inv ag \<longleftrightarrow> agent_core ag \<and> registered_exactly (ag_registry ag) (ag_transfers ag)"

text \<open>The handles of a submission and of the submissions in a queue, and the account.\<close>

fun message_handles :: "outer_message \<Rightarrow> CURL list" where
  "message_handles (Execute pl) = (if p_easy pl = NULL then [] else [p_easy pl])"
| "message_handles _ = []"

definition registered_handles :: "transfer_registry \<Rightarrow> (addr \<Rightarrow> transfer option) \<Rightarrow> CURL multiset" where
  "registered_handles r T = image_mset (\<lambda>nd. t_easy (the (T (snd nd)))) (mset (nodes r))"

definition handles :: "agent \<Rightarrow> CURL multiset" where
  "handles ag = mset (cleaned (w_log (ag_world ag)))
     + registered_handles (ag_registry ag) (ag_transfers ag)
     + mset (concat (map message_handles (messages (w_queue (ag_world ag)))))"

text \<open>The results whose owners still wait.\<close>

fun message_results :: "outer_message \<Rightarrow> addr set" where
  "message_results (Execute pl) = {p_result pl} - {NULL}"
| "message_results _ = {}"

definition awaited :: "agent \<Rightarrow> addr set" where
  "awaited ag = {r. \<exists>p t. ag_transfers ag p = Some t \<and> r = t_result t}
     \<union> (\<Union>m \<in> set (messages (w_queue (ag_world ag))). message_results m)"

text \<open>A shut down agent has an empty queue, and nothing can be sent to it.\<close>

definition stop_ok :: "agent \<Rightarrow> bool" where
  "stop_ok ag \<longleftrightarrow> (buckets (ag_registry ag) = None \<longrightarrow>
     messages (w_queue (ag_world ag)) = [] \<and> sealed (ag_sender ag) (ag_world ag))"

text \<open>
  One step of the reactor that takes in a message with handles \<open>hs\<close> and results \<open>rs\<close>.
\<close>

definition takes :: "CURL list \<Rightarrow> addr set \<Rightarrow> agent \<Rightarrow> agent \<Rightarrow> bool" where
  "takes hs rs ag ag' \<longleftrightarrow> agent_inv ag' \<and> handles ag' = mset hs + handles ag
     \<and> (\<forall>r. settled (ag_world ag) r \<longrightarrow> settled (ag_world ag') r)
     \<and> (\<forall>r \<in> rs \<union> awaited ag. r \<in> awaited ag' \<or> settled (ag_world ag') r)
     \<and> env_ok (ag_world ag') = env_ok (ag_world ag)
     \<and> length (messages (w_queue (ag_world ag'))) \<le> length (messages (w_queue (ag_world ag)))
     \<and> ag_sender ag' = ag_sender ag \<and> ag_multi ag' = ag_multi ag \<and> (stop_ok ag \<longrightarrow> stop_ok ag')"

abbreviation advances :: "agent \<Rightarrow> agent \<Rightarrow> bool" where
  "advances \<equiv> takes [] {}"

lemma advances_refl: "agent_inv ag \<Longrightarrow> advances ag ag"
  by (simp add: takes_def)

lemma takes_trans: "takes hs rs ag ag' \<Longrightarrow> advances ag' ag'' \<Longrightarrow> takes hs rs ag ag''"
  by (simp add: takes_def) blast

section \<open>The registry and the transfers\<close>

lemma mset_filter_key:
  "distinct (map fst xs) \<Longrightarrow> (k, v) \<in> set xs \<Longrightarrow>
   mset xs = add_mset (k, v) (mset (filter (\<lambda>nd. fst nd \<noteq> k) xs))"
proof (induction xs)
  case (Cons x xs)
  show ?case
  proof (cases "x = (k, v)")
    case True
    then have "filter (\<lambda>nd. fst nd \<noteq> k) xs = xs" using Cons.prems(1) by (force simp: filter_id_conv)
    with True show ?thesis by simp
  next
    case False
    with Cons.prems have "(k, v) \<in> set xs" "fst x \<noteq> k" by (auto simp: rev_image_eqI)
    with Cons show ?thesis by (simp add: add_mset_commute)
  qed
qed simp

lemma mset_insert_key:
  assumes "distinct (map fst xs)" "distinct (map fst ys)" "map_of ys = (map_of xs)(k \<mapsto> v)" "map_of xs k = None"
  shows "mset ys = add_mset (k, v) (mset xs)"
proof -
  have k: "k \<notin> fst ` set xs" using assms(4) by (simp add: map_of_eq_None_iff)
  have "x \<in> set ys \<longleftrightarrow> x \<in> set ((k, v) # xs)" for x
  proof (cases x)
    case (Pair i p)
    have "(i, p) \<in> set ys \<longleftrightarrow> map_of ys i = Some p" using assms(2) by simp
    also have "\<dots> \<longleftrightarrow> map_of ((k, v) # xs) i = Some p" using assms(3) by simp
    also have "\<dots> \<longleftrightarrow> (i, p) \<in> set ((k, v) # xs)"
      by (rule map_of_eq_Some_iff) (use assms(1) k in simp)
    finally show ?thesis using Pair by simp
  qed
  then have "set ys = set ((k, v) # xs)" by blast
  moreover have "distinct ys" "distinct ((k, v) # xs)" using assms(1,2) k by (auto simp: distinct_map rev_image_eqI)
  ultimately have "mset ys = mset ((k, v) # xs)" by (simp only: set_eq_iff_mset_eq_distinct)
  then show ?thesis by simp
qed

lemma reg_nodes: "reg_inv r \<Longrightarrow> (i, p) \<in> set (nodes r) \<longleftrightarrow> reg_map r i = Some p"
  by (simp add: reg_map_def reg_inv_def)

lemma handles_drop:
  assumes re: "registered_exactly r T" and p: "T p = Some t" and rem: "registry_remove r (t_id t) = (q, r')"
  shows "q = p" "registered_exactly r' (T(p := None))"
    "registered_handles r T = add_mset (t_easy t) (registered_handles r' (T(p := None)))"
proof -
  have inv: "reg_inv r" and iff: "\<And>i p. reg_map r i = Some p \<longleftrightarrow> (\<exists>t. T p = Some t \<and> t_id t = i)"
    using re by (auto simp: registered_exactly_def)
  note s = remove_spec [OF inv rem]
  have rp: "reg_map r (t_id t) = Some p" using iff p by blast
  then show "q = p" using s(1) by simp
  have iff': "reg_map r' i = Some x \<longleftrightarrow> (\<exists>t. (T(p := None)) x = Some t \<and> t_id t = i)" for i x
  proof (cases "i = t_id t")
    case True
    then have "reg_map r' i = None" using s(3) by simp
    moreover have "x = p" if "T x = Some t'" "t_id t' = t_id t" for t'
      using that rp iff by (metis option.inject)
    ultimately show ?thesis using True by (auto split: if_splits)
  next
    case False
    then have "reg_map r' i = reg_map r i" using s(3) by simp
    moreover have "(\<exists>t. (T(p := None)) x = Some t \<and> t_id t = i) \<longleftrightarrow> (\<exists>t. T x = Some t \<and> t_id t = i)"
      using False p by (cases "x = p") auto
    ultimately show ?thesis using iff [of i x] by simp
  qed
  show "registered_exactly r' (T(p := None))"
    unfolding registered_exactly_def using s(2) iff' by (intro conjI allI)
  have "(t_id t, p) \<in> set (nodes r)" using reg_nodes [OF inv] rp by blast
  moreover have "distinct (map fst (nodes r))" using inv by (simp add: reg_inv_def)
  ultimately have m: "mset (nodes r) = add_mset (t_id t, p) (mset (nodes r'))"
    unfolding s(5) by (intro mset_filter_key)
  have "image_mset (\<lambda>nd. t_easy (the (T (snd nd)))) (mset (nodes r'))
      = image_mset (\<lambda>nd. t_easy (the ((T(p := None)) (snd nd)))) (mset (nodes r'))"
  proof (rule image_mset_cong)
    fix nd
    assume "nd \<in># mset (nodes r')"
    then have "reg_map r' (fst nd) = Some (snd nd)" using reg_nodes [OF s(2), of "fst nd" "snd nd"] by simp
    then have "snd nd \<noteq> p" using iff' by auto
    then show "t_easy (the (T (snd nd))) = t_easy (the ((T(p := None)) (snd nd)))" by simp
  qed
  then show "registered_handles r T = add_mset (t_easy t) (registered_handles r' (T(p := None)))"
    using p by (simp add: registered_handles_def m)
qed

section \<open>Ending one transfer\<close>

lemma agent_coreD:
  assumes "agent_core ag"
  shows "world_ok (ag_world ag)" "ag_sender ag \<noteq> NULL" "channel_ok (ag_sender ag) (ag_world ag)"
    "ag_transfers ag p = Some t \<Longrightarrow> p \<noteq> NULL \<and> transfer_ok (ag_world ag) t"
    "last_private e (w_log (ag_world ag)) NULL = NULL
      \<or> (\<exists>t. ag_transfers ag (last_private e (w_log (ag_world ag)) NULL) = Some t \<and> t_easy t = e)"
    "m \<in> set (messages (w_queue (ag_world ag))) \<Longrightarrow> message_ok (ag_world ag) m"
  using assms by (auto simp: agent_core_def Let_def)

lemma core_calm:
  assumes core: "agent_core ag" and calm: "calm evs (ag_world ag) w"
    and T: "\<And>p t. T p = Some t \<Longrightarrow> p \<noteq> NULL \<and> transfer_ok (ag_world ag) t"
    and priv: "\<And>e. let p = last_private e evs (last_private e (w_log (ag_world ag)) NULL)
      in p = NULL \<or> (\<exists>t. T p = Some t \<and> t_easy t = e)"
  shows "agent_core (ag\<lparr>ag_world := w, ag_transfers := T, ag_registry := r\<rparr>)"
proof -
  note d = agent_coreD [OF core] and c = calmD [OF calm]
  have m: "message_ok w = message_ok (ag_world ag)"
  proof
    fix m
    show "message_ok w m = message_ok (ag_world ag) m" by (cases m) (simp_all add: objects_calm [OF calm])
  qed
  have "channel_ok (ag_sender ag) w" using d(3) c(2,3) by (simp add: channel_ok_def)
  then show ?thesis
    using d(2,6) c(1,2) T priv m by (simp add: agent_core_def objects_calm [OF calm] calm_logs [OF calm])
qed

lemma reported_log [simp]: "reported_code (log_calls evs w) = reported_code w"
  by (simp add: reported_code_def fun_eq_iff)

lemma finish_transfer_law:
  assumes core: "agent_core ag" and env: "env_ok (ag_world ag) env" and t: "ag_transfers ag tp = Some t"
  shows "\<exists>w. finish_detached_transfer env tp code ag
      = Some (ag\<lparr>ag_world := w, ag_transfers := (ag_transfers ag)(tp := None)\<rparr>)
    \<and> calm [CurlEasySetPrivate (t_easy t) NULL, CurlEasyCleanup (t_easy t)] (ag_world ag) w
    \<and> settled w (t_result t) \<and> stream_done w (t_download t) \<and> stream_done w (t_upload t)
    \<and> (\<forall>d. w_results (ag_world ag) (t_result t) = Some d \<and> \<not> completed d \<longrightarrow>
        map_option curl_code (w_results w (t_result t))
          = Some (reported_code (ag_world ag) (t_download t) (t_upload t) code))"
proof -
  let ?W = "ag_world ag" and ?e = "t_easy t"
  have nt: "tp \<noteq> NULL" and tok: "transfer_ok ?W t" using agent_coreD(4) [OF core t] by blast+
  define w0 where "w0 = (if t_active t then log_calls [CurlMultiRemoveHandle ?e] ?W else ?W)"
  have c0: "calm [] ?W w0"
    using calm_log [OF agent_coreD(1) [OF core], of "[CurlMultiRemoveHandle ?e]"]
      calm_refl [OF agent_coreD(1) [OF core]] by (simp add: w0_def)
  have str: "w_streams w0 = w_streams ?W" "w_results w0 = w_results ?W" "reported_code w0 = reported_code ?W"
    by (auto simp: w0_def) (simp add: log_calls_def)
  have tok0: "transfer_ok w0 t" using tok objects_calm(2) [OF c0] by simp
  have pts: "points_to (t_result t) (w_results w0)" "points_to (t_metrics t) (w_metrics w0)"
    "points_to (t_download t) (w_streams w0)" "points_to (t_upload t) (w_streams w0)" "t_result t \<noteq> NULL"
    using tok0 by (auto simp: transfer_ok_def points_to_def)
  obtain c where c: "normalize_completion (t_download t) code w0 = Some c"
    "normalize_completion (t_upload t) c w0 = Some (reported_code w0 (t_download t) (t_upload t) code)"
    using normalize_defined [OF pts(3,4)] by blast
  let ?rc = "reported_code w0 (t_download t) (t_upload t) code"
  from end_objects [OF calmD(1) [OF c0] env_okD(1) [OF env, of ?e] pts(1-4), of ?rc
      "[CurlEasySetPrivate ?e NULL]" "[CurlEasyCleanup ?e]"]
  obtain w1 w2 w4 w5 w6 where w: "finish_metrics env (t_metrics t) ?e w0 = Some w1"
    "set_result env (t_result t) ?e ?rc w1 = Some w2"
    "hcurl_stream_complete (t_download t) ?rc (log_calls [CurlEasySetPrivate ?e NULL] w2) = Some w4"
    "hcurl_stream_complete (t_upload t) ?rc w4 = Some w5"
    "wake_result (t_result t) (log_calls [CurlEasyCleanup ?e] w5) = Some w6"
    "calm [CurlEasySetPrivate ?e NULL, CurlEasyCleanup ?e] w0 w6" "stream_done w6 (t_download t)"
    "stream_done w6 (t_upload t)" "settled w6 (t_result t)"
    "\<forall>d. w_results w0 (t_result t) = Some d \<and> \<not> completed d \<longrightarrow>
          map_option curl_code (w_results w6 (t_result t)) = Some ?rc"
    using pts(5) by auto
  have "finish_detached_transfer env tp code ag
      = Some (ag\<lparr>ag_world := w6, ag_transfers := (ag_transfers ag)(tp := None)\<rparr>)"
    using nt t c w(1-5) by (simp add: finish_detached_transfer_def w0_def [symmetric])
  then show ?thesis using w(6-10) str calm_silent(1) [OF c0 w(6)] by auto
qed

lemma finish_core:
  assumes core: "agent_core ag" and t: "ag_transfers ag tp = Some t"
    and calm: "calm [CurlEasySetPrivate (t_easy t) NULL, CurlEasyCleanup (t_easy t)] (ag_world ag) w"
  shows "agent_core (ag\<lparr>ag_world := w, ag_transfers := (ag_transfers ag)(tp := None), ag_registry := r\<rparr>)"
proof (rule core_calm [OF core calm])
  let ?T = "(ag_transfers ag)(tp := None)"
  show "?T p = Some u \<Longrightarrow> p \<noteq> NULL \<and> transfer_ok (ag_world ag) u" for p u
    using agent_coreD(4) [OF core] by (simp split: if_splits)
  show "let p = last_private e [CurlEasySetPrivate (t_easy t) NULL, CurlEasyCleanup (t_easy t)]
      (last_private e (w_log (ag_world ag)) NULL) in p = NULL \<or> (\<exists>t. ?T p = Some t \<and> t_easy t = e)" for e
    using agent_coreD(5) [OF core, of e] t by (auto simp: Let_def)
qed

lemma agent_invD:
  assumes "agent_inv ag"
  shows "agent_core ag" "registered_exactly (ag_registry ag) (ag_transfers ag)" "reg_inv (ag_registry ag)"
    "reg_map (ag_registry ag) i = Some p \<longleftrightarrow> (\<exists>t. ag_transfers ag p = Some t \<and> t_id t = i)"
  using assms unfolding agent_inv_def registered_exactly_def by blast+

text \<open>A calm step is a step of the agent, if it leaves the private pointers consistent.\<close>

lemma awaited_calm:
  assumes "w_queue w = w_queue (ag_world ag)"
    and "\<And>p t. ag_transfers ag p = Some t \<Longrightarrow> T p = Some t \<or> settled w (t_result t)"
    and "r \<in> awaited ag"
  shows "r \<in> awaited (ag\<lparr>ag_world := w, ag_transfers := T, ag_registry := R\<rparr>) \<or> settled w r"
proof (cases "r \<in> (\<Union>m \<in> set (messages (w_queue (ag_world ag))). message_results m)")
  case True
  with assms(1) show ?thesis by (auto simp: awaited_def)
next
  case False
  then obtain p t where "ag_transfers ag p = Some t" "r = t_result t" using assms(3) by (auto simp: awaited_def)
  with assms(2) [of p t] show ?thesis by (auto simp: awaited_def)
qed

lemma takes_calm:
  assumes core: "agent_core ag" and calm: "calm evs (ag_world ag) w"
    and core': "agent_core (ag\<lparr>ag_world := w, ag_transfers := T, ag_registry := R\<rparr>)"
    and reg: "registered_exactly R T"
    and hs: "mset (cleaned evs) + registered_handles R T
      = mset hs + registered_handles (ag_registry ag) (ag_transfers ag)"
    and kept: "\<And>p t. ag_transfers ag p = Some t \<Longrightarrow> T p = Some t \<or> settled w (t_result t)"
    and rs: "\<And>r. r \<in> rs \<Longrightarrow> settled w r \<or> (\<exists>p t. T p = Some t \<and> r = t_result t)"
    and stop: "buckets R = None \<longrightarrow> buckets (ag_registry ag) = None"
  shows "takes hs rs ag (ag\<lparr>ag_world := w, ag_transfers := T, ag_registry := R\<rparr>)"
proof -
  let ?ag = "ag\<lparr>ag_world := w, ag_transfers := T, ag_registry := R\<rparr>"
  note c = calmD [OF calm]
  have "agent_inv ?ag" using core' reg by (simp add: agent_inv_def)
  moreover have "handles ?ag = mset hs + handles ag"
    using hs by (simp add: handles_def c(2) calm_logs [OF calm] ac_simps)
  moreover have "r \<in> awaited ?ag \<or> settled w r" if "r \<in> rs \<union> awaited ag" for r
    using that rs [of r] awaited_calm [where r = r and R = R and T = T, OF c(2) kept]
    by (auto simp: awaited_def)
  moreover have "stop_ok ag \<longrightarrow> stop_ok ?ag" using stop c(2,3) by (simp add: stop_ok_def sealed_def)
  ultimately show ?thesis using c(2,8) env_calm [OF calm] by (simp add: takes_def)
qed

text \<open>The transfer at \<open>tp\<close> is taken out of the registry and ended.\<close>

lemma end_registered:
  assumes inv: "agent_inv ag" and env: "env_ok (ag_world ag) env" and t: "ag_transfers ag tp = Some t"
    and rem: "registry_remove (ag_registry ag) (t_id t) = (q, r)"
  shows "q = tp \<and> (\<exists>ag'. finish_detached_transfer env tp code (ag\<lparr>ag_registry := r\<rparr>) = Some ag' \<and> advances ag ag'
    \<and> ag_transfers ag' = (ag_transfers ag)(tp := None) \<and> settled (ag_world ag') (t_result t)
    \<and> stream_done (ag_world ag') (t_download t) \<and> stream_done (ag_world ag') (t_upload t)
    \<and> w_queue (ag_world ag') = w_queue (ag_world ag)
    \<and> (\<forall>d. w_results (ag_world ag) (t_result t) = Some d \<and> \<not> completed d \<longrightarrow>
        map_option curl_code (w_results (ag_world ag') (t_result t))
          = Some (reported_code (ag_world ag) (t_download t) (t_upload t) code)))"
proof -
  note core = agent_invD(1) [OF inv]
  note drop = handles_drop [OF agent_invD(2) [OF inv] t rem]
  let ?T = "(ag_transfers ag)(tp := None)" and ?e = "t_easy t"
  let ?evs = "[CurlEasySetPrivate ?e NULL, CurlEasyCleanup ?e]"
  have core1: "agent_core (ag\<lparr>ag_registry := r\<rparr>)" using core by (simp add: agent_core_def)
  obtain w where w: "finish_detached_transfer env tp code (ag\<lparr>ag_registry := r\<rparr>)
      = Some (ag\<lparr>ag_registry := r, ag_world := w, ag_transfers := ?T\<rparr>)"
    "calm ?evs (ag_world ag) w" "settled w (t_result t)" "stream_done w (t_download t)" "stream_done w (t_upload t)"
    "\<forall>d. w_results (ag_world ag) (t_result t) = Some d \<and> \<not> completed d \<longrightarrow>
        map_option curl_code (w_results w (t_result t))
          = Some (reported_code (ag_world ag) (t_download t) (t_upload t) code)"
    using finish_transfer_law [OF core1, of env tp t code] env t by auto
  let ?ag = "ag\<lparr>ag_world := w, ag_transfers := ?T, ag_registry := r\<rparr>"
  have core': "agent_core ?ag" using finish_core [OF core t w(2)] .
  have adv: "advances ag ?ag"
    by (rule takes_calm [OF core w(2) core' drop(2)])
      (use drop(3) t w(3) remove_spec(4) [OF agent_invD(3) [OF inv] rem] in auto)
  have "finish_detached_transfer env tp code (ag\<lparr>ag_registry := r\<rparr>) = Some ?ag" using w(1) by simp
  then show ?thesis using adv drop(1) w(3-6) calmD(2) [OF w(2)] by (intro conjI exI [of _ ?ag]) simp_all
qed

definition payload_results :: "execute_payload \<Rightarrow> addr set" where
  "payload_results pl = {p_result pl} - {NULL}"

lemma fail_core:
  assumes core: "agent_core ag" and env: "env_ok (ag_world ag) env" and pl: "payload_ok (ag_world ag) pl"
  shows "\<exists>w. fail_payload env pl code ag = Some (ag\<lparr>ag_world := w\<rparr>) \<and> agent_core (ag\<lparr>ag_world := w\<rparr>)
    \<and> calm (if p_easy pl = NULL then [] else [CurlEasyCleanup (p_easy pl)]) (ag_world ag) w
    \<and> (p_result pl \<noteq> NULL \<longrightarrow> settled w (p_result pl)) \<and> stream_done w (p_download_stream pl)
    \<and> stream_done w (p_upload_stream pl)
    \<and> (\<forall>d. p_result pl \<noteq> NULL \<and> w_results (ag_world ag) (p_result pl) = Some d \<and> \<not> completed d \<longrightarrow>
        map_option curl_code (w_results w (p_result pl)) = Some code)"
proof -
  let ?W = "ag_world ag" and ?e = "p_easy pl"
  let ?ys = "if ?e \<noteq> NULL then [CurlEasyCleanup ?e] else []"
  have pts: "points_to (p_result pl) (w_results ?W)" "points_to (p_metrics pl) (w_metrics ?W)"
    "points_to (p_download_stream pl) (w_streams ?W)" "points_to (p_upload_stream pl) (w_streams ?W)"
    using pl by (auto simp: payload_ok_def)
  from end_objects [OF agent_coreD(1) [OF core] env_okD(1) [OF env, of ?e] pts, of code "[]" ?ys]
  obtain w1 w2 w4 w5 w where w: "finish_metrics env (p_metrics pl) ?e ?W = Some w1"
    "set_result env (p_result pl) ?e code w1 = Some w2"
    "hcurl_stream_complete (p_download_stream pl) code w2 = Some w4"
    "hcurl_stream_complete (p_upload_stream pl) code w4 = Some w5"
    "wake_result (p_result pl) (log_calls ?ys w5) = Some w" "calm (owner_calls ?ys) ?W w"
    "stream_done w (p_download_stream pl)" "stream_done w (p_upload_stream pl)"
    "p_result pl \<noteq> NULL \<longrightarrow> settled w (p_result pl) \<and>
      (\<forall>d. w_results ?W (p_result pl) = Some d \<and> \<not> completed d \<longrightarrow>
        map_option curl_code (w_results w (p_result pl)) = Some code)"
    by auto
  let ?evs = "if ?e = NULL then [] else [CurlEasyCleanup ?e]"
  have calm: "calm ?evs ?W w" using w(6) by (simp split: if_splits)
  have e: "fail_payload env pl code ag = Some (ag\<lparr>ag_world := w\<rparr>)"
    using w(1-5) by (cases "?e = NULL") (simp_all add: fail_payload_def fail_unregistered_transfer_def)
  have "last_private x ?evs p = p" for x p by simp
  then have "agent_core (ag\<lparr>ag_world := w, ag_transfers := ag_transfers ag, ag_registry := ag_registry ag\<rparr>)"
    using agent_coreD(4,5) [OF core] by (intro core_calm [OF core calm]) (auto simp: Let_def)
  then show ?thesis using e calm w(7-9) by auto
qed

lemma fail_law:
  assumes inv: "agent_inv ag" and env: "env_ok (ag_world ag) env" and pl: "payload_ok (ag_world ag) pl"
  shows "\<exists>w. fail_payload env pl code ag = Some (ag\<lparr>ag_world := w\<rparr>)
    \<and> takes (message_handles (Execute pl)) (payload_results pl) ag (ag\<lparr>ag_world := w\<rparr>)"
proof -
  note core = agent_invD(1) [OF inv]
  let ?evs = "if p_easy pl = NULL then [] else [CurlEasyCleanup (p_easy pl)]"
  obtain w where w: "fail_payload env pl code ag = Some (ag\<lparr>ag_world := w\<rparr>)" "agent_core (ag\<lparr>ag_world := w\<rparr>)"
    "calm ?evs (ag_world ag) w" "p_result pl \<noteq> NULL \<longrightarrow> settled w (p_result pl)"
    using fail_core [OF core env pl] by blast
  have core': "agent_core (ag\<lparr>ag_world := w, ag_transfers := ag_transfers ag, ag_registry := ag_registry ag\<rparr>)"
    using w(2) by simp
  have "takes (message_handles (Execute pl)) (payload_results pl) ag
      (ag\<lparr>ag_world := w, ag_transfers := ag_transfers ag, ag_registry := ag_registry ag\<rparr>)"
    using w(4) by (intro takes_calm [OF core w(3) core' agent_invD(2) [OF inv]]) (auto simp: payload_results_def)
  then show ?thesis using w(1) by (intro exI [of _ w]) simp
qed

section \<open>The steps of the reactor\<close>

lemma silent_advance:
  assumes inv: "agent_inv ag" and calm: "calm [] (ag_world ag) w"
  shows "advances ag (ag\<lparr>ag_world := w\<rparr>)"
proof -
  note core = agent_invD(1) [OF inv]
  have core': "agent_core (ag\<lparr>ag_world := w, ag_transfers := ag_transfers ag, ag_registry := ag_registry ag\<rparr>)"
    using agent_coreD(4,5) [OF core] by (intro core_calm [OF core calm]) (auto simp: Let_def)
  have "advances ag (ag\<lparr>ag_world := w, ag_transfers := ag_transfers ag, ag_registry := ag_registry ag\<rparr>)"
    by (rule takes_calm [OF core calm core' agent_invD(2) [OF inv]]) auto
  then show ?thesis by simp
qed

lemma takesD:
  assumes "takes hs rs ag ag'"
  shows "agent_inv ag'" "env_ok (ag_world ag') = env_ok (ag_world ag)"
    "length (messages (w_queue (ag_world ag'))) \<le> length (messages (w_queue (ag_world ag)))"
    "handles ag' = mset hs + handles ag" "settled (ag_world ag) r \<Longrightarrow> settled (ag_world ag') r"
    "r \<in> rs \<or> r \<in> awaited ag \<Longrightarrow> r \<in> awaited ag' \<or> settled (ag_world ag') r"
    "ag_sender ag' = ag_sender ag" "ag_multi ag' = ag_multi ag" "stop_ok ag \<Longrightarrow> stop_ok ag'"
  using assms by (auto simp: takes_def)

lemma complete_transfer_law:
  assumes inv: "agent_inv ag" and env: "env_ok (ag_world ag) env"
  shows "\<exists>ag'. complete_transfer env easy code ag = Some ag' \<and> advances ag ag'
    \<and> w_queue (ag_world ag') = w_queue (ag_world ag)"
proof -
  obtain i p where g: "en_get_private env (w_log (ag_world ag)) easy = (i, p)"
    by (cases "en_get_private env (w_log (ag_world ag)) easy")
  show ?thesis
  proof (cases "easy = NULL \<or> i \<noteq> CURLE_OK \<or> p = NULL")
    case True
    then show ?thesis using g advances_refl [OF inv] by (auto simp: complete_transfer_def)
  next
    case False
    with g env_okD(2) [OF env] have "p = last_private easy (w_log (ag_world ag)) NULL" by blast
    with False agent_coreD(5) [OF agent_invD(1) [OF inv], of easy] obtain t where t: "ag_transfers ag p = Some t"
      by auto
    obtain q r where rem: "registry_remove (ag_registry ag) (t_id t) = (q, r)"
      by (cases "registry_remove (ag_registry ag) (t_id t)")
    from end_registered [OF inv env t rem, of code] show ?thesis
      using False g t rem by (auto simp: complete_transfer_def)
  qed
qed

lemma check_multi_info_law:
  assumes inv: "agent_inv ag" and env: "env_ok (ag_world ag) env"
  shows "\<exists>ag'. check_multi_info env ag = Some ag' \<and> advances ag ag'
    \<and> w_queue (ag_world ag') = w_queue (ag_world ag)"
proof -
  have "\<exists>ag'. multi_info_loop env ms ag = Some ag' \<and> advances ag ag' \<and> w_queue (ag_world ag') = w_queue (ag_world ag)"
    for ms using inv env
  proof (induction ms arbitrary: ag)
    case Nil
    then show ?case using advances_refl by auto
  next
    case (Cons m ms)
    show ?case
    proof (cases m)
      case (MsgDone easy code)
      obtain ag1 where a: "complete_transfer env easy code ag = Some ag1" "advances ag ag1"
        "w_queue (ag_world ag1) = w_queue (ag_world ag)" using complete_transfer_law [OF Cons.prems] by blast
      have "env_ok (ag_world ag1) env" using takesD(2) [OF a(2)] Cons.prems(2) by simp
      from Cons.IH [OF takesD(1) [OF a(2)] this] obtain ag2 where
        b: "multi_info_loop env ms ag1 = Some ag2" "advances ag1 ag2"
          "w_queue (ag_world ag2) = w_queue (ag_world ag1)" by blast
      then show ?thesis using MsgDone a takes_trans [OF a(2) b(2)] by simp
    next
      case MsgOther
      then show ?thesis using Cons by simp
    qed
  qed
  then show ?thesis using advances_refl [OF inv] by (simp add: check_multi_info_def)
qed

text \<open>Ending the transfer with a registered id, as four functions do.\<close>

lemma end_by_id:
  assumes inv: "agent_inv ag" and env: "env_ok (ag_world ag) env" and rem: "registry_remove (ag_registry ag) tid = (q, r)"
  shows "\<exists>ag'. finish_detached_transfer env q code (ag\<lparr>ag_registry := r\<rparr>) = Some ag' \<and> advances ag ag'
    \<and> w_queue (ag_world ag') = w_queue (ag_world ag)"
    "q = NULL \<Longrightarrow> r = ag_registry ag"
proof -
  note s = remove_spec [OF agent_invD(3) [OF inv] rem]
  show same: "r = ag_registry ag" if "q = NULL"
    using rem that s(1) reg_map_not_null [OF agent_invD(3) [OF inv]]
    by (auto simp: registry_remove_def Let_def split: option.splits if_splits prod.splits)
  show "\<exists>ag'. finish_detached_transfer env q code (ag\<lparr>ag_registry := r\<rparr>) = Some ag' \<and> advances ag ag'
    \<and> w_queue (ag_world ag') = w_queue (ag_world ag)"
  proof (cases "reg_map (ag_registry ag) tid")
    case None
    then have "q = NULL" using s(1) by simp
    with same show ?thesis using advances_refl [OF inv] by (simp add: finish_detached_transfer_def)
  next
    case (Some p)
    then obtain t where t: "ag_transfers ag p = Some t" "t_id t = tid" using agent_invD(4) [OF inv] by blast
    from end_registered [OF inv env t(1), of q r code] rem t(2) show ?thesis by auto
  qed
qed

lemma cancel_transfer_law:
  assumes inv: "agent_inv ag" and env: "env_ok (ag_world ag) env"
  shows "\<exists>ag'. cancel_transfer env tid ag = Some ag' \<and> advances ag ag'"
proof -
  obtain q r where rem: "registry_remove (ag_registry ag) tid = (q, r)"
    by (cases "registry_remove (ag_registry ag) tid")
  from end_by_id [OF inv env rem] show ?thesis
    using rem advances_refl [OF inv] by (cases "q = NULL") (auto simp: cancel_transfer_def)
qed

lemma legacy_law:
  assumes inv: "agent_inv ag" and env: "env_ok (ag_world ag) env"
  shows "\<exists>code w. drive_legacy_multi (en_socket_all env) (ag_world ag) = Some (code, w)
    \<and> advances ag (ag\<lparr>ag_world := w\<rparr>)"
  using calm_drive [OF agent_coreD(1) [OF agent_invD(1) [OF inv]] env_okD(4,5) [OF env]]
    silent_advance [OF inv] by blast

lemma resume_transfer_law:
  assumes inv: "agent_inv ag" and env: "env_ok (ag_world ag) env"
  shows "\<exists>ag'. resume_transfer env tid ag = Some ag' \<and> advances ag ag'"
proof -
  let ?tp = "registry_find (ag_registry ag) tid"
  show ?thesis
  proof (cases "?tp = NULL")
    case True
    then show ?thesis using advances_refl [OF inv] by (simp add: resume_transfer_def)
  next
    case False
    then obtain p where p: "reg_map (ag_registry ag) tid = Some p" "?tp = p"
      using find_spec [OF agent_invD(3) [OF inv]] by (auto split: option.splits)
    then obtain t where t: "ag_transfers ag p = Some t" using agent_invD(4) [OF inv] by blast
    obtain cbs code where pc: "en_pause env (t_easy t) = (cbs, code)" by (cases "en_pause env (t_easy t)")
    let ?w0 = "log_calls [CurlEasyPause (t_easy t) CURLPAUSE_CONT] (ag_world ag)"
    have c0: "calm [] (ag_world ag) ?w0"
      using calm_log [OF agent_coreD(1) [OF agent_invD(1) [OF inv]], of "[CurlEasyPause (t_easy t) CURLPAUSE_CONT]"] by simp
    have "list_all (callback_ok ?w0) cbs"
      using env_okD(3) [OF env, of "t_easy t"] pc callback_ok_calm [OF c0] by simp
    from calm_callbacks [OF calmD(1) [OF c0] this] obtain w1 where
      w1: "run_callbacks cbs ?w0 = Some w1" "calm [] ?w0 w1" by blast
    let ?ag1 = "ag\<lparr>ag_world := w1\<rparr>"
    have a1: "advances ag ?ag1" using silent_advance [OF inv calm_silent(1) [OF c0 w1(2)]] .
    note inv1 = takesD(1) [OF a1]
    have env1: "env_ok (ag_world ?ag1) env" using takesD(2) [OF a1] env by simp
    obtain code2 w2 where w2: "drive_legacy_multi (en_socket_all env) w1 = Some (code2, w2)"
      "advances ?ag1 (?ag1\<lparr>ag_world := w2\<rparr>)" using legacy_law [OF inv1 env1] by auto
    let ?ag2 = "ag\<lparr>ag_world := w2\<rparr>"
    have a2: "advances ag ?ag2" using takes_trans [OF a1 w2(2)] by simp
    note inv2 = takesD(1) [OF a2]
    have env2: "env_ok (ag_world ?ag2) env" using takesD(2) [OF a2] env by simp
    obtain q r where rem: "registry_remove (ag_registry ag) tid = (q, r)"
      by (cases "registry_remove (ag_registry ag) tid")
    have rem1: "registry_remove (ag_registry ?ag1) tid = (q, r)" "registry_remove (ag_registry ?ag2) tid = (q, r)"
      using rem by simp_all
    obtain b1 where b1: "finish_detached_transfer env q code (?ag1\<lparr>ag_registry := r\<rparr>) = Some b1" "advances ?ag1 b1"
      using end_by_id(1) [OF inv1 env1 rem1(1), of code] by blast
    obtain b2 where b2: "finish_detached_transfer env q CURLE_RECV_ERROR (?ag2\<lparr>ag_registry := r\<rparr>) = Some b2" "advances ?ag2 b2"
      using end_by_id(1) [OF inv2 env2 rem1(2), of CURLE_RECV_ERROR] by blast
    obtain b3 where b3: "check_multi_info env ?ag2 = Some b3" "advances ?ag2 b3"
      using check_multi_info_law [OF inv2 env2] by blast
    obtain b4 where b4: "check_multi_info env ?ag1 = Some b4" "advances ?ag1 b4"
      using check_multi_info_law [OF inv1 env1] by blast
    show ?thesis
      using False p t pc w1(1) w2(1) rem b1(1) b2(1) b3(1) b4(1) advances_refl [OF inv] takes_trans [OF a1 b1(2)]
        takes_trans [OF a2 b2(2)] takes_trans [OF a2 b3(2)] takes_trans [OF a1 b4(2)]
      by (simp add: resume_transfer_def Let_def)
  qed
qed

section \<open>Submission\<close>

lemma takes_trans2: "advances ag ag' \<Longrightarrow> takes hs rs ag' ag'' \<Longrightarrow> takes hs rs ag ag''"
  by (simp add: takes_def) blast

lemma insert_cases:
  assumes "registry_insert ok r tid p = (b, r')"
  shows "b \<Longrightarrow> buckets r \<noteq> None \<and> p \<noteq> NULL \<and> registry_find r tid = NULL" "\<not> b \<Longrightarrow> r' = r"
  using assms by (auto simp: registry_insert_def Let_def split: if_splits)

lemma inserted:
  assumes inv: "agent_inv ag" and ins: "registry_insert ok (ag_registry ag) tid tp = (True, r)"
    and new: "tid \<noteq> 0" "ag_transfers ag tp = None" and t: "t_id t = tid"
  shows "registered_exactly r ((ag_transfers ag)(tp \<mapsto> t))"
    "registered_handles r ((ag_transfers ag)(tp \<mapsto> t))
      = add_mset (t_easy t) (registered_handles (ag_registry ag) (ag_transfers ag))"
    "mset (nodes r) = add_mset (tid, tp) (mset (nodes (ag_registry ag)))" "reg_map (ag_registry ag) tid = None"
proof -
  let ?R = "ag_registry ag" and ?T = "ag_transfers ag"
  note ri = agent_invD(3) [OF inv] and iff = agent_invD(4) [OF inv]
  note c = insert_cases(1) [OF ins TrueI]
  show none: "reg_map ?R tid = None" using c find_NULL [OF ri] by blast
  obtain r' where r': "registry_insert ok ?R tid tp = (True, r')" "reg_inv r'" "reg_map r' = (reg_map ?R)(tid \<mapsto> tp)"
    using insert_spec [OF ri _ none, of tp ok] c new(1) by blast
  then have r: "reg_inv r" "reg_map r = (reg_map ?R)(tid \<mapsto> tp)" using ins by auto
  have "reg_map r i = Some p \<longleftrightarrow> (\<exists>u. (?T(tp \<mapsto> t)) p = Some u \<and> t_id u = i)" for i p
  proof (cases "p = tp")
    case True
    have "reg_map ?R i \<noteq> Some tp" using iff [of i tp] new(2) by simp
    then show ?thesis using True r(2) t by (auto split: if_splits)
  next
    case False
    have "reg_map ?R tid \<noteq> Some p" using none by simp
    then show ?thesis using False r(2) iff [of i p] none by (auto split: if_splits)
  qed
  then show "registered_exactly r (?T(tp \<mapsto> t))" unfolding registered_exactly_def using r(1) by (intro conjI allI)
  show m: "mset (nodes r) = add_mset (tid, tp) (mset (nodes ?R))"
    using r none ri by (intro mset_insert_key) (simp_all add: reg_inv_def reg_map_def)
  have "image_mset (\<lambda>nd. t_easy (the ((?T(tp \<mapsto> t)) (snd nd)))) (mset (nodes ?R))
      = image_mset (\<lambda>nd. t_easy (the (?T (snd nd)))) (mset (nodes ?R))"
  proof (rule image_mset_cong)
    fix nd
    assume "nd \<in># mset (nodes ?R)"
    then have "reg_map ?R (fst nd) = Some (snd nd)" using reg_nodes [OF ri, of "fst nd" "snd nd"] by simp
    then have "snd nd \<noteq> tp" using iff new(2) by auto
    then show "t_easy (the ((?T(tp \<mapsto> t)) (snd nd))) = t_easy (the (?T (snd nd)))" by simp
  qed
  then show "registered_handles r (?T(tp \<mapsto> t))
      = add_mset (t_easy t) (registered_handles ?R ?T)" by (simp add: registered_handles_def m)
qed

lemma inserted_buckets:
  assumes inv: "agent_inv ag" and ins: "registry_insert ok (ag_registry ag) tid tp = (True, r)" and "tid \<noteq> 0"
  shows "buckets r \<noteq> None"
proof -
  note ri = agent_invD(3) [OF inv] and c = insert_cases(1) [OF ins TrueI]
  have "reg_map (ag_registry ag) tid = None" using c find_NULL [OF ri] by blast
  then show ?thesis using insert_spec [OF ri _ _ _ assms(3), of tp ok] c ins by auto
qed

text \<open>A submission taken back out of the registry.\<close>

lemma insert_remove:
  assumes inv: "agent_inv ag" and ins: "registry_insert ok (ag_registry ag) tid tp = (True, r)"
    and new: "tid \<noteq> 0" "ag_transfers ag tp = None"
  shows "advances ag (ag\<lparr>ag_registry := snd (registry_remove r tid)\<rparr>)"
proof -
  define t where "t = \<lparr>t_id = tid, t_easy = 1, t_result = 0, t_metrics = 0, t_download = 0, t_upload = 0,
    t_active = False\<rparr>"
  define T where "T = (ag_transfers ag)(tp \<mapsto> t)"
  obtain q r2 where rem: "registry_remove r tid = (q, r2)" by (cases "registry_remove r tid")
  have tid: "t_id t = tid" by (simp add: t_def)
  note i = inserted [OF inv ins new tid, folded T_def]
  have "T tp = Some t" by (simp add: T_def)
  note d = handles_drop [OF i(1) this, unfolded tid, OF rem]
  have undone: "T(tp := None) = ag_transfers ag" using new(2) by (auto simp: T_def)
  have reg: "registered_exactly r2 (ag_transfers ag)"
    "registered_handles r2 (ag_transfers ag) = registered_handles (ag_registry ag) (ag_transfers ag)"
    using d(2,3) i(2) unfolding undone by simp_all
  have core: "agent_core ag" using agent_invD(1) [OF inv] .
  have core': "agent_core (ag\<lparr>ag_world := ag_world ag, ag_transfers := ag_transfers ag, ag_registry := r2\<rparr>)"
    using core by (simp add: agent_core_def)
  have "advances ag (ag\<lparr>ag_world := ag_world ag, ag_transfers := ag_transfers ag, ag_registry := r2\<rparr>)"
    by (rule takes_calm [OF core calm_refl [OF agent_coreD(1) [OF core]] core' reg(1)])
      (use reg(2) remove_spec(4) [OF _ rem] i(1) inserted_buckets [OF inv ins new(1)] in \<open>auto simp: registered_exactly_def\<close>)
  then show ?thesis by (simp add: rem)
qed

lemma insert_step:
  assumes inv: "agent_inv ag" and ins: "registry_insert ok (ag_registry ag) (p_transfer_id pl) tp = (True, r)"
    and new: "ag_transfers ag tp = None" "p_easy pl \<noteq> NULL" "p_result pl \<noteq> NULL" "p_transfer_id pl \<noteq> 0"
    and pl: "payload_ok (ag_world ag) pl" and calm: "calm [CurlEasySetPrivate (p_easy pl) tp] (ag_world ag) w"
    and t: "t = (new_transfer pl)\<lparr>t_active := a\<rparr>"
  shows "takes (message_handles (Execute pl)) (payload_results pl) ag
    (ag\<lparr>ag_world := w, ag_transfers := (ag_transfers ag)(tp \<mapsto> t), ag_registry := r\<rparr>)"
proof -
  note core = agent_invD(1) [OF inv]
  have f: "t_id t = p_transfer_id pl" "t_easy t = p_easy pl" "t_result t = p_result pl"
    by (simp_all add: t new_transfer_def)
  note i = inserted [OF inv ins new(4,1) f(1)]
  have tp: "tp \<noteq> NULL" using insert_cases(1) [OF ins] by blast
  have tok: "transfer_ok (ag_world ag) t"
    using pl new by (auto simp: transfer_ok_def payload_ok_def points_to_def t new_transfer_def)
  have core': "agent_core (ag\<lparr>ag_world := w, ag_transfers := (ag_transfers ag)(tp \<mapsto> t), ag_registry := r\<rparr>)"
  proof (rule core_calm [OF core calm])
    show "((ag_transfers ag)(tp \<mapsto> t)) p = Some u \<Longrightarrow> p \<noteq> NULL \<and> transfer_ok (ag_world ag) u" for p u
      using agent_coreD(4) [OF core] tok tp by (auto split: if_splits)
    show "let p = last_private e [CurlEasySetPrivate (p_easy pl) tp] (last_private e (w_log (ag_world ag)) NULL)
      in p = NULL \<or> (\<exists>u. ((ag_transfers ag)(tp \<mapsto> t)) p = Some u \<and> t_easy u = e)" for e
      using agent_coreD(5) [OF core, of e] f(2) new(1) by (auto simp: Let_def)
  qed
  show ?thesis
  proof (rule takes_calm [OF core calm core' i(1)])
    show "ag_transfers ag p = Some u \<Longrightarrow> ((ag_transfers ag)(tp \<mapsto> t)) p = Some u \<or> settled w (t_result u)" for p u
      using new(1) by auto
    show "x \<in> payload_results pl \<Longrightarrow> settled w x \<or> (\<exists>p u. ((ag_transfers ag)(tp \<mapsto> t)) p = Some u \<and> x = t_result u)" for x
      using f(3) by (auto simp: payload_results_def)
    show "buckets r = None \<longrightarrow> buckets (ag_registry ag) = None" using inserted_buckets [OF inv ins new(4)] by auto
  qed (use i(2) new(2) f(2) in simp)
qed

text \<open>A submission with all its pointers, for which a transfer was allocated.\<close>

lemma execute_inserted:
  assumes inv: "agent_inv ag" and env: "env_ok (ag_world ag) env" and pl: "payload_ok (ag_world ag) pl"
    and args: "p_easy pl \<noteq> NULL" "p_result pl \<noteq> NULL" "p_transfer_id pl \<noteq> 0"
    and tp: "tp = en_transfer env (ag_transfers ag)" "ag_transfers ag tp = None" "tp \<noteq> NULL"
    and ins: "registry_insert (en_resize env) (ag_registry ag) (p_transfer_id pl) tp = (True, r)"
    and priv: "en_set_private env (p_easy pl) = CURLE_OK"
  shows "\<exists>ag'. execute_transfer env pl ag = Some ag'
    \<and> takes (message_handles (Execute pl)) (payload_results pl) ag ag'"
proof -
  let ?e = "p_easy pl" and ?W = "ag_world ag" and ?T = "ag_transfers ag" and ?t = "new_transfer pl"
  have t: "t_easy ?t = ?e" "t_id ?t = p_transfer_id pl" by (simp_all add: new_transfer_def)
  have ok: "world_ok ?W" using agent_coreD(1) [OF agent_invD(1) [OF inv]] .
  define w2 where "w2 = log_calls [CurlEasySetPrivate ?e tp] ?W"
  define w3 where "w3 = log_calls [CurlMultiAddHandle ?e] w2"
  have c2: "calm [CurlEasySetPrivate ?e tp] ?W w2" using calm_log [OF ok, of "[CurlEasySetPrivate ?e tp]"] by (simp add: w2_def)
  have c3: "calm [CurlEasySetPrivate ?e tp] ?W w3"
    using calm_silent(2) [OF c2, of w3] calm_log [OF calmD(1) [OF c2], of "[CurlMultiAddHandle ?e]"] by (simp add: w3_def)
  define ag2 where "ag2 = ag\<lparr>ag_world := w2, ag_transfers := ?T(tp \<mapsto> ?t), ag_registry := r\<rparr>"
  define ag3 where "ag3 = ag\<lparr>ag_world := w3, ag_transfers := ?T(tp \<mapsto> ?t\<lparr>t_active := True\<rparr>), ag_registry := r\<rparr>"
  note step = insert_step [OF inv ins tp(2) args pl]
  have s2: "takes (message_handles (Execute pl)) (payload_results pl) ag ag2"
    unfolding ag2_def by (rule step [OF c2, of _ False]) (simp add: new_transfer_def)
  have s3: "takes (message_handles (Execute pl)) (payload_results pl) ag ag3"
    unfolding ag3_def by (rule step [OF c3 refl])
  have env2: "env_ok (ag_world ag2) env" and env3: "env_ok (ag_world ag3) env"
    using takesD(2) [OF s2] takesD(2) [OF s3] env by simp_all
  have t2: "ag_transfers ag2 tp = Some ?t" by (simp add: ag2_def)
  obtain q r2 where rem: "registry_remove r (p_transfer_id pl) = (q, r2)" by (cases "registry_remove r (p_transfer_id pl)")
  obtain b2 where b2: "finish_detached_transfer env tp CURLE_FAILED_INIT (ag2\<lparr>ag_registry := r2\<rparr>) = Some b2" "advances ag2 b2"
    using end_registered [OF takesD(1) [OF s2] env2 t2, of q r2 CURLE_FAILED_INIT] rem t by (auto simp: ag2_def)
  obtain code w where l: "drive_legacy_multi (en_socket_all env) w3 = Some (code, w)" "advances ag3 (ag3\<lparr>ag_world := w\<rparr>)"
    using legacy_law [OF takesD(1) [OF s3] env3] by (auto simp: ag3_def)
  define ag4 where "ag4 = ag3\<lparr>ag_world := w\<rparr>"
  have a4: "advances ag3 ag4" using l(2) by (simp add: ag4_def)
  note inv4 = takesD(1) [OF a4]
  have env4: "env_ok (ag_world ag4) env" using takesD(2) [OF a4] env3 by simp
  have rem4: "registry_remove (ag_registry ag4) (p_transfer_id pl) = (q, r2)" using rem by (simp add: ag4_def ag3_def)
  obtain b5 where b5: "finish_detached_transfer env q CURLE_RECV_ERROR (ag4\<lparr>ag_registry := r2\<rparr>) = Some b5" "advances ag4 b5"
    using end_by_id(1) [OF inv4 env4 rem4, of CURLE_RECV_ERROR] by blast
  obtain b6 where b6: "check_multi_info env ag4 = Some b6" "advances ag4 b6"
    using check_multi_info_law [OF inv4 env4] by blast
  define out where "out = (if en_add_handle env ?e \<noteq> CURLM_OK then b2
    else if en_version env < 0x071301 then if code \<noteq> CURLM_OK then b5 else b6 else ag3)"
  have "takes (message_handles (Execute pl)) (payload_results pl) ag out"
    using s3 takes_trans [OF s2 b2(2)] takes_trans [OF takes_trans [OF s3 a4] b5(2)]
      takes_trans [OF takes_trans [OF s3 a4] b6(2)] by (simp add: out_def)
  moreover have "execute_transfer env pl ag = Some out"
  proof -
    let ?X = "?T(tp \<mapsto> ?t\<lparr>t_active := True\<rparr>)"
    have m2: "ag\<lparr>ag_world := w2, ag_transfers := ?T(tp \<mapsto> ?t), ag_registry := r2\<rparr> = ag2\<lparr>ag_registry := r2\<rparr>"
      "ag\<lparr>ag_registry := r, ag_world := w3, ag_transfers := ?X\<rparr> = ag3"
      "ag_world ag3 = w3" "ag_registry ag3 = r"
      by (simp_all add: ag2_def ag3_def)
    show ?thesis
      using args tp(3) ins priv t rem b2(1) l(1) b5(1) [unfolded ag4_def] b6(1) [unfolded ag4_def] m2
      by (simp add: execute_transfer_def Let_def tp(1) [symmetric] w2_def [symmetric] w3_def [symmetric] out_def)
  qed
  ultimately show ?thesis by blast
qed

lemma execute_law:
  assumes inv: "agent_inv ag" and env: "env_ok (ag_world ag) env" and pl: "payload_ok (ag_world ag) pl"
  shows "\<exists>ag'. execute_transfer env pl ag = Some ag'
    \<and> takes (message_handles (Execute pl)) (payload_results pl) ag ag'"
proof -
  let ?tp = "en_transfer env (ag_transfers ag)"
  note fail = fail_law [OF inv env pl]
  obtain b r where ins: "registry_insert (en_resize env) (ag_registry ag) (p_transfer_id pl) ?tp = (b, r)"
    by (cases "registry_insert (en_resize env) (ag_registry ag) (p_transfer_id pl) ?tp")
  consider (none) "p_easy pl = NULL" "p_result pl = NULL" "p_download_stream pl = NULL" "p_upload_stream pl = NULL"
    | (bad) "p_easy pl = NULL \<or> p_result pl = NULL \<or> p_transfer_id pl = 0"
        "p_easy pl \<noteq> NULL \<or> p_result pl \<noteq> NULL \<or> p_download_stream pl \<noteq> NULL \<or> p_upload_stream pl \<noteq> NULL"
    | (mem) "p_easy pl \<noteq> NULL" "p_result pl \<noteq> NULL" "p_transfer_id pl \<noteq> 0" "?tp = NULL"
    | (dup) "p_easy pl \<noteq> NULL" "p_result pl \<noteq> NULL" "p_transfer_id pl \<noteq> 0" "?tp \<noteq> NULL" "\<not> b"
    | (priv) "p_easy pl \<noteq> NULL" "p_result pl \<noteq> NULL" "p_transfer_id pl \<noteq> 0" "?tp \<noteq> NULL" "b"
        "en_set_private env (p_easy pl) \<noteq> CURLE_OK"
    | (go) "p_easy pl \<noteq> NULL" "p_result pl \<noteq> NULL" "p_transfer_id pl \<noteq> 0" "?tp \<noteq> NULL" "b"
        "en_set_private env (p_easy pl) = CURLE_OK" by blast
  then show ?thesis
  proof cases
    case none
    then show ?thesis using advances_refl [OF inv]
      by (simp add: execute_transfer_def payload_results_def)
  next
    case bad
    then show ?thesis using fail [of CURLE_FAILED_INIT] by (auto simp: execute_transfer_def)
  next
    case mem
    then show ?thesis using fail [of CURLE_OUT_OF_MEMORY] by (auto simp: execute_transfer_def)
  next
    case dup
    then have "r = ag_registry ag" using insert_cases(2) [OF ins] by blast
    then show ?thesis using fail [of CURLE_FAILED_INIT] dup ins
      by (auto simp: execute_transfer_def new_transfer_def)
  next
    case priv
    have fr: "ag_transfers ag ?tp = None" using env_okD(6) [OF env, of "ag_transfers ag"] priv(4) by blast
    let ?ag = "ag\<lparr>ag_registry := snd (registry_remove r (p_transfer_id pl))\<rparr>"
    have a: "advances ag ?ag" using insert_remove [OF inv, of "en_resize env" "p_transfer_id pl" ?tp r] ins priv fr by simp
    have "env_ok (ag_world ?ag) env" "payload_ok (ag_world ?ag) pl" using env pl by simp_all
    from fail_law [OF takesD(1) [OF a] this, of CURLE_FAILED_INIT] obtain w where
      w: "fail_payload env pl CURLE_FAILED_INIT ?ag = Some (?ag\<lparr>ag_world := w\<rparr>)"
      "takes (message_handles (Execute pl)) (payload_results pl) ?ag (?ag\<lparr>ag_world := w\<rparr>)" by blast
    have "execute_transfer env pl ag = Some (?ag\<lparr>ag_world := w\<rparr>)"
      using priv ins w(1) by (simp add: execute_transfer_def Let_def new_transfer_def)
    then show ?thesis using takes_trans2 [OF a w(2)] by blast
  next
    case go
    have fr: "ag_transfers ag ?tp = None" using env_okD(6) [OF env, of "ag_transfers ag"] go(4) by blast
    show ?thesis using execute_inserted [OF inv env pl go(1-3) refl fr go(4) _ go(6), of r] ins go(5) by simp
  qed
qed

section \<open>Shutdown\<close>

lemma queue_ok: "world_ok w \<Longrightarrow> quiescent q \<Longrightarrow> world_ok (w\<lparr>w_queue := q\<rparr>)"
  by (simp add: world_ok_def stream_linked_def channel_ok_def)

lemma dequeue_law:
  assumes core: "agent_core ag"
  shows "case messages (w_queue (ag_world ag)) of
      [] \<Rightarrow> dequeue_message ag = Some (None, ag)
    | m # ms \<Rightarrow> \<exists>q. dequeue_message ag = Some (Some m, ag\<lparr>ag_world := (ag_world ag)\<lparr>w_queue := q\<rparr>\<rparr>)
        \<and> messages q = ms \<and> agent_core (ag\<lparr>ag_world := (ag_world ag)\<lparr>w_queue := q\<rparr>\<rparr>)"
proof -
  let ?W = "ag_world ag"
  have qu: "quiescent (w_queue ?W)" using agent_coreD(3) [OF core] by (simp add: channel_ok_def)
  note dq = dequeue_quiescent [OF qu]
  show ?thesis
  proof (cases "q_get (w_queue ?W)")
    case None
    then have "messages (w_queue ?W) = []" using mq.get_empty [OF qu] by blast
    with None dq show ?thesis by (simp add: dequeue_message_def)
  next
    case (Some xq)
    obtain x q where xq: "xq = (x, q)" by (cases xq)
    note g = q_get_quiescent [OF qu Some [unfolded xq]]
    have "message_ok (?W\<lparr>w_queue := q\<rparr>) = message_ok ?W"
    proof
      fix m
      show "message_ok (?W\<lparr>w_queue := q\<rparr>) m = message_ok ?W m" by (cases m) (simp_all add: payload_ok_def)
    qed
    then have "agent_core (ag\<lparr>ag_world := ?W\<lparr>w_queue := q\<rparr>\<rparr>)"
      using core g queue_ok [OF _ g(1)] by (simp add: agent_core_def channel_ok_def transfer_ok_def)
    with Some xq dq g(2) show ?thesis by (auto simp: dequeue_message_def intro!: exI [of _ q])
  qed
qed

text \<open>
  What the loops of the shutdown do to the world: no object is freed, the results named are settled.
\<close>

definition closing :: "CURL list \<Rightarrow> addr set \<Rightarrow> world \<Rightarrow> world \<Rightarrow> bool" where
  "closing hs rs w w' \<longleftrightarrow> env_ok w' = env_ok w \<and> payload_ok w' = payload_ok w
     \<and> cleaned (w_log w') = cleaned (w_log w) @ hs \<and> w_senders w' = w_senders w
     \<and> (\<forall>r. settled w r \<or> r \<in> rs \<longrightarrow> settled w' r)"

lemma closing_trans: "closing hs rs w w' \<Longrightarrow> closing hs' rs' w' w'' \<Longrightarrow> closing (hs @ hs') (rs \<union> rs') w w''"
  by (auto simp: closing_def)

lemma calm_closing: "calm evs w w' \<Longrightarrow> (\<And>r. r \<in> rs \<Longrightarrow> settled w' r) \<Longrightarrow> closing (cleaned evs) rs w w'"
  using calmD(8) [of evs w w'] by (auto simp: closing_def env_calm objects_calm calm_logs calmD(3))

lemma env_frame:
  assumes "dom (w_streams w') = dom (w_streams w)" "dom (w_headers w') = dom (w_headers w)"
  shows "env_ok w' = env_ok w"
proof -
  have "callback_ok w' = callback_ok w"
  proof
    fix cb
    show "callback_ok w' cb = callback_ok w cb" using assms by (cases cb) (simp_all only: callback_ok.simps)
  qed
  then show ?thesis by (intro ext) (simp only: env_ok_def)
qed

lemma drain_law:
  "agent_core ag \<Longrightarrow> env_ok (ag_world ag) env \<Longrightarrow>
   \<exists>w. drain_queue env code ag = Some (ag\<lparr>ag_world := w\<rparr>) \<and> agent_core (ag\<lparr>ag_world := w\<rparr>)
     \<and> messages (w_queue w) = []
     \<and> closing (concat (map message_handles (messages (w_queue (ag_world ag)))))
         (\<Union>m \<in> set (messages (w_queue (ag_world ag))). message_results m) (ag_world ag) w"
proof (induction "length (messages (w_queue (ag_world ag)))" arbitrary: ag)
  case 0
  then have n: "messages (w_queue (ag_world ag)) = []" by (metis length_0_conv)
  then have "drain_queue env code ag = Some ag" using dequeue_law [OF 0(2)] by (subst drain_queue.simps) simp
  then show ?case using n 0(2) by (intro exI [of _ "ag_world ag"]) (simp add: closing_def)
next
  case (Suc k)
  then obtain m ms where m: "messages (w_queue (ag_world ag)) = m # ms" by (metis length_Suc_conv)
  let ?W = "ag_world ag"
  obtain q where q: "dequeue_message ag = Some (Some m, ag\<lparr>ag_world := ?W\<lparr>w_queue := q\<rparr>\<rparr>)" "messages q = ms"
    "agent_core (ag\<lparr>ag_world := ?W\<lparr>w_queue := q\<rparr>\<rparr>)" using dequeue_law [OF Suc(3)] m by auto
  let ?ag1 = "ag\<lparr>ag_world := ?W\<lparr>w_queue := q\<rparr>\<rparr>"
  have same: "closing [] {} ?W (?W\<lparr>w_queue := q\<rparr>)"
    using env_frame [of "?W\<lparr>w_queue := q\<rparr>" ?W] by (simp add: closing_def payload_ok_def settled_def fun_eq_iff)
  have env1: "env_ok (ag_world ?ag1) env" using same Suc(4) by (simp add: closing_def)
  have "\<exists>w. (case m of Execute pl \<Rightarrow> fail_payload env pl code ?ag1 | _ \<Rightarrow> Some ?ag1) = Some (?ag1\<lparr>ag_world := w\<rparr>)
    \<and> agent_core (?ag1\<lparr>ag_world := w\<rparr>) \<and> messages (w_queue w) = ms
    \<and> closing (message_handles m) (message_results m) (ag_world ?ag1) w"
  proof (cases m)
    case (Execute pl)
    have "message_ok ?W m" using agent_coreD(6) [OF Suc(3), of m] m by simp
    then have "payload_ok (ag_world ?ag1) pl" using Execute same by (simp add: closing_def)
    from fail_core [OF q(3) env1 this, of code] obtain w where
      w: "fail_payload env pl code ?ag1 = Some (?ag1\<lparr>ag_world := w\<rparr>)" "agent_core (?ag1\<lparr>ag_world := w\<rparr>)"
      "calm (if p_easy pl = NULL then [] else [CurlEasyCleanup (p_easy pl)]) (ag_world ?ag1) w"
      "p_result pl \<noteq> NULL \<longrightarrow> settled w (p_result pl)" by blast
    have "closing (message_handles m) (message_results m) (ag_world ?ag1) w"
      using calm_closing [OF w(3), of "message_results m"] w(4) Execute by (auto split: if_splits)
    then show ?thesis using Execute w(1,2) q(2) calmD(2) [OF w(3)] by auto
  qed (use q in \<open>auto simp: closing_def intro!: exI [of _ "ag_world ?ag1"]\<close>)
  then obtain w1 where w1: "(case m of Execute pl \<Rightarrow> fail_payload env pl code ?ag1 | _ \<Rightarrow> Some ?ag1) = Some (ag\<lparr>ag_world := w1\<rparr>)"
    "agent_core (ag\<lparr>ag_world := w1\<rparr>)" "messages (w_queue w1) = ms"
    "closing (message_handles m) (message_results m) (?W\<lparr>w_queue := q\<rparr>) w1" by auto
  have k: "k = length (messages (w_queue (ag_world (ag\<lparr>ag_world := w1\<rparr>))))" using Suc(2) m w1(3) by (simp del: length_messages)
  have "env_ok (ag_world (ag\<lparr>ag_world := w1\<rparr>)) env" using env1 w1(4) by (simp add: closing_def)
  from Suc(1) [OF k w1(2) this] obtain w2 where
    w2: "drain_queue env code (ag\<lparr>ag_world := w1\<rparr>) = Some (ag\<lparr>ag_world := w2\<rparr>)" "agent_core (ag\<lparr>ag_world := w2\<rparr>)"
    "messages (w_queue w2) = []"
    "closing (concat (map message_handles ms)) (\<Union>m \<in> set ms. message_results m) w1 w2" using w1(3) by auto
  have "drain_queue env code ag = Some (ag\<lparr>ag_world := w2\<rparr>)"
    using q(1) w1(1) w2(1) by (subst drain_queue.simps) simp
  then show ?case using w2 m closing_trans [OF same closing_trans [OF w1(4) w2(4)]] by auto
qed

text \<open>The handles and results of the transfers at the nodes of a chain.\<close>

definition chain_handles :: "(addr \<Rightarrow> transfer option) \<Rightarrow> node list \<Rightarrow> CURL list" where
  "chain_handles T ns = map (\<lambda>nd. t_easy (the (T (snd nd)))) ns"

definition chain_results :: "(addr \<Rightarrow> transfer option) \<Rightarrow> node list \<Rightarrow> addr set" where
  "chain_results T ns = (\<lambda>nd. t_result (the (T (snd nd)))) ` set ns"

definition chain_ok :: "(addr \<Rightarrow> transfer option) \<Rightarrow> node list \<Rightarrow> bool" where
  "chain_ok T ns \<longleftrightarrow> distinct (map fst ns) \<and> (\<forall>nd \<in> set ns. \<exists>t. T (snd nd) = Some t \<and> t_id t = fst nd)"

lemma chain_drop:
  assumes ok: "chain_ok T (ms @ ns)" and T': "T' = T |` (- snd ` set ms)"
  shows "chain_ok T' ns" "chain_handles T' ns = chain_handles T ns" "chain_results T' ns = chain_results T ns"
proof -
  have same: "T' (snd nd) = T (snd nd)" if nd: "nd \<in> set ns" for nd
  proof -
    have "snd nd \<notin> snd ` set ms"
    proof
      assume "snd nd \<in> snd ` set ms"
      then obtain md where md: "md \<in> set ms" "snd md = snd nd" by auto
      have "\<exists>t. T (snd nd) = Some t \<and> t_id t = fst nd" "\<exists>t. T (snd md) = Some t \<and> t_id t = fst md"
        using ok nd md(1) by (simp_all add: chain_ok_def)
      then have "fst md = fst nd" using md(2) by auto
      moreover have "fst md \<in> fst ` set ms" "fst nd \<in> fst ` set ns" "fst ` set ms \<inter> fst ` set ns = {}"
        using ok md(1) nd by (auto simp: chain_ok_def)
      ultimately show False by (metis disjoint_iff)
    qed
    then show ?thesis by (simp add: T')
  qed
  then show "chain_ok T' ns" "chain_handles T' ns = chain_handles T ns" "chain_results T' ns = chain_results T ns"
    using ok by (auto simp: chain_ok_def chain_handles_def chain_results_def image_def)
qed

lemma finish_chain_law:
  "agent_core ag \<Longrightarrow> env_ok (ag_world ag) env \<Longrightarrow> chain_ok (ag_transfers ag) ns \<Longrightarrow>
   \<exists>w. finish_chain env code ns ag
        = Some (ag\<lparr>ag_world := w, ag_transfers := ag_transfers ag |` (- snd ` set ns)\<rparr>)
     \<and> agent_core (ag\<lparr>ag_world := w, ag_transfers := ag_transfers ag |` (- snd ` set ns)\<rparr>)
     \<and> w_queue w = w_queue (ag_world ag)
     \<and> closing (chain_handles (ag_transfers ag) ns) (chain_results (ag_transfers ag) ns) (ag_world ag) w"
proof (induction ns arbitrary: ag)
  case Nil
  then show ?case by (intro exI [of _ "ag_world ag"])
    (simp add: chain_handles_def chain_results_def closing_def)
next
  case (Cons nd ns)
  let ?W = "ag_world ag" and ?T = "ag_transfers ag" and ?tp = "snd nd"
  obtain t where t: "?T ?tp = Some t" using Cons.prems(3) by (auto simp: chain_ok_def)
  define T1 where "T1 = ?T(?tp := None)"
  obtain w1 where w1: "finish_detached_transfer env ?tp code ag = Some (ag\<lparr>ag_world := w1, ag_transfers := T1\<rparr>)"
    "calm [CurlEasySetPrivate (t_easy t) NULL, CurlEasyCleanup (t_easy t)] ?W w1" "settled w1 (t_result t)"
    using finish_transfer_law [OF Cons.prems(1,2) t] unfolding T1_def by blast
  let ?ag1 = "ag\<lparr>ag_world := w1, ag_transfers := T1\<rparr>"
  have core1: "agent_core ?ag1"
    using finish_core [OF Cons.prems(1) t w1(2), of "ag_registry ag"] by (simp add: T1_def)
  have c1: "closing [t_easy t] {t_result t} ?W w1" using calm_closing [OF w1(2), of "{t_result t}"] w1(3) by simp
  have T1: "T1 = ?T |` (- snd ` set [nd])" by (auto simp: restrict_map_def T1_def)
  have "chain_ok ?T ([nd] @ ns)" using Cons.prems(3) by simp
  note ch = chain_drop [OF this T1]
  have env1: "env_ok (ag_world ?ag1) env" using c1 Cons.prems(2) by (simp add: closing_def)
  obtain w2 where w2: "finish_chain env code ns ?ag1
      = Some (ag\<lparr>ag_world := w2, ag_transfers := T1 |` (- snd ` set ns)\<rparr>)"
    "agent_core (ag\<lparr>ag_world := w2, ag_transfers := T1 |` (- snd ` set ns)\<rparr>)"
    "w_queue w2 = w_queue w1" "closing (chain_handles ?T ns) (chain_results ?T ns) w1 w2"
    using Cons.IH [OF core1 env1] ch by auto
  have T2: "T1 |` (- snd ` set ns) = ?T |` (- snd ` set (nd # ns))"
    by (auto simp: restrict_map_def T1_def)
  have "closing (chain_handles ?T (nd # ns)) (chain_results ?T (nd # ns)) ?W w2"
    using closing_trans [OF c1 w2(4)] t by (simp add: chain_handles_def chain_results_def)
  moreover have "finish_chain env code (nd # ns) ag = Some (ag\<lparr>ag_world := w2, ag_transfers := T1 |` (- snd ` set ns)\<rparr>)"
    using w1(1) w2(1) by (cases nd) simp
  ultimately show ?case using w2(2,3) calmD(2) [OF w1(2)] unfolding T2
    by (intro exI [of _ w2]) simp
qed

lemma core_registry [simp]: "agent_core (ag\<lparr>ag_registry := r\<rparr>) = agent_core ag"
  by (simp add: agent_core_def)

lemma finish_buckets_law:
  "agent_core ag \<Longrightarrow> env_ok (ag_world ag) env \<Longrightarrow> chain_ok (ag_transfers ag) (concat cs) \<Longrightarrow>
   \<exists>w r. finish_buckets env code i cs ag
        = Some (ag\<lparr>ag_world := w, ag_transfers := ag_transfers ag |` (- snd ` set (concat cs)), ag_registry := r\<rparr>)
     \<and> agent_core (ag\<lparr>ag_world := w, ag_transfers := ag_transfers ag |` (- snd ` set (concat cs)), ag_registry := r\<rparr>)
     \<and> w_queue w = w_queue (ag_world ag)
     \<and> closing (chain_handles (ag_transfers ag) (concat cs)) (chain_results (ag_transfers ag) (concat cs)) (ag_world ag) w"
proof (induction cs arbitrary: ag i)
  case Nil
  then show ?case by (intro exI [of _ "ag_world ag"] exI [of _ "ag_registry ag"])
    (simp add: chain_handles_def chain_results_def closing_def)
next
  case (Cons c cs)
  let ?W = "ag_world ag" and ?T = "ag_transfers ag"
  let ?ag0 = "ag\<lparr>ag_registry := clear_bucket i (ag_registry ag)\<rparr>" and ?T1 = "?T |` (- snd ` set c)"
  have ok: "chain_ok ?T (c @ concat cs)" using Cons.prems(3) by simp
  then have c: "chain_ok (ag_transfers ?ag0) c" by (auto simp: chain_ok_def)
  have pre: "agent_core ?ag0" "env_ok (ag_world ?ag0) env" using Cons.prems by simp_all
  obtain w1 where w1: "finish_chain env code c ?ag0 = Some (?ag0\<lparr>ag_world := w1, ag_transfers := ?T1\<rparr>)"
    "agent_core (?ag0\<lparr>ag_world := w1, ag_transfers := ?T1\<rparr>)" "w_queue w1 = w_queue ?W"
    "closing (chain_handles ?T c) (chain_results ?T c) ?W w1"
    using finish_chain_law [OF pre c] by auto
  let ?ag1 = "?ag0\<lparr>ag_world := w1, ag_transfers := ?T1\<rparr>"
  note ch = chain_drop [OF ok refl]
  have env1: "env_ok (ag_world ?ag1) env" using w1(4) Cons.prems(2) by (simp add: closing_def)
  obtain w2 r where w2: "finish_buckets env code (Suc i) cs ?ag1
      = Some (?ag1\<lparr>ag_world := w2, ag_transfers := ?T1 |` (- snd ` set (concat cs)), ag_registry := r\<rparr>)"
    "agent_core (?ag1\<lparr>ag_world := w2, ag_transfers := ?T1 |` (- snd ` set (concat cs)), ag_registry := r\<rparr>)"
    "w_queue w2 = w_queue w1"
    "closing (chain_handles ?T (concat cs)) (chain_results ?T (concat cs)) w1 w2"
    using Cons.IH [OF w1(2) env1, of "Suc i"] ch by auto
  have T2: "?T1 |` (- snd ` set (concat cs)) = ?T |` (- snd ` set (concat (c # cs)))"
    by (rule ext) (simp add: restrict_map_def image_Un)
  have "closing (chain_handles ?T (concat (c # cs))) (chain_results ?T (concat (c # cs))) ?W w2"
    using closing_trans [OF w1(4) w2(4)] by (simp add: chain_handles_def chain_results_def image_Un)
  moreover have "?ag1\<lparr>ag_world := w2, ag_transfers := ?T1 |` (- snd ` set (concat cs)), ag_registry := r\<rparr>
      = ag\<lparr>ag_world := w2, ag_transfers := ?T |` (- snd ` set (concat (c # cs))), ag_registry := r\<rparr>"
    unfolding T2 by simp
  ultimately show ?case using w1(1,3) w2(1-3) by (intro exI [of _ w2] exI [of _ r]) simp
qed

lemma close_sender_law:
  assumes core: "agent_core ag"
  shows "\<exists>m. close_sender (ag_sender ag) (ag_world ag)
      = Some ((ag_world ag)\<lparr>w_senders := (w_senders (ag_world ag))(ag_sender ag \<mapsto> m)\<rparr>) \<and> sender_closed m
    \<and> agent_core (ag\<lparr>ag_world := (ag_world ag)\<lparr>w_senders := (w_senders (ag_world ag))(ag_sender ag \<mapsto> m)\<rparr>\<rparr>)"
proof -
  let ?W = "ag_world ag" and ?s = "ag_sender ag"
  obtain s where s: "w_senders ?W ?s = Some s" "sender_idle s" and q: "quiescent (w_queue ?W)"
    using agent_coreD(3) [OF core] by (auto simp: channel_ok_def)
  note cl = close_idle [OF s(2)]
  let ?m = "(mark_closed s)\<lparr>async_handle := NULL\<rparr>"
  let ?w = "?W\<lparr>w_senders := (w_senders ?W)(?s \<mapsto> ?m)\<rparr>"
  have ch: "channel_ok p ?w" if "channel_ok p ?W" for p
    using that cl(2,3) by (auto simp: channel_ok_def)
  have "world_ok ?w" using agent_coreD(1) [OF core] ch by (auto simp: world_ok_def stream_linked_def)
  moreover have "message_ok ?w = message_ok ?W"
  proof
    fix m
    show "message_ok ?w m = message_ok ?W m" by (cases m) (simp_all add: payload_ok_def)
  qed
  ultimately have "agent_core (ag\<lparr>ag_world := ?w\<rparr>)"
    using core ch by (simp add: agent_core_def transfer_ok_def)
  then show ?thesis using s(1) cl agent_coreD(2) [OF core]
    by (intro exI [of _ ?m]) (simp add: close_sender_def)
qed

lemma shutdown_law:
  assumes inv: "agent_inv ag" and env: "env_ok (ag_world ag) env"
  shows "\<exists>ag'. shutdown_message_context env code ag = Some ag' \<and> advances ag ag'
    \<and> ag_transfers ag' = Map.empty \<and> buckets (ag_registry ag') = None
    \<and> (\<exists>m. w_senders (ag_world ag') (ag_sender ag) = Some m \<and> sender_closed m)
    \<and> (if buckets (ag_registry ag) = None then w_queue (ag_world ag') = w_queue (ag_world ag)
       else messages (w_queue (ag_world ag')) = [])"
proof -
  let ?W = "ag_world ag" and ?T = "ag_transfers ag" and ?R = "ag_registry ag"
  note core = agent_invD(1) [OF inv] and iff = agent_invD(4) [OF inv]
  obtain m where m: "close_sender (ag_sender ag) ?W = Some (?W\<lparr>w_senders := (w_senders ?W)(ag_sender ag \<mapsto> m)\<rparr>)"
    "sender_closed m" "agent_core (ag\<lparr>ag_world := ?W\<lparr>w_senders := (w_senders ?W)(ag_sender ag \<mapsto> m)\<rparr>\<rparr>)"
    using close_sender_law [OF core] by blast
  define w0 where "w0 = ?W\<lparr>w_senders := (w_senders ?W)(ag_sender ag \<mapsto> m)\<rparr>"
  have w0: "env_ok w0 = env_ok ?W" "w_queue w0 = w_queue ?W" "w_log w0 = w_log ?W" "settled w0 = settled ?W"
    "w_senders w0 (ag_sender ag) = Some m"
    using env_frame [of w0 ?W] by (simp_all add: w0_def settled_def fun_eq_iff)
  have core0: "agent_core (ag\<lparr>ag_world := w0\<rparr>)" using m(3) by (simp add: w0_def)
  show ?thesis
  proof (cases "buckets ?R")
    case None
    then have e: "shutdown_message_context env code ag = Some (ag\<lparr>ag_world := w0\<rparr>)"
      using m(1) by (simp add: shutdown_message_context_def w0_def)
    have "reg_map ?R = Map.empty" using None by (simp add: reg_map_def nodes_def)
    then have T: "?T = Map.empty" using iff by (metis not_None_eq option.distinct(1) ext)
    have "advances ag (ag\<lparr>ag_world := w0\<rparr>)"
      using inv core0 w0 m(2) by (auto simp: takes_def agent_inv_def handles_def awaited_def stop_ok_def sealed_def)
    then show ?thesis using e T None w0 m(2) by auto
  next
    case (Some bs)
    have nodes: "nodes ?R = concat bs" using Some by (simp add: nodes_def)
    have ri: "reg_inv ?R" using agent_invD(3) [OF inv] .
    have at: "\<exists>t. ?T (snd nd) = Some t \<and> t_id t = fst nd" if "nd \<in> set (nodes ?R)" for nd
      using that reg_nodes [OF ri, of "fst nd" "snd nd"] iff by simp
    have "distinct (map fst (nodes ?R))" using ri by (simp add: reg_inv_def)
    with at have ch: "chain_ok (ag_transfers (ag\<lparr>ag_world := w0\<rparr>)) (concat bs)"
      by (simp add: chain_ok_def nodes)
    have env0: "env_ok (ag_world (ag\<lparr>ag_world := w0\<rparr>)) env" using env w0(1) by simp
    obtain w1 r1 where b: "finish_buckets env code 0 bs (ag\<lparr>ag_world := w0\<rparr>)
        = Some (ag\<lparr>ag_world := w1, ag_transfers := ?T |` (- snd ` set (concat bs)), ag_registry := r1\<rparr>)"
      "agent_core (ag\<lparr>ag_world := w1, ag_transfers := ?T |` (- snd ` set (concat bs)), ag_registry := r1\<rparr>)"
      "w_queue w1 = w_queue w0" "closing (chain_handles ?T (concat bs)) (chain_results ?T (concat bs)) w0 w1"
      using finish_buckets_law [OF core0 env0 ch, of code 0] by auto
    have none: "?T |` (- snd ` set (concat bs)) = Map.empty"
    proof (rule ext)
      fix p
      show "(?T |` (- snd ` set (concat bs))) p = None"
      proof (cases "?T p")
        case (Some t)
        then have "(t_id t, p) \<in> set (concat bs)" using iff reg_nodes [OF ri, of "t_id t" p] nodes by auto
        then have "p \<in> snd ` set (concat bs)" by (metis image_eqI snd_conv)
        then show ?thesis by (simp add: restrict_map_def)
      qed (simp add: restrict_map_def)
    qed
    let ?ag2 = "ag\<lparr>ag_world := w1, ag_transfers := Map.empty, ag_registry := r1\<lparr>reg_count := 0\<rparr>\<rparr>"
    have core2: "agent_core ?ag2" using b(2) unfolding none by (simp add: agent_core_def)
    have "env_ok (ag_world ?ag2) env" using b(4) env0 by (simp add: closing_def)
    from drain_law [OF core2 this, of code] obtain w2 where d: "drain_queue env code ?ag2 = Some (?ag2\<lparr>ag_world := w2\<rparr>)"
      "agent_core (?ag2\<lparr>ag_world := w2\<rparr>)" "messages (w_queue w2) = []"
      "closing (concat (map message_handles (messages (w_queue w1))))
        (\<Union>m \<in> set (messages (w_queue w1)). message_results m) w1 w2" by auto
    let ?r = "registry_destroy (r1\<lparr>reg_count := 0\<rparr>)"
    let ?ag = "ag\<lparr>ag_world := w2, ag_transfers := Map.empty, ag_registry := ?r\<rparr>"
    have e: "shutdown_message_context env code ag = Some ?ag"
      using m(1) Some b(1) d(1) unfolding none by (simp add: shutdown_message_context_def w0_def)
    have cl: "closing (chain_handles ?T (nodes ?R) @ concat (map message_handles (messages (w_queue ?W))))
        (chain_results ?T (nodes ?R) \<union> (\<Union>m \<in> set (messages (w_queue ?W)). message_results m)) w0 w2"
      using closing_trans [OF b(4) d(4)] b(3) w0(2) nodes by simp
    have reg: "registered_exactly ?r Map.empty"
      using destroy_spec [of "r1\<lparr>reg_count := 0\<rparr>"] by (simp add: registered_exactly_def)
    have core': "agent_core ?ag" using d(2) by (simp add: agent_core_def)
    have "handles ?ag = handles ag"
      using cl d(3) w0(3) by (simp add: handles_def closing_def registered_handles_def chain_handles_def
        registry_destroy_def nodes_def)
    moreover have "awaited ag \<subseteq> chain_results ?T (nodes ?R) \<union> (\<Union>m \<in> set (messages (w_queue ?W)). message_results m)"
    proof
      fix r
      assume "r \<in> awaited ag"
      then consider p t where "?T p = Some t" "r = t_result t"
        | "r \<in> (\<Union>m \<in> set (messages (w_queue ?W)). message_results m)" by (auto simp: awaited_def)
      then show "r \<in> chain_results ?T (nodes ?R) \<union> (\<Union>m \<in> set (messages (w_queue ?W)). message_results m)"
      proof cases
        case (1 p t)
        then have "(t_id t, p) \<in> set (nodes ?R)" using iff reg_nodes [OF ri, of "t_id t" p] by auto
        then show ?thesis using 1 by (force simp: chain_results_def)
      qed simp
    qed
    moreover have "env_ok w2 = env_ok ?W" using cl w0(1) by (simp add: closing_def)
    moreover have snd2: "w_senders w2 (ag_sender ag) = Some m" using cl w0(5) by (simp add: closing_def)
    then have "stop_ok ?ag" using d(3) m(2) by (simp add: stop_ok_def sealed_def)
    ultimately have "advances ag ?ag"
      using core' reg cl d(3) w0(4) by (auto simp: takes_def agent_inv_def closing_def)
    moreover note snd2
    ultimately show ?thesis using e Some m(2) d(3) by (auto simp: registry_destroy_def)
  qed
qed

end
