(* ===== verification/Agent_Run.thy ===== *)
theory Agent_Run
  imports Agent_Inv
begin

text \<open>
  Whole runs of the reactor: one message, the loop of \<open>async_check_outer_messages\<close> over the queue,
  and what a cancellation, a rejected submission and a shutdown do to the transfers they do not
  concern.
\<close>

section \<open>One message\<close>

lemma handle_law:
  assumes inv: "agent_inv ag" and env: "env_ok (ag_world ag) env" and m: "message_ok (ag_world ag) m"
  shows "\<exists>ag'. handle_message env m ag = Some ag' \<and> takes (message_handles m) (message_results m) ag ag'"
proof (cases m)
  case (Execute pl)
  have "message_results m = payload_results pl" using Execute by (simp add: payload_results_def)
  moreover have "payload_ok (ag_world ag) pl" using m Execute by simp
  ultimately show ?thesis using execute_law [OF inv env] Execute by (simp add: handle_message_def)
next
  case StopAgent
  obtain ag1 where s: "shutdown_message_context env CURLE_ABORTED_BY_CALLBACK ag = Some ag1" "advances ag ag1"
    using shutdown_law [OF inv env] by blast
  note inv1 = takesD(1) [OF s(2)]
  have "calm [] (ag_world ag1) (log_calls [UvStop] (ag_world ag1))"
    using calm_log [OF agent_coreD(1) [OF agent_invD(1) [OF inv1]], of "[UvStop]"] by simp
  from takes_trans [OF s(2) silent_advance [OF inv1 this]] show ?thesis
    using s(1) StopAgent by (simp add: handle_message_def)
qed (use cancel_transfer_law [OF inv env] resume_transfer_law [OF inv env] in \<open>simp_all add: handle_message_def\<close>)

section \<open>The dispatch loop\<close>

text \<open>Taking a message out of the queue moves it from the agent's account to the reactor's hands.\<close>

lemma dequeue_step:
  assumes inv: "agent_inv ag" and ms: "messages (w_queue (ag_world ag)) = m # ms"
  shows "\<exists>ag1. dequeue_message ag = Some (Some m, ag1) \<and> agent_inv ag1 \<and> message_ok (ag_world ag1) m
    \<and> messages (w_queue (ag_world ag1)) = ms \<and> handles ag = mset (message_handles m) + handles ag1
    \<and> awaited ag = message_results m \<union> awaited ag1 \<and> env_ok (ag_world ag1) = env_ok (ag_world ag)
    \<and> settled (ag_world ag1) = settled (ag_world ag) \<and> ag_sender ag1 = ag_sender ag \<and> ag_multi ag1 = ag_multi ag
    \<and> (stop_ok ag \<longrightarrow> stop_ok ag1)"
proof -
  note core = agent_invD(1) [OF inv]
  let ?W = "ag_world ag"
  obtain q where q: "dequeue_message ag = Some (Some m, ag\<lparr>ag_world := ?W\<lparr>w_queue := q\<rparr>\<rparr>)"
    "messages q = ms" "agent_core (ag\<lparr>ag_world := ?W\<lparr>w_queue := q\<rparr>\<rparr>)"
    using dequeue_law [OF core] ms by auto
  let ?ag = "ag\<lparr>ag_world := ?W\<lparr>w_queue := q\<rparr>\<rparr>"
  have "message_ok (?W\<lparr>w_queue := q\<rparr>) m"
    using agent_coreD(6) [OF core, of m] ms by (cases m) (simp_all add: payload_ok_def)
  moreover have "env_ok (?W\<lparr>w_queue := q\<rparr>) = env_ok ?W" by (rule env_frame) simp_all
  moreover have "settled (?W\<lparr>w_queue := q\<rparr>) = settled ?W" by (simp add: settled_def fun_eq_iff)
  ultimately show ?thesis using q inv ms
    by (intro exI [of _ ?ag]) (auto simp: agent_inv_def handles_def awaited_def stop_ok_def)
qed

lemma takes_back:
  assumes "handles ag = mset hs + handles ag1" "awaited ag = rs \<union> awaited ag1" "settled (ag_world ag1) = settled (ag_world ag)"
    "env_ok (ag_world ag1) = env_ok (ag_world ag)" "ag_sender ag1 = ag_sender ag" "ag_multi ag1 = ag_multi ag"
    "length (messages (w_queue (ag_world ag1))) \<le> length (messages (w_queue (ag_world ag)))"
    "stop_ok ag \<longrightarrow> stop_ok ag1"
    and t: "takes hs rs ag1 ag'"
  shows "advances ag ag'"
  using takesD [OF t] assms by (auto simp: takes_def)

lemma dispatch_law:
  "agent_inv ag \<Longrightarrow> (\<And>k. env_ok (ag_world ag) (envs k)) \<Longrightarrow>
   \<exists>ag'. dispatch_loop envs k ag = Some ag' \<and> advances ag ag' \<and> messages (w_queue (ag_world ag')) = []"
proof (induction "length (messages (w_queue (ag_world ag)))" arbitrary: ag k rule: less_induct)
  case less
  show ?case
  proof (cases "messages (w_queue (ag_world ag))")
    case Nil
    then show ?thesis using dequeue_law [OF agent_invD(1) [OF less.prems(1)]] advances_refl [OF less.prems(1)]
      by (subst dispatch_loop.simps) simp
  next
    case (Cons m ms)
    from dequeue_step [OF less.prems(1) Cons] obtain ag1 where
      d: "dequeue_message ag = Some (Some m, ag1)" "agent_inv ag1" "message_ok (ag_world ag1) m"
      "messages (w_queue (ag_world ag1)) = ms" "handles ag = mset (message_handles m) + handles ag1"
      "awaited ag = message_results m \<union> awaited ag1" "env_ok (ag_world ag1) = env_ok (ag_world ag)"
      "settled (ag_world ag1) = settled (ag_world ag)" "ag_sender ag1 = ag_sender ag" "ag_multi ag1 = ag_multi ag"
      "stop_ok ag \<longrightarrow> stop_ok ag1" by blast
    have "env_ok (ag_world ag1) (envs k)" using less.prems(2) d(7) by simp
    from handle_law [OF d(2) this d(3)] obtain ag2 where
      h: "handle_message (envs k) m ag1 = Some ag2" "takes (message_handles m) (message_results m) ag1 ag2" by blast
    have adv: "advances ag ag2" by (rule takes_back [OF d(5,6,8,7,9,10) _ d(11) h(2)]) (simp add: d(4) Cons)
    have "length (messages (w_queue (ag_world ag2))) < length (messages (w_queue (ag_world ag)))"
      using takesD(3) [OF h(2)] d(4) Cons by simp
    from less.hyps [OF this takesD(1) [OF h(2)]] takesD(2) [OF adv] less.prems(2) obtain ag' where
      "dispatch_loop envs (Suc k) ag2 = Some ag'" "advances ag2 ag'" "messages (w_queue (ag_world ag')) = []" by auto
    then show ?thesis using d(1) h(1) takes_trans [OF adv] by (subst dispatch_loop.simps) auto
  qed
qed

section \<open>What other threads do\<close>

text \<open>
  A call of a client that leaves the transfers alone and adds messages with handles \<open>hs\<close> and results
  \<open>rs\<close> to the queue.
\<close>

definition joins :: "CURL list \<Rightarrow> addr set \<Rightarrow> agent \<Rightarrow> agent \<Rightarrow> bool" where
  "joins hs rs ag ag' \<longleftrightarrow> agent_inv ag' \<and> handles ag' = mset hs + handles ag \<and> awaited ag' = rs \<union> awaited ag
     \<and> settled (ag_world ag') = settled (ag_world ag) \<and> env_ok (ag_world ag') = env_ok (ag_world ag)
     \<and> ag_sender ag' = ag_sender ag \<and> ag_multi ag' = ag_multi ag \<and> (stop_ok ag \<longrightarrow> stop_ok ag')"

lemma joins_refl: "agent_inv ag \<Longrightarrow> joins [] {} ag ag"
  by (simp add: joins_def)

lemma joins_queue:
  assumes inv: "agent_inv ag" and ok: "world_ok w" and s: "w_senders w = w_senders (ag_world ag)"
    and q: "quiescent (w_queue w)" "messages (w_queue w) = messages (w_queue (ag_world ag)) @ ms"
    and ms: "\<And>m. m \<in> set ms \<Longrightarrow> message_ok (ag_world ag) m"
    and r: "w_results w = w_results (ag_world ag)"
    and d: "dom (w_streams w) = dom (w_streams (ag_world ag))" "dom (w_headers w) = dom (w_headers (ag_world ag))"
      "dom (w_metrics w) = dom (w_metrics (ag_world ag))"
    and l: "owner_calls (w_log w) = owner_calls (w_log (ag_world ag))"
    and c: "sealed (ag_sender ag) (ag_world ag) \<Longrightarrow> ms = []"
  shows "joins (concat (map message_handles ms)) (\<Union>m \<in> set ms. message_results m) ag (ag\<lparr>ag_world := w\<rparr>)"
proof -
  let ?W = "ag_world ag"
  note core = agent_invD(1) [OF inv]
  have obj: "payload_ok w = payload_ok ?W" "transfer_ok w = transfer_ok ?W"
    by (intro ext; simp only: payload_ok_def transfer_ok_def points_to_def d r)+
  have mok: "message_ok w m = message_ok ?W m" for m by (cases m) (simp_all add: obj)
  have logs: "cleaned (w_log w) = cleaned (w_log ?W)" "last_private e (w_log w) p = last_private e (w_log ?W) p" for e p
    using arg_cong [OF l, of cleaned] arg_cong [OF l, of "\<lambda>l. last_private e l p"] by simp_all
  have ch: "channel_ok (ag_sender ag) w" using agent_coreD(3) [OF core] s q(1) by (simp add: channel_ok_def)
  have "message_ok w m" if "m \<in> set (messages (w_queue w))" for m
    using that q(2) ms agent_coreD(6) [OF core, of m] mok by auto
  then have core': "agent_core (ag\<lparr>ag_world := w\<rparr>)"
    using core ok ch by (simp add: agent_core_def obj logs)
  moreover have "env_ok w = env_ok ?W" using d(1,2) by (rule env_frame)
  moreover have "stop_ok ag \<longrightarrow> stop_ok (ag\<lparr>ag_world := w\<rparr>)" using s q(2) c by (auto simp: stop_ok_def sealed_def)
  ultimately show ?thesis
    using inv q(2) r by (auto simp: joins_def agent_inv_def handles_def awaited_def logs settled_def fun_eq_iff)
qed

lemma submit_law:
  assumes inv: "agent_inv ag" and pl: "payload_ok (ag_world ag) pl"
  shows "\<exists>r w. enqueue_outer_message c (ag_sender ag) tag pl (ag_world ag) = Some (r, w)
    \<and> (if r = ENQUEUE_MESSAGE_OK
       then messages (w_queue w) = messages (w_queue (ag_world ag)) @ [build_message tag pl]
         \<and> joins (message_handles (build_message tag pl)) (message_results (build_message tag pl)) ag (ag\<lparr>ag_world := w\<rparr>)
       else w = ag_world ag)"
proof -
  let ?W = "ag_world ag" and ?m = "build_message tag pl"
  note core = agent_invD(1) [OF inv]
  note ch = agent_coreD(2,3) [OF core]
  show ?thesis
  proof (rule enqueue_law [OF ch, of c tag pl])
    fix s q'
    assume a: "w_senders ?W (ag_sender ag) = Some s" "q_put ?m (w_queue ?W) = Some q'"
      "enqueue_outer_message c (ag_sender ag) tag pl ?W
        = Some (ENQUEUE_MESSAGE_OK, log_calls [UvAsyncSend (async_handle s)] (?W\<lparr>w_queue := q'\<rparr>))"
      "\<not> sender_closed s"
    let ?w = "log_calls [UvAsyncSend (async_handle s)] (?W\<lparr>w_queue := q'\<rparr>)"
    have "quiescent (w_queue ?W)" using ch(2) by (simp add: channel_ok_def)
    note q = q_put_quiescent [OF this a(2)]
    have ok: "world_ok ?w"
      using calmD(1) [OF calm_log [OF queue_ok [OF agent_coreD(1) [OF core] q(1)], of "[UvAsyncSend (async_handle s)]"]] .
    have "message_ok ?W ?m" using pl by (cases tag) (simp_all add: build_message_def)
    then have "joins (concat (map message_handles [?m])) (\<Union>m \<in> set [?m]. message_results m) ag (ag\<lparr>ag_world := ?w\<rparr>)"
      using q a(1,4) by (intro joins_queue [OF inv ok]) (auto simp: log_calls_def sealed_def)
    then show ?thesis using a(3) q(2) by (simp add: log_calls_def)
  qed auto
qed

lemma control_message:
  assumes "m = build_message tag (control_payload i)"
  shows "message_ok w m" "message_handles m = []" "message_results m = {}"
  using assms by (cases tag; simp add: build_message_def control_payload_def payload_ok_def points_to_def)+

lemma client_law:
  assumes inv: "agent_inv ag" and p: "w_streams (ag_world ag) p = Some s" and v: "valid_call c"
    and sd: "s_sender s = ag_sender ag"
  shows "\<exists>acc del w. call_on c p (ag_world ag) = Some (acc, del, w) \<and> joins [] {} ag (ag\<lparr>ag_world := w\<rparr>)"
proof -
  let ?W = "ag_world ag"
  obtain acc del w t where call: "call_on c p ?W = Some (acc, del, w)" "steps_to p ?W s w t"
    using call_law [OF agent_coreD(1) [OF agent_invD(1) [OF inv]] p v] by blast
  note d = steps_toD [OF call(2)]
  have qu: "w_results w = w_results ?W" "w_senders w = w_senders ?W" "controls (w_queue ?W) (w_queue w)"
    "owner_calls (w_log w) = owner_calls (w_log ?W)" using d(7) by (simp_all add: quiet_def)
  have dom: "dom (w_headers w) = dom (w_headers ?W)" "dom (w_metrics w) = dom (w_metrics ?W)"
    using d(7) by (simp_all only: quiet_def dom_def)
  have str: "w_streams w q = (if q = p then Some t else w_streams ?W q)" for q using d(2) d(8) by auto
  have ds: "dom (w_streams w) = dom (w_streams ?W)" using p by (auto simp: dom_def str)
  obtain ms where ms: "messages (w_queue w) = messages (w_queue ?W) @ ms"
    "\<forall>m \<in> set ms. \<exists>tag i. m = build_message tag (control_payload i)" using qu(3) by (auto simp: controls_def)
  have "quiescent (w_queue w)" using world_okD(3) [OF d(1,2)] by (auto simp: stream_linked_def channel_ok_def)
  moreover have c: "message_ok ?W m" "message_handles m = []" "message_results m = {}" if m: "m \<in> set ms" for m
  proof -
    obtain tag i where "m = build_message tag (control_payload i)" using ms(2) m by blast
    from control_message [OF this] show "message_ok ?W m" "message_handles m = []" "message_results m = {}" .
  qed
  moreover have "ms = []" if "sealed (ag_sender ag) ?W"
    using call(2) that sd ms(1) by (simp add: steps_to_def)
  ultimately have "joins (concat (map message_handles ms)) (\<Union>m \<in> set ms. message_results m) ag (ag\<lparr>ag_world := w\<rparr>)"
    by (intro joins_queue [OF inv d(1) qu(2) _ ms(1) _ qu(1) ds dom qu(4)])
  moreover have "concat (map message_handles ms) = []" "(\<Union>m \<in> set ms. message_results m) = {}"
    using c(2,3) by simp_all
  ultimately show ?thesis using call(1) by simp
qed

end
