(* ===== verification/Reactor.thy ===== *)
theory Reactor
  imports Curl_Uv Agent_Run
begin

text \<open>
  The invariant of the reactor loop of \<open>cbits/curl_uv.c\<close> and its preservation: every socket context
  is a poll handle of the loop, a closed one is owed exactly one close callback, and the pointers
  libcurl keeps are those of contexts that are not closed.
\<close>

section \<open>The invariant\<close>

definition context_ok :: "reactor \<Rightarrow> addr \<Rightarrow> socket_context \<Rightarrow> bool" where
  "context_ok r p c \<longleftrightarrow> p \<noteq> NULL \<and> poll_data c = p \<and> re_context r \<noteq> NULL \<and> context_multi c = re_context r
     \<and> (poll_closing c \<longleftrightarrow> p \<in> set (re_closes r)) \<and> p \<in> set (re_polls r)"

definition assigned_ok :: "reactor \<Rightarrow> curl_socket \<Rightarrow> bool" where
  "assigned_ok r fd \<longleftrightarrow> re_assigned r fd = NULL
     \<or> (\<exists>c. re_sockets r (re_assigned r fd) = Some c \<and> \<not> poll_closing c \<and> socket_fd c = fd)"

definition options_ok :: "reactor \<Rightarrow> bool" where
  "options_ok r \<longleftrightarrow> (\<forall>opt. value_pointer (re_options r opt) \<in> {NULL, re_context r})"

definition uv_inv :: "reactor \<Rightarrow> bool" where
  "uv_inv r \<longleftrightarrow> (\<forall>p c. re_sockets r p = Some c \<longrightarrow> context_ok r p c)
     \<and> distinct (re_polls r) \<and> distinct (re_closes r)
     \<and> (\<forall>p \<in> set (re_polls r) \<union> set (re_closes r). re_sockets r p \<noteq> None)
     \<and> (\<forall>fd. assigned_ok r fd) \<and> options_ok r"

lemma uv_invD:
  assumes "uv_inv r"
  shows "re_sockets r p = Some c \<Longrightarrow> context_ok r p c" "distinct (re_polls r)" "distinct (re_closes r)"
    "p \<in> set (re_polls r) \<or> p \<in> set (re_closes r) \<Longrightarrow> \<exists>c. re_sockets r p = Some c" "assigned_ok r fd" "options_ok r"
  using assms by (auto simp: uv_inv_def)

text \<open>
  A step of the loop that frees no context. The contexts keep their sockets.
\<close>

definition uv_step :: "reactor \<Rightarrow> reactor \<Rightarrow> bool" where
  "uv_step r r' \<longleftrightarrow> uv_inv r' \<and> re_context r' = re_context r \<and> re_options r' = re_options r
     \<and> (\<forall>p c. re_sockets r p = Some c \<longrightarrow> (\<exists>c'. re_sockets r' p = Some c' \<and> socket_fd c' = socket_fd c))"

lemma uv_step_refl: "uv_inv r \<Longrightarrow> uv_step r r"
  by (simp add: uv_step_def)

lemma uv_step_trans: "uv_step r r' \<Longrightarrow> uv_step r' r'' \<Longrightarrow> uv_step r r''"
  by (simp add: uv_step_def) metis

lemma uv_step_agent [simp]:
  "uv_inv (r\<lparr>re_agent := ag\<rparr>) = uv_inv r" "uv_step r (r'\<lparr>re_agent := ag\<rparr>) = uv_step r r'"
  "uv_step (r\<lparr>re_agent := ag\<rparr>) r' = uv_step r r'"
  by (simp_all add: uv_step_def uv_inv_def context_ok_def assigned_ok_def options_ok_def)

lemma uv_step_timer:
  assumes "uv_inv r"
  shows "uv_step r (r\<lparr>re_timer := t\<rparr>)" "uv_step r (r\<lparr>timer_closing := b, re_timer := t\<rparr>)"
    "uv_step r (r\<lparr>async_closing := b\<rparr>)"
  using assms by (simp_all add: uv_step_def uv_inv_def context_ok_def assigned_ok_def options_ok_def)

section \<open>Steps of the handles\<close>

text \<open>Changing the events a handle waits for.\<close>

lemma events_step:
  assumes inv: "uv_inv r" and p: "re_sockets r p = Some c"
  shows "uv_step r (r\<lparr>re_sockets := (re_sockets r)(p \<mapsto> c\<lparr>poll_events := e\<rparr>)\<rparr>)"
proof -
  let ?r = "r\<lparr>re_sockets := (re_sockets r)(p \<mapsto> c\<lparr>poll_events := e\<rparr>)\<rparr>"
  note d = uv_invD [OF inv]
  have "context_ok ?r q u" if "re_sockets ?r q = Some u" for q u
    using that d(1) [OF p] d(1) [of q u] by (auto simp: context_ok_def split: if_splits)
  moreover have "assigned_ok ?r fd" for fd using d(5) [of fd] p by (auto simp: assigned_ok_def)
  ultimately have "uv_inv ?r" using inv by (simp add: uv_inv_def options_ok_def)
  then show ?thesis using p by (simp add: uv_step_def)
qed

lemma forget_step:
  assumes inv: "uv_inv r"
  shows "uv_step r (r\<lparr>re_assigned := (re_assigned r)(fd := NULL)\<rparr>)"
  using inv by (simp add: uv_step_def uv_inv_def context_ok_def assigned_ok_def options_ok_def)

lemma uv_close_step:
  assumes inv: "uv_inv r" and p: "re_sockets r p = Some c" "\<not> poll_closing c"
    and free: "\<And>fd. re_assigned r fd \<noteq> p"
  shows "\<exists>r'. uv_close p r = Some r' \<and> uv_step r r' \<and> re_agent r' = re_agent r \<and> re_assigned r' = re_assigned r
    \<and> re_polls r' = re_polls r"
proof -
  let ?c = "c\<lparr>poll_closing := True, poll_events := None\<rparr>"
  let ?r = "r\<lparr>re_sockets := (re_sockets r)(p \<mapsto> ?c), re_closes := re_closes r @ [p]\<rparr>"
  note d = uv_invD [OF inv]
  have new: "p \<notin> set (re_closes r)" using d(1) [OF p(1)] p(2) by (simp add: context_ok_def)
  have "context_ok ?r q u" if "re_sockets ?r q = Some u" for q u
    using that d(1) [OF p(1)] d(1) [of q u] by (auto simp: context_ok_def split: if_splits)
  moreover have "assigned_ok ?r fd" for fd using d(5) [of fd] free [of fd] by (auto simp: assigned_ok_def)
  ultimately have "uv_inv ?r" using inv new by (simp add: uv_inv_def options_ok_def)
  then have "uv_step r ?r" using p(1) by (simp add: uv_step_def)
  then show ?thesis using p by (intro exI [of _ ?r]) (simp add: uv_close_def)
qed

text \<open>A closed context is never handed out by libcurl, so destroying one twice does nothing.\<close>

lemma uv_destroy_step:
  assumes inv: "uv_inv r" and p: "p = NULL \<or> re_sockets r p \<noteq> None" and free: "\<And>fd. re_assigned r fd \<noteq> p \<or> p = NULL"
  shows "\<exists>r'. destroy_socket_context p r = Some r' \<and> uv_step r r' \<and> re_agent r' = re_agent r"
proof (cases "p = NULL")
  case False
  then obtain c where c: "re_sockets r p = Some c" using p by auto
  show ?thesis
  proof (cases "poll_closing c")
    case True
    then show ?thesis using False c uv_step_refl [OF inv] by (simp add: destroy_socket_context_def)
  next
    case open_c: False
    have "re_assigned r fd \<noteq> p" for fd using free [of fd] False by blast
    from uv_close_step [OF inv c open_c this] show ?thesis using False c open_c by (auto simp: destroy_socket_context_def)
  qed
qed (use uv_step_refl [OF inv] in \<open>simp add: destroy_socket_context_def\<close>)

lemma stop_step:
  assumes inv: "uv_inv r" and p: "re_sockets r p = Some c" "\<not> poll_closing c"
  shows "\<exists>r'. uv_poll_stop p r = Some r' \<and> uv_step r r' \<and> re_agent r' = re_agent r \<and> re_assigned r' = re_assigned r"
  using events_step [OF inv p(1), of None] p by (simp add: uv_poll_stop_def)

lemma start_step:
  assumes inv: "uv_inv r" and p: "re_sockets r p = Some c" "\<not> poll_closing c"
  shows "\<exists>code r'. uv_poll_start p events answer r = Some (code, r') \<and> uv_step r r' \<and> re_agent r' = re_agent r"
  using events_step [OF inv p(1), of "Some events"] uv_step_refl [OF inv] p by (simp add: uv_poll_start_def)

text \<open>\<open>calloc\<close> returns fresh memory.\<close>

definition fresh_alloc :: "uv_answers \<Rightarrow> bool" where
  "fresh_alloc ua \<longleftrightarrow> (\<forall>S. ua_calloc ua S = NULL \<or> S (ua_calloc ua S) = None)"

lemma new_step:
  assumes inv: "uv_inv r" and ctx: "m = re_context r" "m \<noteq> NULL" and fresh: "fresh_alloc ua"
    and n: "new_socket_context m fd ua r = (p, r1)"
  shows "uv_step r r1" "re_agent r1 = re_agent r" "re_assigned r1 = re_assigned r" "re_assigned r fd' \<noteq> p \<or> p = NULL"
    "p \<noteq> NULL \<Longrightarrow> \<exists>c. re_sockets r1 p = Some c \<and> \<not> poll_closing c \<and> socket_fd c = fd"
proof -
  note d = uv_invD [OF inv]
  have fr: "ua_calloc ua (re_sockets r) = NULL \<or> re_sockets r (ua_calloc ua (re_sockets r)) = None"
    using fresh [unfolded fresh_alloc_def, THEN spec, of "re_sockets r"] .
  show "uv_step r r1"
  proof (cases "p = NULL")
    case True
    then show ?thesis using n uv_step_refl [OF inv] by (auto simp: new_socket_context_def Let_def split: if_splits)
  next
    case False
    let ?c = "\<lparr>socket_fd = fd, context_multi = m, poll_data = p, poll_events = None, poll_closing = False\<rparr>"
    have r1: "r1 = r\<lparr>re_sockets := (re_sockets r)(p \<mapsto> ?c), re_polls := re_polls r @ [p]\<rparr>"
      and pa: "p = ua_calloc ua (re_sockets r)"
      using n False by (auto simp: new_socket_context_def Let_def split: if_splits)
    have none: "re_sockets r p = None" using fr pa False by metis
    have nin: "p \<notin> set (re_polls r)" "p \<notin> set (re_closes r)" using d(4) [of p] none by auto
    have "context_ok r1 q u" if "re_sockets r1 q = Some u" for q u
      using that d(1) [of q u] ctx nin False by (auto simp: r1 context_ok_def split: if_splits)
    moreover have "assigned_ok r1 x" for x using d(5) [of x] none by (auto simp: r1 assigned_ok_def)
    moreover have "\<forall>q \<in> set (re_polls r1) \<union> set (re_closes r1). re_sockets r1 q \<noteq> None"
      using d(4) by (auto simp: r1)
    ultimately have "uv_inv r1" using inv nin by (simp add: uv_inv_def options_ok_def r1)
    then show ?thesis using none by (auto simp: uv_step_def r1)
  qed
  show "re_assigned r fd' \<noteq> p \<or> p = NULL"
    using n d(5) [of fd'] fr by (auto simp: new_socket_context_def Let_def assigned_ok_def split: if_splits)
qed (use n in \<open>auto simp: new_socket_context_def Let_def split: if_splits\<close>)

section \<open>Callbacks of libcurl\<close>

lemma assign_step:
  assumes inv: "uv_inv r" and p: "re_sockets r p = Some c" "\<not> poll_closing c" "socket_fd c = fd"
  shows "uv_step r (r\<lparr>re_assigned := (re_assigned r)(fd := p)\<rparr>)"
  using inv p by (auto simp: uv_step_def uv_inv_def context_ok_def assigned_ok_def options_ok_def)

text \<open>After \<open>CURL_POLL_REMOVE\<close> libcurl has no entry for the socket, whatever \<open>curl_multi_assign\<close> answered.\<close>

definition dropped :: "int \<Rightarrow> curl_socket \<Rightarrow> reactor \<Rightarrow> reactor" where
  "dropped action fd r = (if action = CURL_POLL_REMOVE then r\<lparr>re_assigned := (re_assigned r)(fd := NULL)\<rparr> else r)"

lemma destroy_forget:
  "destroy_socket_context p (r\<lparr>re_assigned := a\<rparr>) = map_option (\<lambda>r. r\<lparr>re_assigned := a\<rparr>) (destroy_socket_context p r)"
  by (simp add: destroy_socket_context_def uv_close_def split: option.split)

lemma remove_step:
  assumes inv: "uv_inv r" and c: "re_sockets r p = Some c" "\<not> poll_closing c" "socket_fd c = fd"
    and b: "r1 = (if b then r\<lparr>re_assigned := (re_assigned r)(fd := NULL)\<rparr> else r)"
  shows "\<exists>r'. destroy_socket_context p r1 = Some r' \<and> uv_step r (r'\<lparr>re_assigned := (re_assigned r)(fd := NULL)\<rparr>)
    \<and> re_agent r' = re_agent r \<and> re_assigned r' = re_assigned r1"
proof -
  let ?a = "(re_assigned r)(fd := NULL)"
  let ?f = "r\<lparr>re_assigned := ?a\<rparr>"
  note fs = forget_step [OF inv, of fd]
  then have inv1: "uv_inv ?f" by (simp add: uv_step_def)
  have ne: "p \<noteq> NULL" using uv_invD(1) [OF inv c(1)] by (simp add: context_ok_def)
  have free: "re_assigned ?f x \<noteq> p \<or> p = NULL" for x
  proof (cases "x = fd")
    case False
    then show ?thesis using uv_invD(5) [OF inv, of x] c by (auto simp: assigned_ok_def)
  qed (use ne in simp)
  have "re_sockets ?f p \<noteq> None" using c(1) by simp
  with uv_destroy_step [OF inv1 _ free] obtain r2 where r2: "destroy_socket_context p ?f = Some r2" "uv_step ?f r2"
    "re_agent r2 = re_agent ?f" by blast
  obtain r' where r': "destroy_socket_context p r = Some r'" "r2 = r'\<lparr>re_assigned := ?a\<rparr>"
    using r2(1) destroy_forget [of p ?a r] by auto
  have same: "re_assigned r' = re_assigned r"
    using r'(1) by (auto simp: destroy_socket_context_def uv_close_def split: option.splits if_splits)
  have step: "uv_step r (r'\<lparr>re_assigned := ?a\<rparr>)" using uv_step_trans [OF fs r2(2)] r'(2) by simp
  show ?thesis
  proof (cases b)
    case True
    then show ?thesis using b r2(1,3) r' step by auto
  next
    case False
    then show ?thesis using b r2(3) r' step same by auto
  qed
qed

lemma socket_function_step:
  assumes inv: "uv_inv r" and ud: "ud \<in> {NULL, re_context r}" and sd: "sd \<in> {NULL, re_assigned r fd}"
    and fresh: "fresh_alloc ua"
  shows "\<exists>answer r'. curl_socket_function fd action ud sd ua r = Some (answer, r')
    \<and> uv_step r (dropped action fd r') \<and> re_agent r' = re_agent r"
proof -
  note d = uv_invD [OF inv]
  have live: "\<exists>c. re_sockets r sd = Some c \<and> \<not> poll_closing c \<and> socket_fd c = fd" if "sd \<noteq> NULL"
    using that sd d(5) [of fd] by (auto simp: assigned_ok_def)
  consider "ud = NULL" | "ud \<noteq> NULL" "action = CURL_POLL_IN \<or> action = CURL_POLL_OUT \<or> action = CURL_POLL_INOUT"
    | "ud \<noteq> NULL" "action = CURL_POLL_REMOVE"
    | "ud \<noteq> NULL" "\<not> (action = CURL_POLL_IN \<or> action = CURL_POLL_OUT \<or> action = CURL_POLL_INOUT)"
      "action \<noteq> CURL_POLL_REMOVE" by blast
  then show ?thesis
  proof cases
    case 2
    then have ctx: "ud = re_context r" using ud by auto
    have "action \<noteq> CURL_POLL_REMOVE" using 2(2) by (auto simp: uv_consts)
    then have dr: "dropped action fd x = x" for x by (simp add: dropped_def)
    show ?thesis
    proof (cases "sd = NULL")
      case True
      obtain p r1 where n: "new_socket_context ud fd ua r = (p, r1)" by fastforce
      note ns = new_step [OF inv ctx 2(1) fresh n]
      have inv1: "uv_inv r1" using ns(1) by (simp add: uv_step_def)
      show ?thesis
      proof (cases "p = NULL \<or> ua_assign ua \<noteq> CURLM_OK")
        case fail: True
        have "p = NULL \<or> re_sockets r1 p \<noteq> None" "\<And>x. re_assigned r1 x \<noteq> p \<or> p = NULL"
          using ns(3,5) new_step(4) [OF inv ctx 2(1) fresh n] by auto
        from uv_destroy_step [OF inv1 this] obtain r2 where r2: "destroy_socket_context p r1 = Some r2" "uv_step r1 r2"
          "re_agent r2 = re_agent r1" by blast
        then have "curl_socket_function fd action ud sd ua r = Some (-1, r2)"
          using 2 ctx True n fail by (auto simp: curl_socket_function_def)
        then show ?thesis using uv_step_trans [OF ns(1) r2(2)] r2(3) ns(2) dr by simp
      next
        case ok: False
        then obtain c where c: "re_sockets r1 p = Some c" "\<not> poll_closing c" "socket_fd c = fd" using ns(5) by blast
        let ?r2 = "r1\<lparr>re_assigned := (re_assigned r1)(fd := p)\<rparr>"
        note as = assign_step [OF inv1 c]
        then have inv2: "uv_inv ?r2" by (simp add: uv_step_def)
        have c2: "re_sockets ?r2 p = Some c" using c(1) by simp
        obtain code r3 where s: "uv_poll_start p (poll_mask action) (ua_poll_start ua) ?r2 = Some (code, r3)"
          "uv_step ?r2 r3" "re_agent r3 = re_agent ?r2" using start_step [OF inv2 c2 c(2)] by blast
        have "curl_socket_function fd action ud sd ua r = Some (if code = 0 then 0 else -1, r3)"
          using 2 ctx True n ok s(1) by (auto simp: curl_socket_function_def)
        then show ?thesis using uv_step_trans [OF ns(1) uv_step_trans [OF as s(2)]] s(3) ns(2) dr by simp
      qed
    next
      case False
      then obtain c where c: "re_sockets r sd = Some c" "\<not> poll_closing c" using live by blast
      obtain code r3 where s: "uv_poll_start sd (poll_mask action) (ua_poll_start ua) r = Some (code, r3)"
        "uv_step r r3" "re_agent r3 = re_agent r" using start_step [OF inv c] by blast
      then have "curl_socket_function fd action ud sd ua r = Some (if code = 0 then 0 else -1, r3)"
        using 2 ctx False c by (auto simp: curl_socket_function_def)
      then show ?thesis using s dr by simp
    qed
  next
    case 3
    then have ctx: "ud = re_context r" using ud by auto
    have act: "\<not> (action = CURL_POLL_IN \<or> action = CURL_POLL_OUT \<or> action = CURL_POLL_INOUT)"
      using 3 by (simp add: uv_consts)
    show ?thesis
    proof (cases "sd = NULL")
      case True
      then show ?thesis using 3 ctx act forget_step [OF inv, of fd] by (simp add: curl_socket_function_def dropped_def)
    next
      case False
      then obtain c where c: "re_sockets r sd = Some c" "\<not> poll_closing c" "socket_fd c = fd" using live by blast
      then obtain r1 where r1: "uv_poll_stop sd r = Some r1" "uv_step r r1" "re_agent r1 = re_agent r"
        "re_assigned r1 = re_assigned r" using stop_step [OF inv] by blast
      have inv1: "uv_inv r1" using r1(2) by (simp add: uv_step_def)
      obtain c1 where c1: "re_sockets r1 sd = Some c1" "\<not> poll_closing c1" "socket_fd c1 = fd"
        using r1(1) c by (auto simp: uv_poll_stop_def)
      define r2 where "r2 = (if ua_assign ua = CURLM_OK then r1\<lparr>re_assigned := (re_assigned r1)(fd := NULL)\<rparr> else r1)"
      obtain r3 where r3: "destroy_socket_context sd r2 = Some r3"
        "uv_step r1 (r3\<lparr>re_assigned := (re_assigned r1)(fd := NULL)\<rparr>)" "re_agent r3 = re_agent r1"
        "re_assigned r3 = re_assigned r2" using remove_step [OF inv1 c1 r2_def] by blast
      have "dropped action fd r3 = r3\<lparr>re_assigned := (re_assigned r1)(fd := NULL)\<rparr>"
        using 3 r3(4) by (simp add: dropped_def r2_def)
      moreover have "curl_socket_function fd action ud sd ua r = Some (0, r3)"
        using 3 ctx act False r1(1) r3(1) by (simp add: curl_socket_function_def r2_def [symmetric])
      ultimately show ?thesis using uv_step_trans [OF r1(2) r3(2)] r3(3) r1(3) by simp
    qed
  next
    case 1
    then have "uv_step r (dropped action fd r)" using uv_step_refl [OF inv] forget_step [OF inv, of fd] by (simp add: dropped_def)
    then show ?thesis using 1 by (simp add: curl_socket_function_def)
  next
    case 4
    then show ?thesis using ud uv_step_refl [OF inv] by (simp add: curl_socket_function_def dropped_def)
  qed
qed

section \<open>Calls into libcurl\<close>

fun multi_callback_ok :: "world \<Rightarrow> multi_callback \<Rightarrow> bool" where
  "multi_callback_ok w (DataCb cb) \<longleftrightarrow> callback_ok w cb"
| "multi_callback_ok w (SocketCb fd action known ua) \<longleftrightarrow> fresh_alloc ua"
| "multi_callback_ok w (TimerCb t ua) \<longleftrightarrow> True"

text \<open>One or more steps of the loop during which libcurl moves data.\<close>

definition serves :: "reactor \<Rightarrow> reactor \<Rightarrow> bool" where
  "serves r r' \<longleftrightarrow> uv_step r r'
     \<and> (\<exists>w. re_agent r' = (re_agent r)\<lparr>ag_world := w\<rparr> \<and> calm [] (ag_world (re_agent r)) w)"

lemma serves_trans:
  assumes "serves r r'" and "serves r' r''"
  shows "serves r r''"
proof -
  obtain w w' where w: "uv_step r r'" "re_agent r' = (re_agent r)\<lparr>ag_world := w\<rparr>" "calm [] (ag_world (re_agent r)) w"
    "uv_step r' r''" "re_agent r'' = (re_agent r')\<lparr>ag_world := w'\<rparr>" "calm [] (ag_world (re_agent r')) w'"
    using assms by (auto simp: serves_def)
  have "calm [] (ag_world (re_agent r)) w'" using w(2,3,6) calm_silent(1) by auto
  then show ?thesis using w uv_step_trans by (auto simp: serves_def)
qed

lemma serves_uv:
  assumes "uv_step r r'" and "re_agent r' = re_agent r" and "world_ok (ag_world (re_agent r))"
  shows "serves r r'"
  unfolding serves_def using assms calm_refl by (intro conjI exI [of _ "ag_world (re_agent r)"]) simp_all

lemma servesD:
  assumes "serves r r'" and "uv_inv r" and "world_ok (ag_world (re_agent r))"
  shows "uv_step r r'" "uv_inv r'" "world_ok (ag_world (re_agent r'))"
    "multi_callback_ok (ag_world (re_agent r')) = multi_callback_ok (ag_world (re_agent r))"
    "env_ok (ag_world (re_agent r')) = env_ok (ag_world (re_agent r))"
proof -
  obtain w where w: "uv_step r r'" "re_agent r' = (re_agent r)\<lparr>ag_world := w\<rparr>" "calm [] (ag_world (re_agent r)) w"
    using assms(1) by (auto simp: serves_def)
  have "multi_callback_ok w x = multi_callback_ok (ag_world (re_agent r)) x" for x
    by (cases x) (simp_all add: callback_ok_calm [OF w(3)])
  then show "multi_callback_ok (ag_world (re_agent r')) = multi_callback_ok (ag_world (re_agent r))"
    using w(2) by (simp add: fun_eq_iff)
  show "uv_step r r'" "uv_inv r'" using w(1) by (simp_all add: uv_step_def)
  show "world_ok (ag_world (re_agent r'))" using calmD(1) [OF w(3)] w(2) by simp
  show "env_ok (ag_world (re_agent r')) = env_ok (ag_world (re_agent r))" using env_calm [OF w(3)] w(2) by simp
qed

lemma serves_advances: "serves r r' \<Longrightarrow> agent_inv (re_agent r) \<Longrightarrow> advances (re_agent r) (re_agent r')"
  using silent_advance by (auto simp: serves_def)

lemma timer_function_step:
  assumes inv: "uv_inv r" and ud: "ud \<in> {NULL, re_context r}"
  shows "\<exists>answer r'. curl_timer_function t ud ua r = Some (answer, r') \<and> uv_step r r' \<and> re_agent r' = re_agent r"
  using ud uv_step_refl [OF inv] uv_step_timer(1) [OF inv] by (auto simp: curl_timer_function_def)

lemma multi_callback_step:
  assumes inv: "uv_inv r" and ok: "world_ok (ag_world (re_agent r))" and cb: "multi_callback_ok (ag_world (re_agent r)) c"
  shows "\<exists>r'. run_multi_callback c r = Some r' \<and> serves r r'"
proof (cases c)
  case (DataCb d)
  then obtain w where w: "run_callback d (ag_world (re_agent r)) = Some w" "calm [] (ag_world (re_agent r)) w"
    using calm_callback [OF ok] cb by auto
  let ?r = "r\<lparr>re_agent := (re_agent r)\<lparr>ag_world := w\<rparr>\<rparr>"
  have "serves r ?r" unfolding serves_def using w(2) uv_step_refl [OF inv] by (intro conjI exI [of _ w]) simp_all
  then show ?thesis using DataCb w(1) by simp
next
  case (SocketCb fd action known ua)
  have ud: "value_pointer (re_options r SocketDataOpt) \<in> {NULL, re_context r}"
    using uv_invD(6) [OF inv] by (simp add: options_ok_def)
  have sd: "(if known then re_assigned r fd else NULL) \<in> {NULL, re_assigned r fd}" by simp
  from socket_function_step [OF inv ud sd, of ua action] cb SocketCb obtain answer r1 where
    s: "curl_socket_function fd action (value_pointer (re_options r SocketDataOpt))
        (if known then re_assigned r fd else NULL) ua r = Some (answer, r1)"
      "uv_step r (dropped action fd r1)" "re_agent r1 = re_agent r" by auto
  have "run_multi_callback c r = Some (if re_options r SocketFunctionOpt \<noteq> SocketFunction then r else dropped action fd r1)"
    using SocketCb s(1) by (simp add: dropped_def)
  moreover have "serves r (dropped action fd r1)"
    using s(2,3) ok by (intro serves_uv) (simp_all add: dropped_def)
  ultimately show ?thesis using serves_uv [OF uv_step_refl [OF inv] refl ok] by simp
next
  case (TimerCb t ua)
  have ud: "value_pointer (re_options r TimerDataOpt) \<in> {NULL, re_context r}"
    using uv_invD(6) [OF inv] by (simp add: options_ok_def)
  from timer_function_step [OF inv ud, of t ua] obtain answer r1 where
    s: "curl_timer_function t (value_pointer (re_options r TimerDataOpt)) ua r = Some (answer, r1)"
      "uv_step r r1" "re_agent r1 = re_agent r" by blast
  have "run_multi_callback c r = Some (if re_options r TimerFunctionOpt \<noteq> TimerFunction then r else r1)"
    using TimerCb s(1) by simp
  then show ?thesis using serves_uv [OF s(2,3) ok] serves_uv [OF uv_step_refl [OF inv] refl ok] by simp
qed

lemma multi_callbacks_step:
  "uv_inv r \<Longrightarrow> world_ok (ag_world (re_agent r)) \<Longrightarrow> list_all (multi_callback_ok (ag_world (re_agent r))) cs
   \<Longrightarrow> \<exists>r'. run_multi_callbacks cs r = Some r' \<and> serves r r'"
proof (induction cs arbitrary: r)
  case Nil
  then show ?case using serves_uv [OF uv_step_refl [OF Nil(1)] refl] by simp
next
  case (Cons c cs)
  obtain r1 where r1: "run_multi_callback c r = Some r1" "serves r r1"
    using multi_callback_step [OF Cons.prems(1,2), of c] Cons.prems(3) by auto
  note d = servesD [OF r1(2) Cons.prems(1,2)]
  obtain r2 where "run_multi_callbacks cs r1 = Some r2" "serves r1 r2"
    using Cons.IH [OF d(2,3)] Cons.prems(3) d(4) by auto
  then show ?case using r1 serves_trans by auto
qed

text \<open>libcurl does not ask to be called again for ever.\<close>

definition multi_answers_ok :: "world \<Rightarrow> (multi_callback list \<times> CURLMcode) list \<Rightarrow> bool" where
  "multi_answers_ok w as \<longleftrightarrow> (\<forall>a \<in> set as. list_all (multi_callback_ok w) (fst a))
     \<and> (\<exists>a \<in> set as. snd a \<noteq> CURLM_CALL_MULTI_PERFORM)"

lemma perform_step:
  "uv_inv r \<Longrightarrow> world_ok (ag_world (re_agent r)) \<Longrightarrow> multi_answers_ok (ag_world (re_agent r)) as
   \<Longrightarrow> \<exists>code r'. perform_loop as r = Some (code, r') \<and> serves r r' \<and> code \<in> snd ` set as"
proof (induction as arbitrary: r)
  case (Cons a as)
  obtain cbs code where a: "a = (cbs, code)" by (cases a)
  obtain r1 where r1: "run_multi_callbacks cbs r = Some r1" "serves r r1"
    using multi_callbacks_step [OF Cons.prems(1,2), of cbs] Cons.prems(3) a by (auto simp: multi_answers_ok_def)
  note d = servesD [OF r1(2) Cons.prems(1,2)]
  show ?case
  proof (cases "code = CURLM_CALL_MULTI_PERFORM")
    case True
    then have "multi_answers_ok (ag_world (re_agent r1)) as"
      using Cons.prems(3) a d(4) by (auto simp: multi_answers_ok_def)
    from Cons.IH [OF d(2,3) this] obtain code' r2 where
      "perform_loop as r1 = Some (code', r2)" "serves r1 r2" "code' \<in> snd ` set as" by blast
    then show ?thesis using a True r1 serves_trans by auto
  qed (use a r1 in auto)
qed (simp add: multi_answers_ok_def)

section \<open>Events of the loop\<close>

definition reactor_inv :: "reactor \<Rightarrow> bool" where
  "reactor_inv r \<longleftrightarrow> agent_inv (re_agent r) \<and> uv_inv r"

lemma reactor_invD:
  assumes "reactor_inv r"
  shows "agent_inv (re_agent r)" "uv_inv r" "world_ok (ag_world (re_agent r))"
  using assms agent_coreD(1) agent_invD(1) by (auto simp: reactor_inv_def)

text \<open>
  What is documented of libcurl and \<open>calloc\<close>, for one event: the answers are as in \<open>env_ok\<close>, the
  callbacks are the installed ones, and libcurl does not ask to be called again for ever.
\<close>

definition uv_env_ok :: "world \<Rightarrow> uv_env \<Rightarrow> bool" where
  "uv_env_ok w env \<longleftrightarrow> env_ok w (ue_curl env) \<and> (\<forall>fd fl. multi_answers_ok w (ue_action env fd fl))
     \<and> multi_answers_ok w (ue_all env)"

definition reacts :: "reactor \<Rightarrow> reactor \<Rightarrow> bool" where
  "reacts r r' \<longleftrightarrow> uv_step r r' \<and> advances (re_agent r) (re_agent r')"

lemma reacts_inv: "reacts r r' \<Longrightarrow> reactor_inv r'"
  using takesD(1) by (auto simp: reacts_def reactor_inv_def uv_step_def)

lemma serves_reacts:
  assumes "serves r r'" and "reactor_inv r" and "reacts r' r''"
  shows "reacts r r''"
  using assms serves_advances [OF assms(1) reactor_invD(1) [OF assms(2)]] takes_trans uv_step_trans
  by (auto simp: reacts_def serves_def)

lemma serves_inv:
  assumes "serves r r'" and "reactor_inv r"
  shows "reactor_inv r'"
  using takesD(1) [OF serves_advances [OF assms(1) reactor_invD(1) [OF assms(2)]]] assms
    servesD(2) [OF assms(1) reactor_invD(2,3) [OF assms(2)]] by (simp add: reactor_inv_def)

lemma check_step:
  assumes inv: "reactor_inv r" and env: "env_ok (ag_world (re_agent r)) (ue_curl env)"
  shows "\<exists>r'. check_reactor env r = Some r' \<and> reacts r r'"
proof -
  obtain ag where "check_multi_info (ue_curl env) (re_agent r) = Some ag" "advances (re_agent r) ag"
    using check_multi_info_law [OF reactor_invD(1) [OF inv] env] by blast
  then show ?thesis using uv_step_refl [OF reactor_invD(2) [OF inv]] by (simp add: check_reactor_def reacts_def)
qed

lemma fail_step:
  assumes inv: "reactor_inv r" and env: "env_ok (ag_world (re_agent r)) (ue_curl env)"
  shows "\<exists>r'. fail_reactor env code r = Some r' \<and> reacts r r' \<and> ag_transfers (re_agent r') = Map.empty
    \<and> buckets (ag_registry (re_agent r')) = None
    \<and> (\<exists>m. w_senders (ag_world (re_agent r')) (ag_sender (re_agent r)) = Some m \<and> sender_closed m)
    \<and> last (w_log (ag_world (re_agent r'))) = UvStop"
proof -
  note ai = reactor_invD(1) [OF inv]
  obtain ag m where s: "shutdown_message_context (ue_curl env) code (re_agent r) = Some ag" "advances (re_agent r) ag"
    "ag_transfers ag = Map.empty" "buckets (ag_registry ag) = None"
    "w_senders (ag_world ag) (ag_sender (re_agent r)) = Some m" "sender_closed m"
    using shutdown_law [OF ai env] by blast
  note inv1 = takesD(1) [OF s(2)]
  let ?w = "log_calls [UvStop] (ag_world ag)"
  have "calm [] (ag_world ag) ?w"
    using calm_log [OF agent_coreD(1) [OF agent_invD(1) [OF inv1]], of "[UvStop]"] by simp
  from takes_trans [OF s(2) silent_advance [OF inv1 this]] show ?thesis
    using s uv_step_refl [OF reactor_invD(2) [OF inv]]
    by (simp add: fail_reactor_def reacts_def) (simp add: log_calls_def)
qed

lemma verdict_step:
  assumes "reactor_inv r" and "env_ok (ag_world (re_agent r)) (ue_curl env)"
  shows "\<exists>r'. (if code \<noteq> CURLM_OK then fail_reactor env fc r else check_reactor env r) = Some r' \<and> reacts r r'"
  using fail_step [OF assms, of fc] check_step [OF assms] by (cases "code = CURLM_OK") auto

lemma drive_step:
  assumes inv: "reactor_inv r" and env: "uv_env_ok (ag_world (re_agent r)) env"
  shows "\<exists>code r'. drive_multi_socket env fd flags r = Some (code, r') \<and> serves r r'
    \<and> (code = CURLM_BAD_SOCKET \<longrightarrow> re_assigned r' fd = NULL)"
proof -
  note d = reactor_invD [OF inv]
  have "multi_answers_ok (ag_world (re_agent r)) (ue_action env fd flags)" using env by (simp add: uv_env_ok_def)
  from perform_step [OF d(2,3) this] obtain code r1 where
    p: "perform_loop (ue_action env fd flags) r = Some (code, r1)" "serves r r1" by blast
  note s = servesD [OF p(2) d(2,3)]
  have "serves r (r1\<lparr>re_assigned := (re_assigned r1)(fd := NULL)\<rparr>)"
    by (rule serves_trans [OF p(2) serves_uv [OF forget_step [OF s(2)] _ s(3)]]) simp
  then show ?thesis using p by (simp add: drive_multi_socket_def)
qed

text \<open>Retiring the watcher of a socket that libcurl does not know.\<close>

lemma retire_step:
  assumes inv: "uv_inv r" and ok: "world_ok (ag_world (re_agent r))" and p: "re_sockets r p = Some c"
    and fd: "re_assigned r (socket_fd c) = NULL"
  shows "\<exists>r'. (if poll_closing c then Some r
      else Option.bind (uv_poll_stop p r) (destroy_socket_context p)) = Some r' \<and> serves r r'"
proof (cases "poll_closing c")
  case True
  then show ?thesis using serves_uv [OF uv_step_refl [OF inv] refl ok] by simp
next
  case False
  have ne: "p \<noteq> NULL" using uv_invD(1) [OF inv p] by (simp add: context_ok_def)
  have free: "re_assigned r x \<noteq> p" for x
    using uv_invD(5) [OF inv, of x] p fd ne by (auto simp: assigned_ok_def)
  obtain r1 where r1: "uv_poll_stop p r = Some r1" "uv_step r r1" "re_agent r1 = re_agent r"
    "re_assigned r1 = re_assigned r" using stop_step [OF inv p False] by blast
  have "uv_inv r1" "re_sockets r1 p \<noteq> None" using r1(2) p by (auto simp: uv_step_def)
  with uv_destroy_step [of r1 p] free r1(4) obtain r2 where
    "destroy_socket_context p r1 = Some r2" "uv_step r1 r2" "re_agent r2 = re_agent r1" by metis
  then show ?thesis using False r1 serves_uv [OF uv_step_trans [OF r1(2)]] ok by auto
qed

lemma uv_env_serves:
  assumes "serves r r'" and "reactor_inv r" and "uv_env_ok (ag_world (re_agent r)) env"
  shows "uv_env_ok (ag_world (re_agent r')) env" "env_ok (ag_world (re_agent r')) (ue_curl env)"
  using assms(3) servesD(4,5) [OF assms(1) reactor_invD(2,3) [OF assms(2)]]
  by (simp_all add: uv_env_ok_def multi_answers_ok_def)

lemma bad_socket_step:
  assumes inv: "reactor_inv r" and env: "uv_env_ok (ag_world (re_agent r)) env"
  shows "\<exists>r'. (if en_version (ue_curl env) < 0x071301
      then do {
        (code2, r3) \<leftarrow> perform_loop (ue_all env) r;
        if code2 \<noteq> CURLM_OK then fail_reactor env CURLE_RECV_ERROR r3 else check_reactor env r3
      }
      else check_reactor env r) = Some r' \<and> reacts r r'"
proof -
  note d = reactor_invD [OF inv]
  have a: "multi_answers_ok (ag_world (re_agent r)) (ue_all env)" "env_ok (ag_world (re_agent r)) (ue_curl env)"
    using env by (simp_all add: uv_env_ok_def)
  obtain code2 r3 where p: "perform_loop (ue_all env) r = Some (code2, r3)" "serves r r3"
    using perform_step [OF d(2,3) a(1)] by blast
  note inv3 = serves_inv [OF p(2) inv] and env3 = uv_env_serves(2) [OF p(2) inv env]
  show ?thesis
    using p(1) serves_reacts [OF p(2) inv] verdict_step [OF inv3 env3, of code2 CURLE_RECV_ERROR] check_step [OF inv a(2)]
    by (cases "en_version (ue_curl env) < 0x071301") auto
qed

lemma socket_callback_law:
  assumes inv: "reactor_inv r" and env: "uv_env_ok (ag_world (re_agent r)) env" and p: "re_sockets r poll = Some c"
  shows "\<exists>r'. socket_callback env poll status events r = Some r' \<and> reacts r r'"
proof -
  note d = reactor_invD [OF inv]
  have c: "poll \<noteq> NULL" "poll_data c = poll" "context_multi c = re_context r" "re_context r \<noteq> NULL"
    using uv_invD(1) [OF d(2) p] by (simp_all add: context_ok_def)
  let ?fl = "select_flags status events"
  obtain code r1 where dr: "drive_multi_socket env (socket_fd c) ?fl r = Some (code, r1)" "serves r r1"
    "code = CURLM_BAD_SOCKET \<longrightarrow> re_assigned r1 (socket_fd c) = NULL" using drive_step [OF inv env] by blast
  note inv1 = serves_inv [OF dr(2) inv] and env1 = uv_env_serves [OF dr(2) inv env]
  note d1 = reactor_invD [OF inv1]
  obtain c1 where c1: "re_sockets r1 poll = Some c1" "socket_fd c1 = socket_fd c"
    using dr(2) p by (auto simp: serves_def uv_step_def)
  show ?thesis
  proof (cases "code = CURLM_BAD_SOCKET")
    case True
    then have "re_assigned r1 (socket_fd c1) = NULL" using dr(3) c1(2) by simp
    from retire_step [OF d1(2,3) c1(1) this] obtain r2 where r2:
      "(if poll_closing c1 then Some r1 else Option.bind (uv_poll_stop poll r1) (destroy_socket_context poll)) = Some r2"
      "serves r1 r2" by blast
    obtain r3 where r3: "(if en_version (ue_curl env) < 0x071301
      then do {
        (code2, r3) \<leftarrow> perform_loop (ue_all env) r2;
        if code2 \<noteq> CURLM_OK then fail_reactor env CURLE_RECV_ERROR r3 else check_reactor env r3
      }
      else check_reactor env r2) = Some r3" "reacts r2 r3"
      using bad_socket_step [OF serves_inv [OF r2(2) inv1] uv_env_serves(1) [OF r2(2) inv1 env1(1)]] by blast
    have "socket_callback env poll status events r = Some r3"
      using c p dr(1) True c1(1) r2(1) r3(1)
      by (cases "poll_closing c1") (auto simp: socket_callback_def split: Option.bind_splits)
    then show ?thesis using serves_reacts [OF dr(2) inv serves_reacts [OF r2(2) inv1 r3(2)]] by blast
  next
    case False
    obtain r2 where r2: "(if code \<noteq> CURLM_OK then fail_reactor env CURLE_RECV_ERROR r1 else check_reactor env r1) = Some r2"
      "reacts r1 r2" using verdict_step [OF inv1 env1(2)] by blast
    have "socket_callback env poll status events r = Some r2"
      using c p dr(1) False r2(1) by (simp add: socket_callback_def)
    then show ?thesis using serves_reacts [OF dr(2) inv r2(2)] by blast
  qed
qed

lemma on_timeout_law:
  assumes inv: "reactor_inv r" and env: "uv_env_ok (ag_world (re_agent r)) env"
  shows "\<exists>r'. on_timeout env (re_context r) r = Some r' \<and> reacts r r'"
proof -
  obtain code r1 where dr: "drive_multi_socket env CURL_SOCKET_TIMEOUT 0 r = Some (code, r1)" "serves r r1"
    using drive_step [OF inv env] by blast
  note inv1 = serves_inv [OF dr(2) inv] and env1 = uv_env_serves [OF dr(2) inv env]
  obtain r2 where r2: "(if code \<noteq> CURLM_OK then fail_reactor env CURLE_OPERATION_TIMEDOUT r1 else check_reactor env r1) = Some r2"
    "reacts r1 r2" using verdict_step [OF inv1 env1(2)] by blast
  have "reacts r r" using advances_refl [OF reactor_invD(1) [OF inv]] uv_step_refl [OF reactor_invD(2) [OF inv]]
    by (simp add: reacts_def)
  then show ?thesis using dr(1) r2 serves_reacts [OF dr(2) inv r2(2)] by (simp add: on_timeout_def)
qed

section \<open>Close callbacks and the end\<close>

lemma finish_close_law:
  assumes inv: "uv_inv r" and cl: "re_closes r = p # ps"
  shows "\<exists>r'. finish_close p (r\<lparr>re_closes := ps\<rparr>) = Some r' \<and> uv_inv r' \<and> re_agent r' = re_agent r
    \<and> re_closes r' = ps \<and> re_polls r' = remove1 p (re_polls r) \<and> re_sockets r' = (re_sockets r)(p := None)
    \<and> re_context r' = re_context r"
proof -
  note d = uv_invD [OF inv]
  obtain c where c: "re_sockets r p = Some c" using d(4) [of p] cl by auto
  have ok: "p \<noteq> NULL" "poll_data c = p" "poll_closing c" using d(1) [OF c] cl by (simp_all add: context_ok_def)
  let ?r = "r\<lparr>re_closes := ps, re_polls := remove1 p (re_polls r), re_sockets := (re_sockets r)(p := None)\<rparr>"
  have "context_ok ?r q u" if "re_sockets ?r q = Some u" for q u
    using that d(1) [of q u] cl by (auto simp: context_ok_def split: if_splits)
  moreover have "assigned_ok ?r fd" for fd using d(5) [of fd] c ok by (auto simp: assigned_ok_def)
  moreover have "\<forall>q \<in> set (re_polls ?r) \<union> set (re_closes ?r). re_sockets ?r q \<noteq> None"
    using d(2,3) d(4) cl by auto
  ultimately have "uv_inv ?r" using inv cl by (simp add: uv_inv_def options_ok_def)
  moreover have "finish_close p (r\<lparr>re_closes := ps\<rparr>) = Some ?r"
    using c ok by (simp add: finish_close_def destroy_socket_context_cb_def)
  ultimately show ?thesis by (intro exI [of _ ?r]) simp
qed

end
