(* ===== verification/Reactor_Run.thy ===== *)
theory Reactor_Run
  imports Reactor
begin

text \<open>
  Histories of an agent: submissions and stream calls of clients, wake-ups, ready sockets, timeouts
  and close callbacks in any order, and the tear-down at the end.
\<close>

section \<open>Close callbacks\<close>

lemma finish_close_frame:
  "finish_close p (r\<lparr>re_closes := X\<rparr>) = map_option (\<lambda>r. r\<lparr>re_closes := X\<rparr>) (finish_close p r)"
  by (simp add: finish_close_def destroy_socket_context_cb_def split: option.split)

lemma closes_same: "re_closes r = ps \<Longrightarrow> r\<lparr>re_closes := ps\<rparr> = r"
  by auto

lemma finish_closes_law:
  "uv_inv (r\<lparr>re_closes := ps\<rparr>) \<Longrightarrow> \<exists>r'. finish_closes ps (r\<lparr>re_closes := []\<rparr>) = Some r' \<and> uv_inv r'
    \<and> re_agent r' = re_agent r \<and> re_closes r' = [] \<and> set (re_polls r') = set (re_polls r) - set ps
    \<and> re_sockets r' = re_sockets r |` (- set ps) \<and> re_context r' = re_context r"
proof (induction ps arbitrary: r)
  case Nil
  then show ?case by simp
next
  case (Cons p ps)
  let ?r = "r\<lparr>re_closes := p # ps\<rparr>"
  obtain r1 where r1: "finish_close p (?r\<lparr>re_closes := ps\<rparr>) = Some r1" "uv_inv r1" "re_agent r1 = re_agent r"
    "re_closes r1 = ps" "re_polls r1 = remove1 p (re_polls r)" "re_sockets r1 = (re_sockets r)(p := None)"
    "re_context r1 = re_context r" using finish_close_law [OF Cons.prems, of p ps] by auto
  have f: "finish_close p (r\<lparr>re_closes := []\<rparr>) = Some (r1\<lparr>re_closes := []\<rparr>)"
    using finish_close_frame [of p "[]" "r\<lparr>re_closes := ps\<rparr>"] r1(1) by simp
  have "uv_inv (r1\<lparr>re_closes := ps\<rparr>)" using r1(2) closes_same [OF r1(4)] by simp
  from Cons.IH [OF this] obtain r' where r': "finish_closes ps (r1\<lparr>re_closes := []\<rparr>) = Some r'" "uv_inv r'"
    "re_agent r' = re_agent r1" "re_closes r' = []" "set (re_polls r') = set (re_polls r1) - set ps"
    "re_sockets r' = re_sockets r1 |` (- set ps)" "re_context r' = re_context r1" by blast
  have "distinct (re_polls r)" using uv_invD(2) [OF Cons.prems] by simp
  then have "set (re_polls r') = set (re_polls r) - set (p # ps)" using r'(5) r1(5) by auto
  moreover have "re_sockets r' = re_sockets r |` (- set (p # ps))"
    by (rule ext) (simp add: r'(6) r1(6) restrict_map_def)
  ultimately show ?case using f r' r1(3,7) by simp
qed

lemma run_closing_law:
  assumes "uv_inv r"
  shows "\<exists>r'. run_closing r = Some r' \<and> uv_inv r' \<and> re_agent r' = re_agent r \<and> re_closes r' = []
    \<and> set (re_polls r') = set (re_polls r) - set (re_closes r)
    \<and> re_sockets r' = re_sockets r |` (- set (re_closes r)) \<and> re_context r' = re_context r"
  using finish_closes_law [where r = r and ps = "re_closes r"] closes_same [OF refl, of r] assms by (simp add: run_closing_def)

section \<open>Walking over the handles\<close>

lemma walk_append: "uv_walk (hs @ hs') r = Option.bind (uv_walk hs r) (uv_walk hs')"
  by (induction hs arbitrary: r) (auto split: Option.bind_splits)

lemma walk_polls:
  "uv_inv r \<Longrightarrow> re_assigned r = (\<lambda>_. NULL) \<Longrightarrow> set ps \<subseteq> set (re_polls r) \<Longrightarrow>
   \<exists>r'. uv_walk (map PollHandle ps) r = Some r' \<and> uv_step r r' \<and> re_agent r' = re_agent r
     \<and> re_polls r' = re_polls r \<and> set ps \<union> set (re_closes r) \<subseteq> set (re_closes r')"
proof (induction ps arbitrary: r)
  case Nil
  then show ?case using uv_step_refl by simp
next
  case (Cons p ps)
  obtain c where c: "re_sockets r p = Some c" using uv_invD(4) [OF Cons.prems(1), of p] Cons.prems(3) by auto
  have ne: "p \<noteq> NULL" and cl: "poll_closing c \<longleftrightarrow> p \<in> set (re_closes r)"
    using uv_invD(1) [OF Cons.prems(1) c] by (simp_all add: context_ok_def)
  have "\<exists>r1. close_handle_cb (PollHandle p) r = Some r1 \<and> uv_step r r1 \<and> re_agent r1 = re_agent r
    \<and> re_assigned r1 = re_assigned r \<and> re_polls r1 = re_polls r \<and> set (p # re_closes r) \<subseteq> set (re_closes r1)"
  proof (cases "poll_closing c")
    case True
    then show ?thesis using c cl uv_step_refl [OF Cons.prems(1)] by simp
  next
    case False
    have "re_assigned r fd \<noteq> p" for fd using Cons.prems(2) ne by simp
    from uv_close_step [OF Cons.prems(1) c False this] obtain r1 where r1: "uv_close p r = Some r1" "uv_step r r1"
      "re_agent r1 = re_agent r" "re_assigned r1 = re_assigned r" "re_polls r1 = re_polls r" by blast
    moreover have "re_closes r1 = re_closes r @ [p]" using r1(1) c False by (auto simp: uv_close_def)
    ultimately show ?thesis using c False by auto
  qed
  then obtain r1 where r1: "close_handle_cb (PollHandle p) r = Some r1" "uv_step r r1" "re_agent r1 = re_agent r"
    "re_assigned r1 = re_assigned r" "re_polls r1 = re_polls r" "set (p # re_closes r) \<subseteq> set (re_closes r1)" by blast
  have "uv_inv r1" using r1(2) by (simp add: uv_step_def)
  from Cons.IH [OF this] obtain r2 where r2: "uv_walk (map PollHandle ps) r1 = Some r2" "uv_step r1 r2"
    "re_agent r2 = re_agent r1" "re_polls r2 = re_polls r1" "set ps \<union> set (re_closes r1) \<subseteq> set (re_closes r2)"
    using r1(4,5) Cons.prems(2,3) by auto
  then show ?case using r1 uv_step_trans [OF r1(2) r2(2)] by auto
qed

lemma walk_law:
  assumes inv: "uv_inv r" and none: "re_assigned r = (\<lambda>_. NULL)"
  shows "\<exists>r'. uv_walk (map PollHandle (re_polls r) @ (if re_context r = NULL then [] else [TimerHandle])
        @ (if b then [AsyncHandle] else [])) r = Some r'
    \<and> uv_inv r' \<and> re_agent r' = re_agent r \<and> re_context r' = re_context r \<and> set (re_polls r') \<subseteq> set (re_closes r')"
proof -
  obtain r1 where r1: "uv_walk (map PollHandle (re_polls r)) r = Some r1" "uv_step r r1" "re_agent r1 = re_agent r"
    "re_polls r1 = re_polls r" "set (re_polls r) \<subseteq> set (re_closes r1)"
    using walk_polls [OF inv none, of "re_polls r"] by auto
  have i: "uv_inv r1" "re_context r1 = re_context r" using r1(2) by (simp_all add: uv_step_def)
  define r2 where "r2 = (if re_context r = NULL then r1 else r1\<lparr>timer_closing := True, re_timer := None\<rparr>)"
  define r3 where "r3 = (if b then r2\<lparr>async_closing := True\<rparr> else r2)"
  have i2: "uv_inv r2" using i uv_step_timer(2) [OF i(1)] by (simp add: r2_def uv_step_def)
  then have i3: "uv_inv r3" using uv_step_timer(3) [OF i2] by (simp add: r3_def uv_step_def)
  have s: "re_agent r3 = re_agent r1" "re_context r3 = re_context r1" "re_polls r3 = re_polls r1" "re_closes r3 = re_closes r1"
    by (simp_all add: r3_def r2_def)
  have "uv_walk (map PollHandle (re_polls r) @ (if re_context r = NULL then [] else [TimerHandle])
        @ (if b then [AsyncHandle] else [])) r = Some r3"
    using r1(1) by (simp add: walk_append r3_def r2_def)
  then show ?thesis using i3 s r1 i(2) by simp
qed

section \<open>The end of an agent\<close>

text \<open>A libcurl that makes no callbacks of its own; the validity of callbacks can be read off \<open>env_ok\<close>.\<close>

definition plain_env :: curl_env where
  "plain_env = \<lparr>en_version = 0x080000, en_runtime = 0x080000,
     en_answers = (\<lambda>_. \<lparr>off_t_info = (\<lambda>_. (CURLE_OK, 4)), double_info = (\<lambda>_. (CURLE_OK, Finite 5 1))\<rparr>),
     en_status = (\<lambda>_. (CURLE_OK, 200)), en_set_private = (\<lambda>_. CURLE_OK),
     en_get_private = (\<lambda>evs e. (CURLE_OK, last_private e evs NULL)), en_add_handle = (\<lambda>_. CURLM_OK),
     en_pause = (\<lambda>_. ([], CURLE_OK)), en_socket_all = [([], CURLM_OK)], en_info = [],
     en_transfer = (\<lambda>T. if T 100 = None then 100 else if T 101 = None then 101 else NULL), en_resize = True\<rparr>"

lemma plain_env_ok: "env_ok w plain_env"
  by (simp add: env_ok_def plain_env_def answers_ok_def wf_double_def CURLM_OK_def CURLM_CALL_MULTI_PERFORM_def)

lemma env_callbacks:
  assumes "env_ok w = env_ok w'"
  shows "callback_ok w = callback_ok w'"
proof
  fix cb
  have "env_ok v (plain_env\<lparr>en_pause := (\<lambda>_. ([cb], CURLE_OK))\<rparr>) = callback_ok v cb" for v
    using plain_env_ok [of v] by (simp add: env_ok_def plain_env_def)
  then show "callback_ok w cb = callback_ok w' cb" using assms by metis
qed

lemma env_multi_callbacks:
  assumes "env_ok w = env_ok w'"
  shows "multi_callback_ok w = multi_callback_ok w'"
proof
  fix c
  show "multi_callback_ok w c = multi_callback_ok w' c" by (cases c) (simp_all add: env_callbacks [OF assms])
qed

lemma release_defined:
  assumes "agent_core ag"
  shows "\<exists>ss. destroy_message_context (Some ag) (ag_world ag) = Some ((ag_world ag)\<lparr>w_senders := ss\<rparr>)"
  using agent_coreD(2,3) [OF assms]
  by (auto simp: destroy_message_context_def sender_release_def channel_ok_def split: prod.splits)

lemma agent_shutdown_law:
  assumes inv: "reactor_inv r" and stop: "stop_ok (re_agent r)" and env: "env_ok (ag_world (re_agent r)) env"
    and cbs: "list_all (multi_callback_ok (ag_world (re_agent r))) cleanup" and nn: "loop \<noteq> NULL" "multi \<noteq> NULL"
  shows "\<exists>r'. agent_shutdown env cleanup loop True multi r = Some r' \<and> re_sockets r' = Map.empty
    \<and> re_polls r' = [] \<and> re_closes r' = [] \<and> re_context r' = NULL \<and> ag_transfers (re_agent r') = Map.empty
    \<and> mset (cleaned (w_log (ag_world (re_agent r')))) = handles (re_agent r)
    \<and> (\<forall>x \<in> awaited (re_agent r). settled (ag_world (re_agent r')) x)
    \<and> (\<forall>x. settled (ag_world (re_agent r)) x \<longrightarrow> settled (ag_world (re_agent r')) x)"
proof -
  note d = reactor_invD [OF inv]
  obtain ag where ag: "shutdown_message_context env CURLE_ABORTED_BY_CALLBACK (re_agent r) = Some ag"
    "advances (re_agent r) ag" "ag_transfers ag = Map.empty" "buckets (ag_registry ag) = None"
    using shutdown_law [OF d(1) env] by blast
  note t = takesD [OF ag(2)]
  have q: "messages (w_queue (ag_world ag)) = []" using t(9) [OF stop] ag(4) by (simp add: stop_ok_def)
  have h: "mset (cleaned (w_log (ag_world ag))) = handles (re_agent r)"
    using t(4) q ag(4) by (simp add: handles_def registered_handles_def nodes_def)
  have aw: "settled (ag_world ag) x" if "x \<in> awaited (re_agent r)" for x
    using t(6) [of x] that q ag(3) by (simp add: awaited_def)
  let ?r1 = "r\<lparr>re_agent := ag\<rparr>"
  have i1: "uv_inv ?r1" "world_ok (ag_world (re_agent ?r1))"
    using d(2) agent_coreD(1) [OF agent_invD(1) [OF t(1)]] by simp_all
  have "list_all (multi_callback_ok (ag_world (re_agent ?r1))) cleanup"
    using cbs env_multi_callbacks [OF t(2)] by simp
  from multi_callbacks_step [OF i1 this] obtain r2 where r2: "run_multi_callbacks cleanup ?r1 = Some r2" "serves ?r1 r2" by blast
  note s2 = servesD [OF r2(2) i1]
  obtain w2 where w2: "re_agent r2 = ag\<lparr>ag_world := w2\<rparr>" "calm [] (ag_world ag) w2" using r2(2) by (auto simp: serves_def)
  let ?r3 = "r2\<lparr>re_options := \<lambda>_. NoValue, re_assigned := \<lambda>_. NULL\<rparr>"
  have i3: "uv_inv ?r3" using s2(2) by (simp add: uv_inv_def context_ok_def assigned_ok_def options_ok_def)
  obtain r4 where r4: "uv_walk (map PollHandle (re_polls ?r3) @ (if re_context ?r3 = NULL then [] else [TimerHandle])
        @ (if True then [AsyncHandle] else [])) ?r3 = Some r4" "uv_inv r4" "re_agent r4 = re_agent ?r3"
    "set (re_polls r4) \<subseteq> set (re_closes r4)" using walk_law [OF i3, of True] by auto
  obtain r5 where r5: "run_closing r4 = Some r5" "uv_inv r5" "re_agent r5 = re_agent r4" "re_closes r5 = []"
    "set (re_polls r5) = set (re_polls r4) - set (re_closes r4)"
    "re_sockets r5 = re_sockets r4 |` (- set (re_closes r4))" using run_closing_law [OF r4(2)] by blast
  have "re_sockets r5 p = None" for p
    using r5(6) uv_invD(1) [OF r4(2), of p] r4(4) by (cases "re_sockets r4 p") (auto simp: context_ok_def restrict_map_def)
  then have "re_sockets r5 = Map.empty" by (rule ext)
  moreover have "set (re_polls r5) = {}" unfolding r5(5) using r4(4) by (rule Diff_eq_empty_iff [THEN iffD2])
  ultimately have empty: "re_sockets r5 = Map.empty" "re_polls r5 = []" by simp_all
  have a5: "re_agent r5 = ag\<lparr>ag_world := w2\<rparr>" using r5(3) r4(3) w2(1) by simp
  have "agent_core (ag\<lparr>ag_world := w2\<rparr>)"
    using agent_invD(1) [OF takesD(1) [OF silent_advance [OF t(1) w2(2)]]] .
  from release_defined [OF this] obtain ss where
    ss: "destroy_message_context (Some (re_agent r5)) (ag_world (re_agent r5)) = Some (w2\<lparr>w_senders := ss\<rparr>)"
    using a5 by auto
  let ?r = "r5\<lparr>re_context := NULL, re_agent := (re_agent r5)\<lparr>ag_world := w2\<lparr>w_senders := ss\<rparr>\<rparr>\<rparr>"
  have "agent_shutdown env cleanup loop True multi r = Some ?r"
    using nn ag(1) r2(1) r4(1) r5(1) ss by (simp add: agent_shutdown_def)
  moreover have "settled (w2\<lparr>w_senders := ss\<rparr>) x" if "settled (ag_world ag) x" for x
    using calmD(8) [OF w2(2) that] by (simp add: settled_def)
  moreover have "cleaned (w_log w2) = cleaned (w_log (ag_world ag))" using calm_logs(1) [OF w2(2)] by simp
  ultimately show ?thesis using empty r5(4) a5 ag(3) h aw t(5) by (intro exI [of _ ?r]) simp
qed

section \<open>Histories\<close>

text \<open>
  What can happen next: a client sends a message or calls a stream function; the loop is woken up
  for messages, finds a socket ready, the timer fires, or close callbacks run; libcurl calls back.
\<close>

datatype reactor_event =
    Submit bool outer_message_types execute_payload
  | StreamCall addr stream_call
  | WakeUp "nat \<Rightarrow> curl_env"
  | SocketReady uv_env addr int int
  | TimerFired uv_env
  | CloseCallbacks
  | MultiCallbacks "multi_callback list"

definition with_world :: "reactor \<Rightarrow> world \<Rightarrow> reactor" where
  "with_world r w = r\<lparr>re_agent := (re_agent r)\<lparr>ag_world := w\<rparr>\<rparr>"

fun react :: "reactor_event \<Rightarrow> reactor \<Rightarrow> reactor option" where
  "react (Submit c tag pl) r = map_option (with_world r \<circ> snd)
     (enqueue_outer_message c (ag_sender (re_agent r)) tag pl (ag_world (re_agent r)))"
| "react (StreamCall p c) r = map_option (with_world r \<circ> snd \<circ> snd) (call_on c p (ag_world (re_agent r)))"
| "react (WakeUp envs) r =
     map_option (\<lambda>ag. r\<lparr>re_agent := the ag\<rparr>) (async_check_outer_messages envs (Some (re_agent r)))"
| "react (SocketReady env p status events) r = socket_callback env p status events r"
| "react (TimerFired env) r = on_timeout env (re_context r) (r\<lparr>re_timer := None\<rparr>)"
| "react CloseCallbacks r = run_closing r"
| "react (MultiCallbacks cs) r = run_multi_callbacks cs r"

text \<open>
  The pointers of a submission are those of live objects, a client calls the streams of this agent
  with proper arguments, libuv reports only watchers that are not closed, and libcurl behaves as
  documented.
\<close>

fun event_ok :: "reactor \<Rightarrow> reactor_event \<Rightarrow> bool" where
  "event_ok r (Submit c tag pl) \<longleftrightarrow> payload_ok (ag_world (re_agent r)) pl"
| "event_ok r (StreamCall p c) \<longleftrightarrow> valid_call c
     \<and> (\<exists>s. w_streams (ag_world (re_agent r)) p = Some s \<and> s_sender s = ag_sender (re_agent r))"
| "event_ok r (WakeUp envs) \<longleftrightarrow> (\<forall>k. env_ok (ag_world (re_agent r)) (envs k))"
| "event_ok r (SocketReady env p status events) \<longleftrightarrow> uv_env_ok (ag_world (re_agent r)) env
     \<and> (\<exists>c. re_sockets r p = Some c \<and> \<not> poll_closing c)"
| "event_ok r (TimerFired env) \<longleftrightarrow> uv_env_ok (ag_world (re_agent r)) env"
| "event_ok r CloseCallbacks \<longleftrightarrow> True"
| "event_ok r (MultiCallbacks cs) \<longleftrightarrow> list_all (multi_callback_ok (ag_world (re_agent r))) cs"

text \<open>The submission an event adds to the queue, if any.\<close>

fun accepted :: "reactor_event \<Rightarrow> reactor \<Rightarrow> execute_payload list" where
  "accepted (Submit c tag pl) r =
     (if tag = EXECUTE \<and> map_option fst (enqueue_outer_message c (ag_sender (re_agent r)) tag pl
          (ag_world (re_agent r))) = Some ENQUEUE_MESSAGE_OK then [pl] else [])"
| "accepted _ r = []"

text \<open>From \<open>r\<^sub>0\<close> the agent got to a state, having accepted these submissions.\<close>

inductive history :: "reactor \<Rightarrow> execute_payload list \<Rightarrow> reactor \<Rightarrow> bool" for r0 where
  start: "history r0 [] r0"
| step: "history r0 pls r \<Longrightarrow> event_ok r e \<Longrightarrow> react e r = Some r' \<Longrightarrow> history r0 (pls @ accepted e r) r'"

definition easies :: "execute_payload list \<Rightarrow> CURL list" where
  "easies pls = filter (\<lambda>e. e \<noteq> NULL) (map p_easy pls)"

definition results :: "execute_payload list \<Rightarrow> addr set" where
  "results pls = p_result ` set pls - {NULL}"

definition tracks :: "execute_payload list \<Rightarrow> reactor \<Rightarrow> reactor \<Rightarrow> bool" where
  "tracks pls r r' \<longleftrightarrow> reactor_inv r' \<and> stop_ok (re_agent r')
     \<and> handles (re_agent r') = mset (easies pls) + handles (re_agent r)
     \<and> (\<forall>x. settled (ag_world (re_agent r)) x \<longrightarrow> settled (ag_world (re_agent r')) x)
     \<and> (\<forall>x \<in> results pls \<union> awaited (re_agent r). x \<in> awaited (re_agent r') \<or> settled (ag_world (re_agent r')) x)"

lemma tracks_refl: "reactor_inv r \<Longrightarrow> stop_ok (re_agent r) \<Longrightarrow> tracks [] r r"
  by (simp add: tracks_def easies_def results_def)

lemma tracks_trans:
  assumes "tracks pls r r'" and "tracks pls' r' r''"
  shows "tracks (pls @ pls') r r''"
proof -
  have "easies (pls @ pls') = easies pls @ easies pls'" "results (pls @ pls') = results pls \<union> results pls'"
    by (auto simp: easies_def results_def)
  then show ?thesis using assms unfolding tracks_def by (auto simp: ac_simps)
qed

lemma tracks_reacts:
  assumes r: "reacts r r'" and s: "stop_ok (re_agent r)"
  shows "tracks [] r r'"
proof -
  have "advances (re_agent r) (re_agent r')" using r by (simp add: reacts_def)
  note t = takesD [OF this]
  show ?thesis using t(4-6) t(9) [OF s] reacts_inv [OF r] by (auto simp: tracks_def easies_def results_def)
qed

lemma tracks_joins:
  assumes j: "joins hs rs (re_agent r) ag" and i: "uv_inv r" and s: "stop_ok (re_agent r)"
    and hs: "hs = easies pls" and rs: "rs = results pls"
  shows "tracks pls r (r\<lparr>re_agent := ag\<rparr>)"
  using j i s by (auto simp: tracks_def joins_def hs rs reactor_inv_def)

lemma submit_tracks:
  assumes inv: "reactor_inv r" and s: "stop_ok (re_agent r)" and pl: "payload_ok (ag_world (re_agent r)) pl"
  shows "\<exists>r'. react (Submit c tag pl) r = Some r' \<and> tracks (accepted (Submit c tag pl) r) r r'"
proof -
  let ?ag = "re_agent r"
  obtain res w where e: "enqueue_outer_message c (ag_sender ?ag) tag pl (ag_world ?ag) = Some (res, w)"
    and l: "if res = ENQUEUE_MESSAGE_OK
       then messages (w_queue w) = messages (w_queue (ag_world ?ag)) @ [build_message tag pl]
         \<and> joins (message_handles (build_message tag pl)) (message_results (build_message tag pl)) ?ag (?ag\<lparr>ag_world := w\<rparr>)
       else w = ag_world ?ag" using submit_law [OF reactor_invD(1) [OF inv] pl] by blast
  have "tracks (accepted (Submit c tag pl) r) r (with_world r w)"
  proof (cases "res = ENQUEUE_MESSAGE_OK")
    case True
    have "message_handles (build_message tag pl) = easies (accepted (Submit c tag pl) r)"
      "message_results (build_message tag pl) = results (accepted (Submit c tag pl) r)"
      using True e by (cases tag; simp add: build_message_def easies_def results_def)+
    then show ?thesis unfolding with_world_def
      using l True reactor_invD(2) [OF inv] s by (intro tracks_joins) simp_all
  next
    case False
    then show ?thesis using e l tracks_refl [OF inv s] by (simp add: with_world_def)
  qed
  then show ?thesis using e by simp
qed

text \<open>Freed contexts do not concern the agent.\<close>

lemma tracks_uv:
  assumes "reactor_inv r" and "stop_ok (re_agent r)" and "uv_inv r'" and "re_agent r' = re_agent r"
  shows "tracks [] r r'"
  using assms by (simp add: tracks_def reactor_inv_def easies_def results_def)

lemma event_law:
  assumes inv: "reactor_inv r" and s: "stop_ok (re_agent r)" and e: "event_ok r e"
  shows "\<exists>r'. react e r = Some r' \<and> tracks (accepted e r) r r'"
proof (cases e)
  case (Submit c tag pl)
  then show ?thesis using submit_tracks [OF inv s] e by (simp only: event_ok.simps)
next
  case (StreamCall p c)
  then obtain st where st: "w_streams (ag_world (re_agent r)) p = Some st" "valid_call c" "s_sender st = ag_sender (re_agent r)"
    using e by auto
  obtain acc del w where "call_on c p (ag_world (re_agent r)) = Some (acc, del, w)"
    "joins [] {} (re_agent r) ((re_agent r)\<lparr>ag_world := w\<rparr>)" using client_law [OF reactor_invD(1) [OF inv] st] by blast
  then show ?thesis using StreamCall tracks_joins [OF _ reactor_invD(2) [OF inv] s, of "[]" "{}" _ "[]"]
    by (simp add: with_world_def easies_def results_def)
next
  case (WakeUp envs)
  then have env: "env_ok (ag_world (re_agent r)) (envs k)" for k using e by simp
  obtain ag where ag: "dispatch_loop envs 0 (re_agent r) = Some ag" "advances (re_agent r) ag"
    using dispatch_law [OF reactor_invD(1) [OF inv], of envs 0] env by blast
  have "reacts r (r\<lparr>re_agent := ag\<rparr>)"
    using ag(2) uv_step_refl [OF reactor_invD(2) [OF inv]] by (simp add: reacts_def)
  then show ?thesis using WakeUp ag(1) tracks_reacts [OF _ s] by (simp add: async_check_outer_messages_def)
next
  case (SocketReady env p status events)
  then obtain c where "re_sockets r p = Some c" "uv_env_ok (ag_world (re_agent r)) env" using e by auto
  then show ?thesis using SocketReady socket_callback_law [OF inv] tracks_reacts [OF _ s] by (simp, blast)
next
  case (TimerFired env)
  let ?r = "r\<lparr>re_timer := None\<rparr>"
  note ts = uv_step_timer(1) [OF reactor_invD(2) [OF inv], of None]
  have i: "reactor_inv ?r" using ts reactor_invD(1) [OF inv] by (simp add: reactor_inv_def uv_step_def)
  have "uv_env_ok (ag_world (re_agent ?r)) env" using e TimerFired by simp
  from on_timeout_law [OF i this] obtain r' where r': "on_timeout env (re_context r) ?r = Some r'" "reacts ?r r'" by auto
  have "reacts r r'" using r'(2) uv_step_trans [OF ts] by (simp add: reacts_def)
  then show ?thesis using TimerFired r'(1) tracks_reacts [OF _ s] by simp
next
  case CloseCallbacks
  then show ?thesis using run_closing_law [OF reactor_invD(2) [OF inv]] tracks_uv [OF inv s] by auto
next
  case (MultiCallbacks cs)
  then obtain r' where r': "run_multi_callbacks cs r = Some r'" "serves r r'"
    using multi_callbacks_step [OF reactor_invD(2,3) [OF inv]] e by auto
  have "reacts r' r'" using serves_inv [OF r'(2) inv] advances_refl uv_step_refl by (simp add: reacts_def reactor_inv_def)
  then show ?thesis using MultiCallbacks r'(1) tracks_reacts [OF serves_reacts [OF r'(2) inv] s] by simp
qed

text \<open>
  What clients of the agent rely on: a system that handles every event that can come next, and whose
  account of what was accepted adds up along a history.
\<close>

locale event_ledger =
  fixes invar :: "'s \<Rightarrow> bool"
    and enabled :: "'s \<Rightarrow> 'e \<Rightarrow> bool"
    and perform :: "'e \<Rightarrow> 's \<Rightarrow> 's option"
    and entries :: "'e \<Rightarrow> 's \<Rightarrow> 'o list"
    and ledger :: "'o list \<Rightarrow> 's \<Rightarrow> 's \<Rightarrow> bool"
  assumes ledger_empty: "invar s \<Longrightarrow> ledger [] s s"
    and ledger_append: "ledger os s t \<Longrightarrow> ledger os' t u \<Longrightarrow> ledger (os @ os') s u"
    and ledger_invar: "ledger os s t \<Longrightarrow> invar t"
    and handles_event: "invar s \<Longrightarrow> enabled s e \<Longrightarrow> \<exists>t. perform e s = Some t \<and> ledger (entries e s) s t"
begin

lemma ledger_step:
  assumes "ledger os s t" and "enabled t e" and "perform e t = Some u"
  shows "ledger (os @ entries e t) s u"
  using handles_event [OF ledger_invar [OF assms(1)] assms(2)] assms(3) ledger_append [OF assms(1)] by auto

lemma never_stuck:
  assumes "ledger os s t" and "enabled t e"
  shows "\<exists>u. perform e t = Some u"
  using handles_event [OF ledger_invar [OF assms(1)] assms(2)] by blast

end

interpretation run: event_ledger "\<lambda>r. reactor_inv r \<and> stop_ok (re_agent r)" event_ok react accepted tracks
proof unfold_locales
  show "reactor_inv r \<and> stop_ok (re_agent r) \<Longrightarrow> tracks [] r r" for r using tracks_refl by blast
  show "tracks pls r r' \<Longrightarrow> tracks pls' r' r'' \<Longrightarrow> tracks (pls @ pls') r r''" for pls pls' r r' r''
    by (rule tracks_trans)
  show "tracks pls r r' \<Longrightarrow> reactor_inv r' \<and> stop_ok (re_agent r')" for pls r r' by (simp add: tracks_def)
  show "reactor_inv r \<and> stop_ok (re_agent r) \<Longrightarrow> event_ok r e
    \<Longrightarrow> \<exists>r'. react e r = Some r' \<and> tracks (accepted e r) r r'" for r e using event_law by blast
qed

lemma history_law:
  assumes "history r0 pls r" and "reactor_inv r0" and "stop_ok (re_agent r0)"
  shows "tracks pls r0 r"
  using assms(1)
proof (induction rule: history.induct)
  case start
  then show ?case using run.ledger_empty assms(2,3) by blast
next
  case (step pls r e r')
  then show ?case by (intro run.ledger_step)
qed

end
