(* ===== verification/Reactor_Props.thy ===== *)
theory Reactor_Props
  imports Reactor_Run
begin

text \<open>
  The start of an agent by \<open>init_async_check_messages\<close> and \<open>bind_uv_curl_multi\<close>, the properties of
  the reactor, and small agents on which they are tried.
\<close>

section \<open>Starting an agent\<close>

text \<open>A world in which no agent has worked yet: an empty queue, and no easy handle handed over.\<close>

definition fresh_world :: "world \<Rightarrow> bool" where
  "fresh_world w \<longleftrightarrow> world_ok w \<and> quiescent (w_queue w) \<and> messages (w_queue w) = [] \<and> owner_calls (w_log w) = []"

definition init_succeeds :: "addr \<Rightarrow> bool \<Rightarrow> addr \<Rightarrow> bool \<Rightarrow> bool \<Rightarrow> bool \<Rightarrow> bool \<Rightarrow> addr \<Rightarrow> bool \<Rightarrow> addr \<Rightarrow> bool" where
  "init_succeeds async ctx_ok sender mutex_ok cond_ok registry_ok uv_ok loop queue multi \<longleftrightarrow>
     loop \<noteq> NULL \<and> queue \<and> multi \<noteq> NULL \<and> async \<noteq> NULL \<and> ctx_ok \<and> sender \<noteq> NULL \<and> mutex_ok \<and> cond_ok
     \<and> registry_ok \<and> uv_ok"

lemma idle_zero: "sender_idle \<lparr>references = n, sender_state = 0, async_handle = a\<rparr>"
  "\<not> sender_closed \<lparr>references = n, sender_state = 0, async_handle = a\<rparr>"
proof -
  have "word_of False 0 0" by (simp add: word_of_def)
  then show "sender_idle \<lparr>references = n, sender_state = 0, async_handle = a\<rparr>" by (auto simp: sender_idle_def)
  show "\<not> sender_closed \<lparr>references = n, sender_state = 0, async_handle = a\<rparr>" by (simp add: sender_closed_def)
qed

lemma sender_added:
  assumes "world_ok w" and "quiescent (w_queue w)" and "w_senders w p = None"
  shows "world_ok (w\<lparr>w_senders := (w_senders w)(p \<mapsto> s)\<rparr>)"
proof -
  let ?w = "w\<lparr>w_senders := (w_senders w)(p \<mapsto> s)\<rparr>"
  have "stream_linked ?w u" if "stream_linked w u" for u
    using that assms(3) by (auto simp: stream_linked_def channel_ok_def)
  then show ?thesis using assms(1) by (auto simp: world_ok_def)
qed

lemma init_failed:
  assumes "\<not> init_succeeds async ctx_ok sender mutex_ok cond_ok registry_ok uv_ok loop queue multi"
    and fr: "w_senders w sender = None"
  shows "init_async_check_messages async ctx_ok sender mutex_ok cond_ok registry_ok uv_ok loop queue multi w
    = Some (None, w)"
proof -
  have undo: "(w_senders w)(sender := None) = w_senders w" using fr by auto
  have cl: "message_sender_close \<lparr>references = 1, sender_state = 0, async_handle = NULL\<rparr>
      = Some ((mark_closed \<lparr>references = 1, sender_state = 0, async_handle = NULL\<rparr>)\<lparr>async_handle := NULL\<rparr>)"
    using close_idle(1) [OF idle_zero(1)] .
  show ?thesis using assms(1) undo
    by (auto simp: init_async_check_messages_def init_succeeds_def message_sender_create_def Let_def
      sender_release_def close_sender_def cl mark_closed_def message_sender_release_def registry_init_def)
qed

lemma init_works:
  assumes ok: "init_succeeds async ctx_ok sender mutex_ok cond_ok registry_ok uv_ok loop queue multi"
    and fw: "fresh_world w" and fr: "w_senders w sender = None"
  shows "\<exists>ag. init_async_check_messages async ctx_ok sender mutex_ok cond_ok registry_ok uv_ok loop queue multi w
      = Some (Some ag, ag_world ag) \<and> agent_inv ag \<and> stop_ok ag \<and> handles ag = {#} \<and> awaited ag = {}
    \<and> ag_transfers ag = Map.empty \<and> ag_sender ag = sender \<and> ag_multi ag = multi
    \<and> ag_world ag = w\<lparr>w_senders := (w_senders w)(sender \<mapsto> \<lparr>references = 1, sender_state = 0, async_handle = async\<rparr>)\<rparr>"
proof -
  let ?s = "\<lparr>references = 1, sender_state = 0, async_handle = async\<rparr>"
  let ?w = "w\<lparr>w_senders := (w_senders w)(sender \<mapsto> ?s)\<rparr>"
  let ?ag = "\<lparr>ag_world = ?w, ag_transfers = Map.empty, ag_registry = snd (registry_init True), ag_sender = sender, ag_multi = multi\<rparr>"
  note i = ok [unfolded init_succeeds_def]
  have f: "world_ok w" "quiescent (w_queue w)" "messages (w_queue w) = []" "owner_calls (w_log w) = []"
    using fw by (simp_all add: fresh_world_def)
  have log: "cleaned (w_log w) = []" "last_private e (w_log w) NULL = NULL" for e
    using arg_cong [OF f(4), of cleaned] arg_cong [OF f(4), of "\<lambda>l. last_private e l NULL"] by simp_all
  have "channel_ok sender ?w" using f(2) i idle_zero by (auto simp: channel_ok_def)
  then have "agent_core ?ag" using sender_added [OF f(1,2) fr] i f(3) log by (simp add: agent_core_def)
  moreover have nodes: "nodes (snd (registry_init True)) = []" by (simp add: registry_init_def nodes_def)
  moreover have "registered_exactly (snd (registry_init True)) Map.empty"
    using init_spec [of True] by (simp add: registered_exactly_def)
  ultimately have "agent_inv ?ag" "handles ?ag = {#}" "awaited ?ag = {}" "stop_ok ?ag"
    using f(3) log by (simp_all add: agent_inv_def handles_def registered_handles_def awaited_def stop_ok_def registry_init_def)
  moreover have "init_async_check_messages async ctx_ok sender mutex_ok cond_ok registry_ok uv_ok loop queue multi w
      = Some (Some ?ag, ?w)"
    using i by (simp add: init_async_check_messages_def message_sender_create_def Let_def registry_init_def)
  ultimately show ?thesis by (intro exI [of _ ?ag]) simp
qed

text \<open>A loop on which nothing is bound yet.\<close>

definition new_reactor :: "agent \<Rightarrow> reactor" where
  "new_reactor ag = \<lparr>re_agent = ag, re_context = NULL, re_sockets = Map.empty, re_polls = [], re_closes = [],
     re_timer = None, timer_closing = False, async_closing = False, re_options = (\<lambda>_. NoValue),
     re_assigned = (\<lambda>_. NULL)\<rparr>"

lemma bind_spec:
  assumes "bind_uv_curl_multi ctx ok timer_ok loop multi has_messages r = (b, r')"
    and none: "re_options r = (\<lambda>_. NoValue)"
  shows "b \<longleftrightarrow> loop \<noteq> NULL \<and> multi \<noteq> NULL \<and> has_messages \<and> ctx \<noteq> NULL \<and> (\<forall>opt. ok opt) \<and> timer_ok"
    "r' = (if b then r\<lparr>re_context := ctx, re_options := (\<lambda>opt. case opt of SocketFunctionOpt \<Rightarrow> SocketFunction
        | TimerFunctionOpt \<Rightarrow> TimerFunction | _ \<Rightarrow> Context ctx)\<rparr> else r)"
proof -
  have all: "(\<forall>opt. ok opt) \<longleftrightarrow> ok SocketFunctionOpt \<and> ok SocketDataOpt \<and> ok TimerFunctionOpt \<and> ok TimerDataOpt"
    by (metis multi_option.exhaust)
  have up: "(\<lambda>opt. case opt of SocketFunctionOpt \<Rightarrow> SocketFunction | TimerFunctionOpt \<Rightarrow> TimerFunction | _ \<Rightarrow> Context ctx)
      = (re_options r)(SocketFunctionOpt := SocketFunction, SocketDataOpt := Context ctx,
          TimerFunctionOpt := TimerFunction, TimerDataOpt := Context ctx)"
    by (rule ext) (simp split: multi_option.split)
  have undo: "(\<lambda>_. NoValue)(opt := v, opt := NoValue) = (\<lambda>_. NoValue)" for opt v by auto
  have id: "r\<lparr>re_options := \<lambda>_. NoValue\<rparr> = r" using none [symmetric] by simp
  show "b \<longleftrightarrow> loop \<noteq> NULL \<and> multi \<noteq> NULL \<and> has_messages \<and> ctx \<noteq> NULL \<and> (\<forall>opt. ok opt) \<and> timer_ok"
    using assms(1) by (auto simp: all bind_uv_curl_multi_def curl_multi_setopt_def split: if_splits)
  show "r' = (if b then r\<lparr>re_context := ctx, re_options := (\<lambda>opt. case opt of SocketFunctionOpt \<Rightarrow> SocketFunction
        | TimerFunctionOpt \<Rightarrow> TimerFunction | _ \<Rightarrow> Context ctx)\<rparr> else r)"
    unfolding up using assms(1) none id
    by (auto simp: bind_uv_curl_multi_def curl_multi_setopt_def all_options_def fun_upd_twist fun_upd_idem split: if_splits)
qed

text \<open>An agent as its owner starts it: both functions succeeded, in a world where none has worked yet.\<close>

definition started :: "world \<Rightarrow> reactor \<Rightarrow> bool" where
  "started w r \<longleftrightarrow> fresh_world w \<and> (\<exists>async ctx_ok sender mutex_ok cond_ok registry_ok uv_ok loop queue multi ag w' ctx ok timer_ok.
     w_senders w sender = None
     \<and> init_async_check_messages async ctx_ok sender mutex_ok cond_ok registry_ok uv_ok loop queue multi w = Some (Some ag, w')
     \<and> bind_uv_curl_multi ctx ok timer_ok loop multi True (new_reactor ag) = (True, r))"

lemma new_reactor_inv: "uv_inv (new_reactor ag)"
  by (simp add: uv_inv_def new_reactor_def assigned_ok_def options_ok_def)

lemma started_inv:
  assumes "started w r"
  shows "reactor_inv r" "stop_ok (re_agent r)" "handles (re_agent r) = {#}" "awaited (re_agent r) = {}"
    "re_sockets r = Map.empty" "re_context r \<noteq> NULL" "w_results (ag_world (re_agent r)) = w_results w"
    "w_streams (ag_world (re_agent r)) = w_streams w" "w_headers (ag_world (re_agent r)) = w_headers w"
    "w_metrics (ag_world (re_agent r)) = w_metrics w"
proof -
  obtain async ctx_ok sender mutex_ok cond_ok registry_ok uv_ok loop queue multi ag w' ctx ok timer_ok where
    fw: "fresh_world w" and fr: "w_senders w sender = None"
    and i: "init_async_check_messages async ctx_ok sender mutex_ok cond_ok registry_ok uv_ok loop queue multi w = Some (Some ag, w')"
    and b: "bind_uv_curl_multi ctx ok timer_ok loop multi True (new_reactor ag) = (True, r)"
    using assms unfolding started_def by (elim conjE exE) (rule that; assumption)
  have ok: "init_succeeds async ctx_ok sender mutex_ok cond_ok registry_ok uv_ok loop queue multi"
    using init_failed [OF _ fr] i by fastforce
  have a: "agent_inv ag" "stop_ok ag" "handles ag = {#}" "awaited ag = {}"
    "ag_world ag = w\<lparr>w_senders := (w_senders w)(sender \<mapsto> \<lparr>references = 1, sender_state = 0, async_handle = async\<rparr>)\<rparr>"
    using init_works [OF ok fw fr] i by auto
  have "re_options (new_reactor ag) = (\<lambda>_. NoValue)" by (simp add: new_reactor_def)
  note bs = bind_spec [OF b this]
  have r: "r = (new_reactor ag)\<lparr>re_context := ctx, re_options := (\<lambda>opt. case opt of SocketFunctionOpt \<Rightarrow> SocketFunction
        | TimerFunctionOpt \<Rightarrow> TimerFunction | _ \<Rightarrow> Context ctx)\<rparr>" "ctx \<noteq> NULL" using bs by simp_all
  have "uv_inv r" unfolding r(1)
    by (auto simp: uv_inv_def new_reactor_def assigned_ok_def options_ok_def split: multi_option.split)
  then show "reactor_inv r" using a(1) r(1) by (simp add: reactor_inv_def new_reactor_def)
  show "stop_ok (re_agent r)" "handles (re_agent r) = {#}" "awaited (re_agent r) = {}" "re_sockets r = Map.empty"
    "re_context r \<noteq> NULL" "w_results (ag_world (re_agent r)) = w_results w"
    "w_streams (ag_world (re_agent r)) = w_streams w" "w_headers (ag_world (re_agent r)) = w_headers w"
    "w_metrics (ag_world (re_agent r)) = w_metrics w"
    using a r by (simp_all add: new_reactor_def)
qed

section \<open>A small agent\<close>

text \<open>Two completion records, at 20 and 21, and two submissions of easy handles 30 and 31 with one id.\<close>

definition sample_result :: hs_easy_data where
  "sample_result = the (hs_easy_data_create True 6 0)"

definition sample_start :: world where
  "sample_start = \<lparr>w_streams = Map.empty, w_headers = Map.empty, w_metrics = Map.empty,
     w_results = [20 \<mapsto> sample_result, 21 \<mapsto> sample_result], w_senders = Map.empty,
     w_queue = the (mpscq_create True True None 4), w_log = []\<rparr>"

definition sample_agent :: agent where
  "sample_agent = the (fst (the (init_async_check_messages 5 True 1 True True True True 9 True 8 sample_start)))"

definition sample_reactor :: reactor where
  "sample_reactor = snd (bind_uv_curl_multi 4 (\<lambda>_. True) True 9 8 True (new_reactor sample_agent))"

definition sample_payload :: "CURL \<Rightarrow> addr \<Rightarrow> execute_payload" where
  "sample_payload e p = \<lparr>p_transfer_id = 7, p_easy = e, p_result = p, p_metrics = NULL,
     p_download_stream = NULL, p_upload_stream = NULL\<rparr>"

lemma sample_fresh: "fresh_world sample_start"
proof -
  have m: "mpscq_create True True None 4 = Some (the (mpscq_create True True (None :: outer_message mpscq option) 4))"
    by (simp add: mpscq_create_def is_pow2_test_def slot_size_def SIZE_MAX_def)
  show ?thesis using create_quiescent [OF m]
    by (auto simp: fresh_world_def sample_start_def world_ok_def header_ok_def)
qed

lemma sample_succeeds: "init_succeeds 5 True 1 True True True True 9 True 8"
  by (simp add: init_succeeds_def)

lemma sample_started: "started sample_start sample_reactor"
proof -
  have fr: "w_senders sample_start 1 = None" by (simp add: sample_start_def)
  obtain ag where "init_async_check_messages 5 True 1 True True True True 9 True 8 sample_start = Some (Some ag, ag_world ag)"
    using init_works [OF sample_succeeds sample_fresh fr] by blast
  then have i: "init_async_check_messages 5 True 1 True True True True 9 True 8 sample_start = Some (Some sample_agent, ag_world ag)"
    by (simp add: sample_agent_def)
  obtain b r where b: "bind_uv_curl_multi 4 (\<lambda>_. True) True 9 8 True (new_reactor sample_agent) = (b, r)" by fastforce
  have "re_options (new_reactor sample_agent) = (\<lambda>_. NoValue)" by (simp add: new_reactor_def)
  then have "b" using bind_spec(1) [OF b] by simp
  then have r: "bind_uv_curl_multi 4 (\<lambda>_. True) True 9 8 True (new_reactor sample_agent) = (True, sample_reactor)"
    using b by (simp add: sample_reactor_def)
  show ?thesis unfolding started_def by (intro conjI exI) (rule sample_fresh, rule fr, rule i, rule r)
qed

text \<open>An open agent with room in its queue accepts a message.\<close>

lemma submit_accepted:
  assumes inv: "agent_inv ag" and op: "\<not> sealed (ag_sender ag) (ag_world ag)"
    and room: "length (messages (w_queue (ag_world ag))) < q_max (w_queue (ag_world ag))"
  shows "map_option fst (enqueue_outer_message True (ag_sender ag) tag pl (ag_world ag)) = Some ENQUEUE_MESSAGE_OK"
proof -
  note ch = agent_coreD(2,3) [OF agent_invD(1) [OF inv]]
  have "quiescent (w_queue (ag_world ag))" using ch(2) by (simp add: channel_ok_def)
  then have "q_put (build_message tag pl) (w_queue (ag_world ag)) \<noteq> None"
    using mq.put_full room by (metis less_not_refl)
  then show ?thesis using op
    by (cases rule: enqueue_law [OF ch, of True tag pl]) (auto simp: sealed_def)
qed

lemma sample_agent_world:
  "ag_world sample_agent = sample_start\<lparr>w_senders := [1 \<mapsto> \<lparr>references = 1, sender_state = 0, async_handle = 5\<rparr>]\<rparr>"
  "ag_sender sample_agent = 1" "re_agent sample_reactor = sample_agent"
proof -
  have fr: "w_senders sample_start 1 = None" by (simp add: sample_start_def)
  obtain ag where ag: "init_async_check_messages 5 True 1 True True True True 9 True 8 sample_start = Some (Some ag, ag_world ag)"
    "ag_sender ag = 1" "ag_world ag = sample_start\<lparr>w_senders := (w_senders sample_start)(1 \<mapsto>
      \<lparr>references = 1, sender_state = 0, async_handle = 5\<rparr>)\<rparr>"
    using init_works [OF sample_succeeds sample_fresh fr] by blast
  then show "ag_world sample_agent = sample_start\<lparr>w_senders := [1 \<mapsto> \<lparr>references = 1, sender_state = 0, async_handle = 5\<rparr>]\<rparr>"
    "ag_sender sample_agent = 1" by (simp_all add: sample_agent_def) (simp add: sample_start_def)
  have "re_options (new_reactor sample_agent) = (\<lambda>_. NoValue)" by (simp add: new_reactor_def)
  then show "re_agent sample_reactor = sample_agent"
    using bind_spec(2) [of 4 "\<lambda>_. True" True 9 8 True "new_reactor sample_agent" True sample_reactor]
      bind_spec(1) [of 4 "\<lambda>_. True" True 9 8 True "new_reactor sample_agent"]
    by (cases "bind_uv_curl_multi 4 (\<lambda>_. True) True 9 8 True (new_reactor sample_agent)")
      (simp add: sample_reactor_def new_reactor_def)
qed

lemma sample_queue: "messages (w_queue sample_start) = []" "q_max (w_queue sample_start) = 4"
proof -
  have m: "mpscq_create True True None 4 = Some (the (mpscq_create True True (None :: outer_message mpscq option) 4))"
    by (simp add: mpscq_create_def is_pow2_test_def slot_size_def SIZE_MAX_def)
  show "messages (w_queue sample_start) = []" "q_max (w_queue sample_start) = 4"
    using create_quiescent [OF m] by (simp_all add: sample_start_def)
qed

lemma sample_submit:
  "accepted (Submit True EXECUTE pl) sample_reactor = [pl]"
proof -
  note inv = reactor_invD(1) [OF started_inv(1) [OF sample_started]]
  have "\<not> sealed 1 (ag_world sample_agent)" by (simp add: sealed_def sample_agent_world sender_closed_def)
  then show ?thesis using submit_accepted [OF inv, of EXECUTE pl] by (simp add: sample_agent_world sample_queue)
qed

section \<open>Properties\<close>


lemma sample_history:
  "\<exists>r. history sample_reactor [sample_payload 30 20] r \<and> env_ok (ag_world (re_agent r)) plain_env"
proof -
  note i = started_inv [OF sample_started]
  let ?e = "Submit True EXECUTE (sample_payload 30 20)"
  have "payload_ok (ag_world (re_agent sample_reactor)) (sample_payload 30 20)"
    using i(7) by (simp add: payload_ok_def points_to_def sample_payload_def sample_start_def)
  then have ok: "event_ok sample_reactor ?e" by simp
  obtain r1 where r1: "react ?e sample_reactor = Some r1" "tracks (accepted ?e sample_reactor) sample_reactor r1"
    using event_law [OF i(1,2) ok] by blast
  then have h: "history sample_reactor [sample_payload 30 20] r1"
    using history.step [OF history.start ok r1(1)] sample_submit by simp
  have s1: "reactor_inv r1" "stop_ok (re_agent r1)" using r1(2) by (simp_all add: tracks_def)
  have ok2: "event_ok r1 (WakeUp (\<lambda>_. plain_env))" using plain_env_ok by simp
  obtain r2 where "react (WakeUp (\<lambda>_. plain_env)) r1 = Some r2" using event_law [OF s1 ok2] by blast
  then have "history sample_reactor ([sample_payload 30 20] @ accepted (WakeUp (\<lambda>_. plain_env)) r1) r2"
    by (rule history.step [OF h ok2])
  then show ?thesis using plain_env_ok by auto
qed


text \<open>
  C8. Dispatching terminates: from every state an agent can get to, \<open>async_check_outer_messages\<close>
  returns, with the queue empty, whatever the messages are and however libcurl answers.
\<close>

theorem dispatch_terminates:
  assumes "started w r0" and "history r0 pls r" and "\<And>k. env_ok (ag_world (re_agent r)) (envs k)"
  shows "\<exists>ag. async_check_outer_messages envs (Some (re_agent r)) = Some (Some ag)
    \<and> messages (w_queue (ag_world ag)) = []"
proof -
  have "agent_inv (re_agent r)"
    using history_law [OF assms(2) started_inv(1,2) [OF assms(1)]] by (simp add: tracks_def reactor_inv_def)
  then show ?thesis using dispatch_law [of "re_agent r" envs 0] assms(3)
    by (auto simp: async_check_outer_messages_def)
qed

theorem dispatch_terminates_witness:
  "\<exists>r ag. history sample_reactor [sample_payload 30 20] r
     \<and> async_check_outer_messages (\<lambda>_. plain_env) (Some (re_agent r)) = Some (Some ag)"
proof -
  obtain r where r: "history sample_reactor [sample_payload 30 20] r" using sample_history by blast
  show ?thesis using dispatch_terminates [OF sample_started r plain_env_ok] r by blast
qed

text \<open>
  C6. Socket contexts are used safely: in every state an agent can get to, each event that can come
  next is handled without use of freed memory, a second \<open>free\<close> or an operation on a closed handle;
  a context has exactly one poll handle in the loop and, once closed, exactly one close callback to
  come; libcurl only holds pointers to contexts that are not closed; and tearing the agent down frees
  them all.
\<close>

theorem socket_contexts_safe:
  assumes "started w r0" and "history r0 pls r"
  shows "(event_ok r e \<longrightarrow> (\<exists>r'. react e r = Some r'))
    \<and> (re_sockets r p = Some c \<longrightarrow> count_list (re_polls r) p = 1
        \<and> count_list (re_closes r) p = (if poll_closing c then 1 else 0))
    \<and> (re_assigned r fd \<noteq> NULL \<longrightarrow> (\<exists>c. re_sockets r (re_assigned r fd) = Some c \<and> \<not> poll_closing c))
    \<and> (env_ok (ag_world (re_agent r)) env \<and> list_all (multi_callback_ok (ag_world (re_agent r))) cleanup
        \<and> loop \<noteq> NULL \<and> multi \<noteq> NULL \<longrightarrow>
        (\<exists>r'. agent_shutdown env cleanup loop True multi r = Some r' \<and> re_sockets r' = Map.empty \<and> re_closes r' = []))"
proof -
  note h = history_law [OF assms(2) started_inv(1,2) [OF assms(1)]]
  then have i: "reactor_inv r" "stop_ok (re_agent r)" by (simp_all add: tracks_def)
  note u = uv_invD [OF reactor_invD(2) [OF i(1)]]
  have once: "count_list xs x = (if x \<in> set xs then 1 else 0)" if "distinct xs" for xs and x :: addr
    using that by (induction xs) auto
  show ?thesis
  proof (intro conjI impI)
    show "\<exists>r'. react e r = Some r'" if "event_ok r e" using run.never_stuck [OF h that] .
    show "count_list (re_polls r) p = 1" "count_list (re_closes r) p = (if poll_closing c then 1 else 0)"
      if "re_sockets r p = Some c"
      using u(1) [OF that] once [OF u(2)] once [OF u(3)] by (simp_all add: context_ok_def)
    show "\<exists>c. re_sockets r (re_assigned r fd) = Some c \<and> \<not> poll_closing c" if "re_assigned r fd \<noteq> NULL"
      using u(5) [of fd] that by (auto simp: assigned_ok_def)
    show "\<exists>r'. agent_shutdown env cleanup loop True multi r = Some r' \<and> re_sockets r' = Map.empty \<and> re_closes r' = []"
      if "env_ok (ag_world (re_agent r)) env \<and> list_all (multi_callback_ok (ag_world (re_agent r))) cleanup
        \<and> loop \<noteq> NULL \<and> multi \<noteq> NULL"
      using agent_shutdown_law [OF i, of env cleanup loop multi] that by blast
  qed
qed

text \<open>libcurl asks for socket 3 to be watched; when the socket is ready, libcurl does not know it any more.\<close>

definition sample_ua :: uv_answers where
  "sample_ua = \<lparr>ua_calloc = (\<lambda>S. if S 50 = None then 50 else NULL), ua_poll_init = 0, ua_assign = CURLM_OK,
     ua_poll_start = 0, ua_timer = 0\<rparr>"

definition sample_uv_env :: "CURLMcode \<Rightarrow> uv_env" where
  "sample_uv_env code = \<lparr>ue_curl = plain_env, ue_action = (\<lambda>fd flags. [([], code)]), ue_all = [([], CURLM_OK)]\<rparr>"

definition sample_watch :: reactor_event where
  "sample_watch = MultiCallbacks [SocketCb 3 CURL_POLL_IN True sample_ua]"

lemma sample_uv_env_ok: "code \<noteq> CURLM_CALL_MULTI_PERFORM \<Longrightarrow> uv_env_ok w (sample_uv_env code)"
  by (simp add: uv_env_ok_def sample_uv_env_def plain_env_ok multi_answers_ok_def CURLM_OK_def CURLM_CALL_MULTI_PERFORM_def)

lemma sample_bound:
  "sample_reactor = (new_reactor sample_agent)\<lparr>re_context := 4, re_options := (\<lambda>opt. case opt of
     SocketFunctionOpt \<Rightarrow> SocketFunction | TimerFunctionOpt \<Rightarrow> TimerFunction | _ \<Rightarrow> Context 4)\<rparr>"
proof -
  obtain b r where b: "bind_uv_curl_multi 4 (\<lambda>_. True) True 9 8 True (new_reactor sample_agent) = (b, r)" by fastforce
  have "re_options (new_reactor sample_agent) = (\<lambda>_. NoValue)" by (simp add: new_reactor_def)
  with bind_spec [OF b] b show ?thesis by (simp add: sample_reactor_def)
qed

lemma sample_watched:
  "\<exists>r c. react sample_watch sample_reactor = Some r \<and> re_sockets r 50 = Some c \<and> \<not> poll_closing c
     \<and> re_assigned r 3 = 50 \<and> socket_fd c = 3 \<and> re_agent r = sample_agent \<and> history sample_reactor [] r"
proof -
  have ok: "event_ok sample_reactor sample_watch" by (simp add: sample_watch_def fresh_alloc_def sample_ua_def)
  have "\<exists>r c. react sample_watch sample_reactor = Some r \<and> re_sockets r 50 = Some c \<and> \<not> poll_closing c
     \<and> re_assigned r 3 = 50 \<and> socket_fd c = 3 \<and> re_agent r = sample_agent"
    by (simp add: sample_watch_def sample_bound new_reactor_def curl_socket_function_def new_socket_context_def
      sample_ua_def uv_poll_start_def uv_consts Let_def)
  then obtain r c where r: "react sample_watch sample_reactor = Some r" "re_sockets r 50 = Some c" "\<not> poll_closing c"
    "re_assigned r 3 = 50" "socket_fd c = 3" "re_agent r = sample_agent" by blast
  have "accepted sample_watch sample_reactor = []" by (simp add: sample_watch_def)
  then have "history sample_reactor [] r" using history.step [OF history.start ok r(1)] by simp
  then show ?thesis using r by blast
qed

theorem socket_contexts_safe_witness:
  "\<exists>r c. history sample_reactor [] r \<and> re_sockets r 50 = Some c \<and> count_list (re_polls r) 50 = 1
     \<and> count_list (re_closes r) 50 = 0 \<and> (\<exists>r'. react (SocketReady (sample_uv_env CURLM_BAD_SOCKET) 50 0 1) r = Some r')
     \<and> (\<exists>r'. agent_shutdown plain_env [] 9 True 8 r = Some r' \<and> re_sockets r' = Map.empty)"
proof -
  obtain r c where r: "re_sockets r 50 = Some c" "\<not> poll_closing c" "history sample_reactor [] r"
    using sample_watched by blast
  let ?e = "SocketReady (sample_uv_env CURLM_BAD_SOCKET) 50 0 1"
  have "CURLM_BAD_SOCKET \<noteq> CURLM_CALL_MULTI_PERFORM" by (simp add: CURLM_BAD_SOCKET_def CURLM_CALL_MULTI_PERFORM_def)
  then have e: "event_ok r ?e" using r sample_uv_env_ok by simp
  show ?thesis
    using socket_contexts_safe [OF sample_started r(3), of ?e 50 c 3 plain_env "[]" 9 8] e r plain_env_ok by auto
qed

text \<open>
  C13. Cancelling ends one transfer and no other: the transfer with that id leaves the agent, its
  result is complete with \<open>CURLE_ABORTED_BY_CALLBACK\<close> and its waiter woken, its streams are ended,
  and every other transfer is as before. A cancel or resume request that arrives later, for a
  transfer that is gone, does nothing.
\<close>

theorem cancel_ends_one_transfer:
  assumes inv: "agent_inv ag" and env: "env_ok (ag_world ag) env" and t: "ag_transfers ag tp = Some t"
    and d: "w_results (ag_world ag) (t_result t) = Some d" "\<not> completed d"
  shows "\<exists>ag'. handle_message env (CancelRequest (t_id t)) ag = Some ag'
    \<and> ag_transfers ag' = (ag_transfers ag)(tp := None)
    \<and> settled (ag_world ag') (t_result t)
    \<and> map_option curl_code (w_results (ag_world ag') (t_result t)) = Some CURLE_ABORTED_BY_CALLBACK
    \<and> stream_done (ag_world ag') (t_download t) \<and> stream_done (ag_world ag') (t_upload t)
    \<and> handle_message env' (CancelRequest (t_id t)) ag' = Some ag'
    \<and> handle_message env' (ResumeRequest (t_id t)) ag' = Some ag'"
proof -
  obtain q r where rem: "registry_remove (ag_registry ag) (t_id t) = (q, r)" by fastforce
  obtain ag' where q: "q = tp" and a: "finish_detached_transfer env tp CURLE_ABORTED_BY_CALLBACK (ag\<lparr>ag_registry := r\<rparr>) = Some ag'"
    "advances ag ag'" "ag_transfers ag' = (ag_transfers ag)(tp := None)" "settled (ag_world ag') (t_result t)"
    "stream_done (ag_world ag') (t_download t)" "stream_done (ag_world ag') (t_upload t)"
    "map_option curl_code (w_results (ag_world ag') (t_result t))
      = Some (reported_code (ag_world ag) (t_download t) (t_upload t) CURLE_ABORTED_BY_CALLBACK)"
    using end_registered [OF inv env t rem, of CURLE_ABORTED_BY_CALLBACK] d by blast
  have tp: "tp \<noteq> NULL" using agent_coreD(4) [OF agent_invD(1) [OF inv] t] by blast
  have e: "handle_message env (CancelRequest (t_id t)) ag = Some ag'"
    using rem q tp a(1) by (simp add: handle_message_def cancel_transfer_def)
  note inv' = takesD(1) [OF a(2)]
  have "reg_map (ag_registry ag') (t_id t) \<noteq> Some p" for p
  proof
    assume "reg_map (ag_registry ag') (t_id t) = Some p"
    then obtain u where u: "ag_transfers ag p = Some u" "t_id u = t_id t" "p \<noteq> tp"
      using agent_invD(4) [OF inv'] a(3) by (auto split: if_splits)
    then have "reg_map (ag_registry ag) (t_id t) = Some p" "reg_map (ag_registry ag) (t_id t) = Some tp"
      using agent_invD(4) [OF inv] t by auto
    with u(3) show False by simp
  qed
  then have none: "reg_map (ag_registry ag') (t_id t) = None" by auto
  note ri = agent_invD(3) [OF inv']
  obtain q' r' where rem': "registry_remove (ag_registry ag') (t_id t) = (q', r')" by fastforce
  have q': "q' = NULL" using remove_spec(1) [OF ri rem'] none by simp
  then have "r' = ag_registry ag'" using end_by_id(2) [OF inv' plain_env_ok rem'] by blast
  then have "handle_message env' (CancelRequest (t_id t)) ag' = Some ag'"
    using rem' q' by (simp add: handle_message_def cancel_transfer_def)
  moreover have "handle_message env' (ResumeRequest (t_id t)) ag' = Some ag'"
    using find_NULL [OF ri] none by (simp add: handle_message_def resume_transfer_def)
  moreover have "reported_code (ag_world ag) (t_download t) (t_upload t) CURLE_ABORTED_BY_CALLBACK = CURLE_ABORTED_BY_CALLBACK"
    by (simp add: reported_code_def)
  ultimately show ?thesis using e a by simp
qed

text \<open>The agent with the transfer of handle 30 running.\<close>

definition sample_busy :: agent where
  "sample_busy = the (handle_message plain_env (Execute (sample_payload 30 20)) sample_agent)"

lemma sample_executed:
  "agent_inv sample_busy" "stop_ok sample_busy" "ag_transfers sample_busy 100 = Some ((new_transfer (sample_payload 30 20))\<lparr>t_active := True\<rparr>)"
  "w_results (ag_world sample_busy) = w_results sample_start"
  "ag_sender sample_busy = 1"
proof -
  note i = started_inv [OF sample_started, unfolded sample_agent_world]
  have inv: "agent_inv sample_agent" using i(1) by (simp add: reactor_inv_def sample_agent_world)
  have m: "message_ok (ag_world sample_agent) (Execute (sample_payload 30 20))"
    by (simp add: payload_ok_def points_to_def sample_payload_def sample_start_def sample_agent_world)
  have T: "ag_transfers sample_agent = Map.empty"
  proof -
    have "w_senders sample_start 1 = None" by (simp add: sample_start_def)
    then show ?thesis using init_works [OF sample_succeeds sample_fresh] by (auto simp: sample_agent_def)
  qed
  obtain ag where ag: "handle_message plain_env (Execute (sample_payload 30 20)) sample_agent = Some ag"
    "takes (message_handles (Execute (sample_payload 30 20))) (message_results (Execute (sample_payload 30 20))) sample_agent ag"
    using handle_law [OF inv plain_env_ok m] by blast
  have b: "sample_busy = ag" using ag(1) by (simp add: sample_busy_def)
  show "agent_inv sample_busy" "stop_ok sample_busy" "ag_sender sample_busy = 1"
    using takesD [OF ag(2)] i(2) by (simp_all add: b sample_agent_world)
  obtain bb r where ins: "registry_insert True (ag_registry sample_agent) 7 100 = (bb, r)" by fastforce
  have "reg_map (ag_registry sample_agent) 7 = None" using agent_invD(4) [OF inv, of 7] T by auto
  moreover have "buckets (ag_registry sample_agent) \<noteq> None"
    by (simp add: sample_agent_def init_async_check_messages_def message_sender_create_def Let_def registry_init_def)
  ultimately have "bb" using insert_spec [OF agent_invD(3) [OF inv], of 7 100 True] ins by auto
  then show "ag_transfers sample_busy 100 = Some ((new_transfer (sample_payload 30 20))\<lparr>t_active := True\<rparr>)"
    "w_results (ag_world sample_busy) = w_results sample_start"
    using ag(1) ins T unfolding b
    by (auto simp: handle_message_def execute_transfer_def Let_def plain_env_def sample_payload_def new_transfer_def
      sample_agent_world log_calls_def CURLM_OK_def)
qed

theorem cancel_ends_one_transfer_witness:
  "\<exists>ag'. handle_message plain_env (CancelRequest 7) sample_busy = Some ag'
     \<and> map_option curl_code (w_results (ag_world ag') 20) = Some CURLE_ABORTED_BY_CALLBACK
     \<and> handle_message plain_env (ResumeRequest 7) ag' = Some ag'"
proof -
  let ?t = "(new_transfer (sample_payload 30 20))\<lparr>t_active := True\<rparr>"
  have f: "t_id ?t = 7" "t_result ?t = 20" by (simp_all add: new_transfer_def sample_payload_def)
  have d: "w_results (ag_world sample_busy) (t_result ?t) = Some sample_result" "\<not> completed sample_result"
    unfolding f(2) by (simp_all add: sample_executed(4) sample_start_def sample_result_def hs_easy_data_create_def)
  show ?thesis
    using cancel_ends_one_transfer [OF sample_executed(1) plain_env_ok sample_executed(3) d, of plain_env] unfolding f by blast
qed

text \<open>
  C14. A submission whose id is in use fails alone: its result is complete with an error and its
  waiter woken, its easy handle is released, and the registered transfers, the one with the same id
  among them, stay as they are.
\<close>

theorem duplicate_submission_fails_alone:
  assumes inv: "agent_inv ag" and env: "env_ok (ag_world ag) env" and pl: "payload_ok (ag_world ag) pl"
    and t: "ag_transfers ag tp = Some t" "t_id t = p_transfer_id pl" and e: "p_easy pl \<noteq> NULL" "p_result pl \<noteq> NULL"
    and d: "w_results (ag_world ag) (p_result pl) = Some d" "\<not> completed d"
  shows "\<exists>ag'. handle_message env (Execute pl) ag = Some ag' \<and> ag_transfers ag' = ag_transfers ag
    \<and> ag_registry ag' = ag_registry ag \<and> settled (ag_world ag') (p_result pl)
    \<and> map_option curl_code (w_results (ag_world ag') (p_result pl)) \<in> {Some CURLE_FAILED_INIT, Some CURLE_OUT_OF_MEMORY}
    \<and> cleaned (w_log (ag_world ag')) = cleaned (w_log (ag_world ag)) @ [p_easy pl]"
proof -
  define code where "code = (if p_transfer_id pl \<noteq> 0 \<and> en_transfer env (ag_transfers ag) = NULL
    then CURLE_OUT_OF_MEMORY else CURLE_FAILED_INIT)"
  have "reg_map (ag_registry ag) (p_transfer_id pl) = Some tp" using agent_invD(4) [OF inv] t by blast
  then have "registry_find (ag_registry ag) (p_transfer_id pl) \<noteq> NULL" using find_NULL [OF agent_invD(3) [OF inv]] by simp
  then have "registry_insert b (ag_registry ag) (p_transfer_id pl) p = (False, ag_registry ag)" for b p
    using insert_refused by blast
  then have x: "handle_message env (Execute pl) ag = fail_payload env pl code ag"
    using e by (simp add: handle_message_def execute_transfer_def code_def new_transfer_def)
  obtain w where w: "fail_payload env pl code ag = Some (ag\<lparr>ag_world := w\<rparr>)"
    "calm [CurlEasyCleanup (p_easy pl)] (ag_world ag) w" "settled w (p_result pl)"
    "map_option curl_code (w_results w (p_result pl)) = Some code"
    using fail_core [OF agent_invD(1) [OF inv] env pl, of code] e d by auto
  have "Some code \<in> {Some CURLE_FAILED_INIT, Some CURLE_OUT_OF_MEMORY}" by (simp add: code_def)
  then have "map_option curl_code (w_results w (p_result pl)) \<in> {Some CURLE_FAILED_INIT, Some CURLE_OUT_OF_MEMORY}"
    unfolding w(4) .
  moreover have "cleaned (w_log w) = cleaned (w_log (ag_world ag)) @ [p_easy pl]" using calm_logs(1) [OF w(2)] by simp
  ultimately show ?thesis using x w(1,3) by (intro exI [of _ "ag\<lparr>ag_world := w\<rparr>"] conjI) simp_all
qed

theorem duplicate_submission_fails_alone_witness:
  "\<exists>ag'. handle_message plain_env (Execute (sample_payload 31 21)) sample_busy = Some ag'
     \<and> ag_transfers ag' = ag_transfers sample_busy \<and> settled (ag_world ag') 21"
proof -
  let ?t = "(new_transfer (sample_payload 30 20))\<lparr>t_active := True\<rparr>" and ?pl = "sample_payload 31 21"
  have f: "t_id ?t = p_transfer_id ?pl" "p_easy ?pl \<noteq> NULL" "p_result ?pl \<noteq> NULL" "p_result ?pl = 21"
    by (simp_all add: new_transfer_def sample_payload_def)
  have pl: "payload_ok (ag_world sample_busy) ?pl"
    by (simp add: payload_ok_def points_to_def sample_payload_def sample_executed(4)) (simp add: sample_start_def)
  have d: "w_results (ag_world sample_busy) (p_result ?pl) = Some sample_result" "\<not> completed sample_result"
    unfolding f(4) by (simp_all add: sample_executed(4) sample_start_def sample_result_def hs_easy_data_create_def)
  show ?thesis
    using duplicate_submission_fails_alone [OF sample_executed(1) plain_env_ok pl sample_executed(3) f(1-3) d] f(4) by auto
qed

text \<open>
  C15. A shutdown is final: no transfer and no message is left, every later message is refused with
  \<open>ENQUEUE_MESSAGE_CLOSED\<close> and changes nothing, and a second shutdown, with whatever code, completes
  nothing again: it leaves everything but the sender's state word as it is.
\<close>

theorem shutdown_is_final:
  assumes inv: "agent_inv ag" and stop: "stop_ok ag" and env: "env_ok (ag_world ag) env"
  shows "\<exists>ag'. shutdown_message_context env code ag = Some ag' \<and> ag_transfers ag' = Map.empty
    \<and> messages (w_queue (ag_world ag')) = []
    \<and> enqueue_outer_message c (ag_sender ag) tag pl (ag_world ag') = Some (ENQUEUE_MESSAGE_CLOSED, ag_world ag')
    \<and> (\<exists>ss. shutdown_message_context env' code' ag' = Some (ag'\<lparr>ag_world := (ag_world ag')\<lparr>w_senders := ss\<rparr>\<rparr>))"
proof -
  obtain ag' m where a: "shutdown_message_context env code ag = Some ag'" "advances ag ag'" "ag_transfers ag' = Map.empty"
    "buckets (ag_registry ag') = None" "w_senders (ag_world ag') (ag_sender ag) = Some m" "sender_closed m"
    using shutdown_law [OF inv env] by blast
  note t = takesD [OF a(2)]
  have q: "messages (w_queue (ag_world ag')) = []" using t(9) [OF stop] a(4) by (simp add: stop_ok_def)
  note core = agent_invD(1) [OF t(1)]
  have "enqueue_outer_message c (ag_sender ag) tag pl (ag_world ag') = Some (ENQUEUE_MESSAGE_CLOSED, ag_world ag')"
    using a(5,6) agent_coreD(2) [OF agent_invD(1) [OF inv]] by (simp add: enqueue_outer_message_def)
  moreover have "\<exists>ss. shutdown_message_context env' code' ag' = Some (ag'\<lparr>ag_world := (ag_world ag')\<lparr>w_senders := ss\<rparr>\<rparr>)"
    using close_sender_law [OF core] a(4) by (auto simp: shutdown_message_context_def)
  ultimately show ?thesis using a(1,3) q by blast
qed

theorem shutdown_is_final_witness:
  "\<exists>ag'. shutdown_message_context plain_env CURLE_ABORTED_BY_CALLBACK sample_busy = Some ag'
     \<and> ag_transfers ag' = Map.empty
     \<and> enqueue_outer_message True 1 EXECUTE (sample_payload 31 21) (ag_world ag') = Some (ENQUEUE_MESSAGE_CLOSED, ag_world ag')"
  using shutdown_is_final [OF sample_executed(1,2) plain_env_ok, of CURLE_ABORTED_BY_CALLBACK True EXECUTE "sample_payload 31 21"
      plain_env CURLE_OK] sample_executed(5) by auto

text \<open>
  C16. If \<open>curl_multi_socket_action\<close> fails for a ready socket, other than with \<open>CURLM_BAD_SOCKET\<close>, the
  agent gives up in order: every awaited result, of running transfers and of queued submissions, is
  complete and its waiter woken, no transfer is left, no message can be sent any more, and the loop
  is told to stop.
\<close>

theorem multi_failure_ends_all:
  assumes inv: "reactor_inv r" and stop: "stop_ok (re_agent r)" and env: "uv_env_ok (ag_world (re_agent r)) env"
    and p: "re_sockets r p = Some c"
    and fails: "\<And>a. a \<in> set (ue_action env (socket_fd c) (select_flags status events)) \<Longrightarrow>
      snd a \<noteq> CURLM_OK \<and> snd a \<noteq> CURLM_BAD_SOCKET"
  shows "\<exists>r'. socket_callback env p status events r = Some r' \<and> ag_transfers (re_agent r') = Map.empty
    \<and> (\<forall>x \<in> awaited (re_agent r). settled (ag_world (re_agent r')) x)
    \<and> sealed (ag_sender (re_agent r)) (ag_world (re_agent r'))
    \<and> last (w_log (ag_world (re_agent r'))) = UvStop"
proof -
  note d = reactor_invD [OF inv]
  have cx: "p \<noteq> NULL" "poll_data c = p" "context_multi c = re_context r" "re_context r \<noteq> NULL"
    using uv_invD(1) [OF d(2) p] by (simp_all add: context_ok_def)
  let ?as = "ue_action env (socket_fd c) (select_flags status events)"
  have "multi_answers_ok (ag_world (re_agent r)) ?as" using env by (simp add: uv_env_ok_def)
  from perform_step [OF d(2,3) this] obtain code r1 where p1: "perform_loop ?as r = Some (code, r1)" "serves r r1"
    "code \<in> snd ` set ?as" by blast
  have code: "code \<noteq> CURLM_OK" "code \<noteq> CURLM_BAD_SOCKET" using p1(3) fails by auto
  note inv1 = serves_inv [OF p1(2) inv] and env1 = uv_env_serves(2) [OF p1(2) inv env]
  obtain r' m where f: "fail_reactor env CURLE_RECV_ERROR r1 = Some r'" "reacts r1 r'" "ag_transfers (re_agent r') = Map.empty"
    "buckets (ag_registry (re_agent r')) = None" "last (w_log (ag_world (re_agent r'))) = UvStop"
    "w_senders (ag_world (re_agent r')) (ag_sender (re_agent r1)) = Some m" "sender_closed m"
    using fail_step [OF inv1 env1, of CURLE_RECV_ERROR] by blast
  have sc: "socket_callback env p status events r = Some r'"
    using cx p p1(1) code f(1) by (simp add: socket_callback_def drive_multi_socket_def)
  have adv: "advances (re_agent r) (re_agent r')" using serves_reacts [OF p1(2) inv f(2)] by (simp add: reacts_def)
  note t = takesD [OF adv]
  have "messages (w_queue (ag_world (re_agent r'))) = []" using t(9) [OF stop] f(4) by (simp add: stop_ok_def)
  then have "awaited (re_agent r') = {}" using f(3) by (simp add: awaited_def)
  then have "\<forall>x \<in> awaited (re_agent r). settled (ag_world (re_agent r')) x" using t(6) by blast
  moreover have "ag_sender (re_agent r1) = ag_sender (re_agent r)"
    using takesD(7) [OF serves_advances [OF p1(2) d(1)]] .
  ultimately show ?thesis using sc f by (auto simp: sealed_def)
qed

theorem multi_failure_ends_all_witness:
  "\<exists>r r'. history sample_reactor [] r \<and> socket_callback (sample_uv_env 2) 50 0 1 r = Some r'
     \<and> sealed 1 (ag_world (re_agent r')) \<and> last (w_log (ag_world (re_agent r'))) = UvStop"
proof -
  obtain r c where r: "re_sockets r 50 = Some c" "re_agent r = sample_agent" "history sample_reactor [] r"
    using sample_watched by blast
  have i: "reactor_inv r" "stop_ok (re_agent r)"
    using history_law [OF r(3) started_inv(1,2) [OF sample_started]] by (simp_all add: tracks_def)
  have env: "uv_env_ok (ag_world (re_agent r)) (sample_uv_env 2)"
    by (rule sample_uv_env_ok) (simp add: CURLM_CALL_MULTI_PERFORM_def)
  have fails: "\<And>a. a \<in> set (ue_action (sample_uv_env 2) (socket_fd c) (select_flags 0 1)) \<Longrightarrow>
      snd a \<noteq> CURLM_OK \<and> snd a \<noteq> CURLM_BAD_SOCKET" by (simp add: sample_uv_env_def CURLM_OK_def CURLM_BAD_SOCKET_def)
  obtain r' where "socket_callback (sample_uv_env 2) 50 0 1 r = Some r'"
    "sealed (ag_sender (re_agent r)) (ag_world (re_agent r'))" "last (w_log (ag_world (re_agent r'))) = UvStop"
    using multi_failure_ends_all [OF i env r(1), of 0 1] fails by blast
  then show ?thesis using r(2,3) sample_agent_world(2) by auto
qed

text \<open>
  C20. Binding an agent to a loop is all or nothing: it succeeds exactly if the arguments are given,
  memory is available, libcurl accepts all four options and the timer can be initialised; then both
  callbacks are installed with the context as their data. If it fails, no option refers to the freed
  context and the loop is as before.
\<close>

theorem bind_all_or_nothing:
  assumes "bind_uv_curl_multi ctx ok timer_ok loop multi has_messages r = (b, r')" and "re_options r = (\<lambda>_. NoValue)"
  shows "(b \<longleftrightarrow> loop \<noteq> NULL \<and> multi \<noteq> NULL \<and> has_messages \<and> ctx \<noteq> NULL \<and> (\<forall>opt. ok opt) \<and> timer_ok)
    \<and> r' = (if b then r\<lparr>re_context := ctx, re_options := (\<lambda>opt. case opt of SocketFunctionOpt \<Rightarrow> SocketFunction
        | TimerFunctionOpt \<Rightarrow> TimerFunction | _ \<Rightarrow> Context ctx)\<rparr> else r)"
  using bind_spec [OF assms] by blast

theorem bind_all_or_nothing_witness:
  "\<exists>b r'. bind_uv_curl_multi 4 (\<lambda>opt. opt \<noteq> TimerDataOpt) True 9 8 True (new_reactor sample_agent) = (b, r')
     \<and> \<not> b \<and> r' = new_reactor sample_agent"
proof -
  obtain b r' where b: "bind_uv_curl_multi 4 (\<lambda>opt. opt \<noteq> TimerDataOpt) True 9 8 True (new_reactor sample_agent) = (b, r')"
    by fastforce
  have "re_options (new_reactor sample_agent) = (\<lambda>_. NoValue)" by (simp add: new_reactor_def)
  from bind_all_or_nothing [OF b this] show ?thesis using b by auto
qed



end
