(* ===== verification/Spec2Isabelle.thy ===== *)
theory Spec2Isabelle
  imports Mpscq Message_Sender Transfer_Registry Hs_Extras Curl_Metrics Header_Data Simple_String
    Options Stream_Props Reactor_Props
begin

text \<open>
  \<^bold>\<open>hcurl's C core\<close>

  hcurl is an HTTP client whose core is C code under \<open>src/cbits\<close>. An agent is a thread that owns a
  libuv loop and a libcurl multi handle. Clients of other threads submit requests, cancel and resume
  them through a queue of messages, exchange body bytes with the agent through streams, and wait for
  results, headers, data or room with one-shot wake-ups.

  \<^bold>\<open>Parts, theories, sources\<close>

  \<^item> \<open>Hcurl_Base\<close>: the vocabulary. \<open>size_t\<close> arithmetic with its wrap-around, memory blocks with bounds
    and initialisation, the log of calls that leave the C code, the locales \<open>bounded_fifo\<close>,
    \<open>text_buffer\<close> and \<open>step_system\<close>.
  \<^item> \<open>Mpscq\<close>: the wait-free queue, \<open>third-party/include/waitfree-mpsc-queue/mpsc.c\<close>, as sequential
    functions and as the steps of any number of producers and one consumer.
  \<^item> \<open>Message_Sender\<close>: \<open>message_chan.c\<close> lines 12 to 116, the reference-counted sender, likewise as
    functions and as an interleaved protocol.
  \<^item> \<open>Transfer_Registry\<close>: \<open>message_chan.c\<close> lines 129 to 228, the hash table of transfers, with the
    locale \<open>id_map\<close>.
  \<^item> \<open>Hs_Extras\<close>: \<open>extras.c\<close>, wakers, completion records, the header overlay, global initialisation,
    with the locale \<open>one_shot_waiter\<close>.
  \<^item> \<open>Curl_Metrics\<close>: \<open>curl_metrics.c\<close>. \<open>Header_Data\<close>: \<open>headers.c\<close>. \<open>Simple_String\<close>:
    \<open>simple_string.c\<close>. \<open>Options\<close>: \<open>options.c\<close>.
  \<^item> \<open>Hcurl_Stream\<close>, \<open>Stream_Api\<close>: \<open>stream.c\<close>, the critical sections of a stream and the functions
    composed of them on the shared state \<open>world\<close> of \<open>Hcurl_World\<close>; \<open>Hcurl_World\<close> also has the
    messages and \<open>enqueue_outer_message\<close>.
  \<^item> \<open>Message_Chan\<close>: the rest of \<open>message_chan.c\<close>, an agent's transfers from submission to release,
    the dispatch of messages, shutdown and life cycle, and \<open>check_multi_info\<close> of \<open>curl_uv.c\<close>.
  \<^item> \<open>Curl_Uv\<close>: \<open>curl_uv.c\<close>, socket contexts, the callbacks of libcurl and of libuv, binding and
    tear-down.

  \<^bold>\<open>State and operations\<close>

  A C structure is a record with the structure's fields, a pointer an address with \<open>NULL\<close> zero, the
  heap a map from addresses in \<open>world\<close> (streams, headers, metrics, results, senders), \<open>agent\<close>
  (transfers) and \<open>reactor\<close> (socket contexts). A C function is a definition of the same name; the
  outcomes of allocations are arguments; the result \<open>None\<close> stands for undefined behaviour, a failed
  assertion, or a loop that does not end, so that \<open>\<exists>r. f x = Some r\<close> says that the call is safe and
  returns. Code after \<open>#if LIBCURL_VERSION_NUM\<close> is guarded by the version as an argument.

  \<^bold>\<open>libcurl and libuv\<close>

  They are parameters. \<open>curl_env\<close> and \<open>uv_env\<close> hold the answers of libcurl's functions and the
  callbacks it makes meanwhile, \<open>uv_answers\<close> those of libuv. What is relied on is documented
  behaviour, collected in \<open>env_ok\<close>, \<open>multi_answers_ok\<close>, \<open>valid_call\<close> and \<open>event_ok\<close>: the private
  pointer answered is the one set last, callbacks are the installed ones with their data pointers,
  \<open>calloc\<close> returns fresh memory, libcurl does not ask to be called again for ever, it holds no pointer
  for a socket after \<open>CURL_POLL_REMOVE\<close> or once it answers \<open>CURLM_BAD_SOCKET\<close>, libuv reports only
  watchers that are not closed. Socket and timer callbacks that libcurl makes inside the calls of
  \<open>Message_Chan\<close> touch only the state of \<open>Curl_Uv\<close>; they are the event \<open>MultiCallbacks\<close> of a history.

  \<^bold>\<open>What is shown\<close>

  \<^item> The queue: no interleaving fails an assertion, loses, repeats or reorders a message; whenever no
    thread is inside it is the sequential bounded FIFO, which is what \<open>world\<close> uses.
  \<^item> The sender: once closing returned no producer is inside or gets in; the closer never sleeps
    without a producer that owes it a signal; the count never carries into the closed bit.
  \<^item> The registry refines a finite map, through growth and failed growth.
  \<^item> One-shot pointers (completion records, header waiters, stream waiters) are consumed or handed back
    exactly once; the locale \<open>one_shot_waiter\<close> is interpreted for headers and streams.
  \<^item> Streams: bytes in order without loss, end of file after all bytes, no lost resume request, the
    first completion wins, the sender is freed with its last reference.
  \<^item> Headers, bodies, metrics: memory safety under any allocation failure, what the snapshot and the
    body hold, bounds of the conversions from double and of the counters.
  \<^item> Agents: \<open>Agent_Laws\<close> has the effect of each function on the objects of a transfer, \<open>Agent_Inv\<close> the
    invariant (the registry maps exactly the ids of the allocated transfers; private pointers point to
    the owning transfer) and that every function keeps it together with the account of easy handles,
    \<open>Agent_Run\<close> the dispatch loop and the calls of other threads.
  \<^item> The loop: \<open>Reactor\<close> has the invariant of the socket contexts and the law of each callback,
    \<open>Reactor_Run\<close> the histories of an agent and its tear-down, with the locale \<open>event_ledger\<close>;
    \<open>Reactor_Props\<close> the properties that span the components: every accepted submission is released
    and completed exactly once, socket contexts are freed once and never used afterwards, dispatching
    terminates, cancellation, duplicate ids, failures of the multi handle, shutdown, and the two
    constructors.

  \<^bold>\<open>Bounds and loops\<close>

  No fuel is used. The loops over the queue, \<open>dispatch_loop\<close> and \<open>drain_queue\<close>, are partial functions
  whose termination is proved by the number of messages; loops over answers of libcurl run over the
  list of answers. The interleaved systems have any number of threads and any history.

  \<^bold>\<open>Not modelled\<close>

  \<^item> The Haskell layer above the C code, the queue's stress test, and the contents of libcurl and libuv.
  \<^item> Weak memory: atomic accesses are sequentially consistent in the interleaved systems.
  \<^item> Interleaving inside the functions on \<open>world\<close>: each runs as one step. The mutexes of streams and
    headers make their critical sections atomic, and the queue and the sender are shown to behave
    under interleaving as they do here; the steps between two critical sections of one call are not
    interleaved with other calls.
  \<^item> Functions that only free one object without further state (\<open>destroy_outer_message\<close>,
    \<open>curl_metrics_context_destroy\<close>).
\<close>

end
